(* ===== verification/Prelude.thy ===== *)
theory Prelude
  imports Main "HOL-Library.Word" "HOL-Library.Sublist" "HOL-Library.Multiset"
begin

text \<open>
  Shared vocabulary of the development: the widths of the C++ integers, exceptions and undefined
  behaviour as values of a sum type, the parts of the C++ standard library the sources use
  (\<^verbatim>\<open>std::unordered_map\<close>, the searches of \<^verbatim>\<open>std::string_view\<close>, \<^verbatim>\<open>std::to_string\<close>), and the
  lemmas on lists, options and strings that several components need.
\<close>

section \<open>Collections of facts\<close>

named_theorems invariants \<open>an operation keeps the well-formedness of its component\<close>
named_theorems totality \<open>an operation on a well-formed component neither throws nor hits undefined behaviour\<close>
named_theorems frames \<open>what an operation leaves unchanged\<close>

section \<open>Machine integers, exceptions and undefined behaviour\<close>

type_synonym u16 = "16 word"
type_synonym u32 = "32 word"
type_synonym u64 = "64 word"

lemma unat_u64: "n < 2 ^ 64 \<Longrightarrow> unat (of_nat n :: u64) = n"
  by (simp add: unat_of_nat)

lemma word_count_shift:
  assumes "(a :: u64) + of_bool p = of_nat n + of_bool p'" and "n' + of_bool p = n + of_bool p'"
  shows "a = of_nat n'"
proof -
  have "(of_nat (n' + of_bool p) :: u64) = of_nat (n + of_bool p')"
    using assms(2) by simp
  then show ?thesis
    using assms(1) by (simp add: of_nat_of_bool) (metis add_right_cancel)
qed

text \<open>Time points and durations of \<^verbatim>\<open>std::chrono::steady_clock\<close>, in nanoseconds.\<close>

type_synonym nanos = int

definition ms :: "int \<Rightarrow> nanos" where
  "ms n = n * 1000000"

text \<open>
  The exceptions the sources throw or let through, with their messages, and undefined behaviour of
  the standard library (an iterator that refers to no node, \<^verbatim>\<open>back()\<close> of an empty list).
\<close>

datatype cpp_error =
    Invalid_argument string
  | Runtime_error string
  | System_error string
  | Out_of_range
  | Undefined_behaviour string

type_synonym 'a result = "cpp_error + 'a"

definition rbind :: "'a result \<Rightarrow> ('a \<Rightarrow> 'b result) \<Rightarrow> 'b result" where
  "rbind r f = (case r of Inl e \<Rightarrow> Inl e | Inr x \<Rightarrow> f x)"

lemma rbind_simps [simp]:
  "rbind (Inl e) f = Inl e"
  "rbind (Inr x) f = f x"
  by (simp_all add: rbind_def)

lemma rbind_eq_Inr: "rbind r f = Inr y \<longleftrightarrow> (\<exists>x. r = Inr x \<and> f x = Inr y)"
  by (cases r) auto

lemma rbind_cong [fundef_cong]:
  "r = r' \<Longrightarrow> (\<And>x. r' = Inr x \<Longrightarrow> f x = g x) \<Longrightarrow> rbind r f = rbind r' g"
  by (cases r') auto

text \<open>A loop body that may throw, run over a list: the first exception ends the loop.\<close>

primrec rmap :: "('a \<Rightarrow> 'b result) \<Rightarrow> 'a list \<Rightarrow> 'b list result" where
  "rmap f [] = Inr []"
| "rmap f (x # xs) = rbind (f x) (\<lambda>y. rbind (rmap f xs) (\<lambda>ys. Inr (y # ys)))"

lemma rmap_eq_Inr: "rmap f xs = Inr ys \<longleftrightarrow> list_all2 (\<lambda>x y. f x = Inr y) xs ys"
  by (induction xs arbitrary: ys) (auto simp: rbind_eq_Inr list_all2_Cons1)

lemma rmap_length: "rmap f xs = Inr ys \<Longrightarrow> length ys = length xs"
  by (simp add: rmap_eq_Inr list_all2_lengthD)

section \<open>\<^verbatim>\<open>std::unordered_map\<close>\<close>

text \<open>
  The sources look keys up, insert, assign through an iterator, erase and ask for the size; they
  never iterate. A map is the list of its entries with distinct keys.
\<close>

type_synonym ('k, 'v) unordered_map = "('k \<times> 'v) list"

definition um_find :: "'k \<Rightarrow> ('k, 'v) unordered_map \<Rightarrow> 'v option" where
  "um_find k m = map_of m k"

definition um_emplace :: "'k \<Rightarrow> 'v \<Rightarrow> ('k, 'v) unordered_map \<Rightarrow> ('k, 'v) unordered_map" where
  "um_emplace k v m = (case um_find k m of None \<Rightarrow> (k, v) # m | Some _ \<Rightarrow> m)"

definition um_assign :: "'k \<Rightarrow> 'v \<Rightarrow> ('k, 'v) unordered_map \<Rightarrow> ('k, 'v) unordered_map" where
  "um_assign k v m = map (\<lambda>(a, b). (a, if a = k then v else b)) m"

definition um_erase :: "'k \<Rightarrow> ('k, 'v) unordered_map \<Rightarrow> ('k, 'v) unordered_map" where
  "um_erase k m = filter (\<lambda>(a, b). a \<noteq> k) m"

definition um_size :: "('k, 'v) unordered_map \<Rightarrow> nat" where
  "um_size m = length m"

definition um_wf :: "('k, 'v) unordered_map \<Rightarrow> bool" where
  "um_wf m \<longleftrightarrow> distinct (map fst m)"

lemma um_find_Nil [simp]: "um_find k [] = None"
  by (simp add: um_find_def)

lemma um_find_Cons: "um_find k ((a, v) # m) = (if a = k then Some v else um_find k m)"
  by (simp add: um_find_def)

lemma um_find_emplace [simp]:
  "um_find j (um_emplace k v m) =
     (if j = k \<and> um_find k m = None then Some v else um_find j m)"
  by (auto simp: um_find_def um_emplace_def split: option.split)

lemma um_find_assign [simp]:
  "um_find j (um_assign k v m) =
     (if j = k then map_option (\<lambda>_. v) (um_find k m) else um_find j m)"
  by (induction m) (auto simp: um_find_def um_assign_def)

lemma um_find_erase [simp]:
  "um_find j (um_erase k m) = (if j = k then None else um_find j m)"
  by (induction m) (auto simp: um_find_def um_erase_def)

lemma fst_um_assign [simp]: "map fst (um_assign k v m) = map fst m"
  by (induction m) (auto simp: um_assign_def)

lemma um_wf_ops [simp, intro]:
  "um_wf []"
  "um_wf m \<Longrightarrow> um_wf (um_emplace k v m)"
  "um_wf m \<Longrightarrow> um_wf (um_assign k v m)"
  "um_wf m \<Longrightarrow> um_wf (um_erase k m)"
  by (auto simp: um_wf_def um_emplace_def um_erase_def um_find_def distinct_map_filter
      map_of_eq_None_iff split: option.split)

lemma um_wf_find_iff: "um_wf m \<Longrightarrow> um_find k m = Some v \<longleftrightarrow> (k, v) \<in> set m"
  by (simp add: um_wf_def um_find_def)

lemma um_find_None_iff: "um_find k m = None \<longleftrightarrow> k \<notin> fst ` set m"
  by (simp add: um_find_def map_of_eq_None_iff)

text \<open>
  What the clients of \<^verbatim>\<open>std::unordered_map\<close> rely on, and that the size is then the number of keys
  that have a value.
\<close>

locale keyed_map =
  fixes find :: "'k \<Rightarrow> 'm \<Rightarrow> 'v option"
    and emplace :: "'k \<Rightarrow> 'v \<Rightarrow> 'm \<Rightarrow> 'm"
    and assign :: "'k \<Rightarrow> 'v \<Rightarrow> 'm \<Rightarrow> 'm"
    and erase :: "'k \<Rightarrow> 'm \<Rightarrow> 'm"
    and size_of :: "'m \<Rightarrow> nat"
    and wf_map :: "'m \<Rightarrow> bool"
  assumes find_emplace: "find j (emplace k v m) =
      (if j = k \<and> find k m = None then Some v else find j m)"
    and find_assign: "find j (assign k v m) =
      (if j = k then map_option (\<lambda>_. v) (find k m) else find j m)"
    and find_erase: "find j (erase k m) = (if j = k then None else find j m)"
    and size_card: "wf_map m \<Longrightarrow> size_of m = card {k. find k m \<noteq> None}"
    and finite_keys: "finite {k. find k m \<noteq> None}"
    and wf_emplace: "wf_map m \<Longrightarrow> wf_map (emplace k v m)"
    and wf_assign: "wf_map m \<Longrightarrow> wf_map (assign k v m)"
    and wf_erase: "wf_map m \<Longrightarrow> wf_map (erase k m)"
begin

lemma size_emplace:
  assumes "wf_map m"
  shows "size_of (emplace k v m) = (if find k m = None then Suc (size_of m) else size_of m)"
proof -
  have "{j. find j (emplace k v m) \<noteq> None} = insert k {j. find j m \<noteq> None}" if "find k m = None"
    using that by (auto simp: find_emplace)
  moreover have "{j. find j (emplace k v m) \<noteq> None} = {j. find j m \<noteq> None}" if "find k m \<noteq> None"
    using that by (auto simp: find_emplace)
  ultimately show ?thesis
    using assms by (simp add: size_card wf_emplace finite_keys del: not_None_eq)
qed

lemma size_assign: "wf_map m \<Longrightarrow> size_of (assign k v m) = size_of m"
  by (auto simp: size_card wf_assign find_assign intro!: arg_cong [where f = card])

lemma size_erase:
  assumes "wf_map m" and "find k m \<noteq> None"
  shows "Suc (size_of (erase k m)) = size_of m"
proof -
  have "{j. find j (erase k m) \<noteq> None} = {j. find j m \<noteq> None} - {k}"
    by (auto simp: find_erase)
  then show ?thesis
    using assms card_Suc_Diff1 [OF finite_keys, of k m] by (simp add: size_card wf_erase)
qed

end

lemma um_keys: "{k. um_find k m \<noteq> None} = fst ` set m"
  by (auto simp: um_find_None_iff)

interpretation um: keyed_map um_find um_emplace um_assign um_erase um_size um_wf
proof
  show "um_size m = card {k. um_find k m \<noteq> None}" if "um_wf m" for m :: "('k, 'v) unordered_map"
    using that distinct_card [of "map fst m"] by (simp add: um_keys um_wf_def um_size_def del: not_None_eq)
qed (auto simp: um_keys simp del: not_None_eq)

section \<open>\<^verbatim>\<open>std::string_view\<close> searches\<close>

definition newline :: string where
  "newline = [CHR 0x0A]"

text \<open>Positions are byte offsets; \<^const>\<open>None\<close> is \<^verbatim>\<open>npos\<close>.\<close>

primrec index_of :: "('a \<Rightarrow> bool) \<Rightarrow> 'a list \<Rightarrow> nat option" where
  "index_of P [] = None"
| "index_of P (x # xs) = (if P x then Some 0 else map_option Suc (index_of P xs))"

definition last_index_of :: "('a \<Rightarrow> bool) \<Rightarrow> 'a list \<Rightarrow> nat option" where
  "last_index_of P xs = map_option (\<lambda>i. length xs - 1 - i) (index_of P (rev xs))"

definition sv_find :: "char \<Rightarrow> nat \<Rightarrow> string \<Rightarrow> nat option" where
  "sv_find c pos s = map_option (\<lambda>i. pos + i) (index_of (\<lambda>d. d = c) (drop pos s))"

definition sv_rfind :: "char \<Rightarrow> string \<Rightarrow> nat option" where
  "sv_rfind c s = last_index_of (\<lambda>d. d = c) s"

definition sv_find_first_not_of :: "string \<Rightarrow> string \<Rightarrow> nat option" where
  "sv_find_first_not_of cs s = index_of (\<lambda>d. d \<notin> set cs) s"

definition sv_find_last_not_of :: "string \<Rightarrow> string \<Rightarrow> nat option" where
  "sv_find_last_not_of cs s = last_index_of (\<lambda>d. d \<notin> set cs) s"

text \<open>
  \<^verbatim>\<open>s.substr(pos, n)\<close> for a position within the string, which every call in the sources satisfies
  (beyond it the library throws).
\<close>

definition sv_substr :: "nat \<Rightarrow> nat \<Rightarrow> string \<Rightarrow> string" where
  "sv_substr pos n s = take n (drop pos s)"

primrec sv_contains :: "string \<Rightarrow> string \<Rightarrow> bool" where
  "sv_contains needle [] \<longleftrightarrow> needle = []"
| "sv_contains needle (c # s) \<longleftrightarrow> prefix needle (c # s) \<or> sv_contains needle s"

lemma sv_contains_sublist: "sv_contains needle s \<longleftrightarrow> sublist needle s"
  by (induction s) (auto simp: sublist_Cons_right)

lemma index_of_None_iff: "index_of P xs = None \<longleftrightarrow> (\<forall>x \<in> set xs. \<not> P x)"
  by (induction xs) auto

lemma index_of_eq_Some:
  "index_of P xs = Some i \<longleftrightarrow> i < length xs \<and> P (xs ! i) \<and> (\<forall>j < i. \<not> P (xs ! j))"
proof (induction xs arbitrary: i)
  case Nil
  then show ?case by simp
next
  case (Cons x xs)
  show ?case
    by (cases i) (auto simp: Cons.IH nth_Cons' less_Suc_eq_0_disj)
qed

lemma index_of_append:
  "index_of P (xs @ ys) =
     (case index_of P xs of Some i \<Rightarrow> Some i | None \<Rightarrow> map_option ((+) (length xs)) (index_of P ys))"
  by (induction xs) (cases "index_of P ys"; auto split: option.splits)+

lemma index_of_takeWhile:
  "index_of P xs = Some i \<Longrightarrow> take i xs = takeWhile (\<lambda>x. \<not> P x) xs \<and> drop i xs = dropWhile (\<lambda>x. \<not> P x) xs"
  by (induction xs arbitrary: i) (auto split: if_splits)

lemma last_index_of_None_iff: "last_index_of P xs = None \<longleftrightarrow> (\<forall>x \<in> set xs. \<not> P x)"
  by (simp add: last_index_of_def index_of_None_iff)

section \<open>\<^verbatim>\<open>std::to_string\<close>\<close>

definition digit_char :: "nat \<Rightarrow> char" where
  "digit_char d = char_of (48 + d)"

definition is_digit :: "char \<Rightarrow> bool" where
  "is_digit c \<longleftrightarrow> 48 \<le> (of_char c :: nat) \<and> (of_char c :: nat) \<le> 57"

definition digit_value :: "char \<Rightarrow> nat" where
  "digit_value c = of_char c - 48"

fun to_string :: "nat \<Rightarrow> string" where
  "to_string n = (if n < 10 then [digit_char n] else to_string (n div 10) @ [digit_char (n mod 10)])"

declare to_string.simps [simp del]

definition decimal :: "string \<Rightarrow> nat" where
  "decimal s = foldl (\<lambda>acc c. 10 * acc + digit_value c) 0 s"

lemma digit_char [simp]:
  assumes "d < 10"
  shows "is_digit (digit_char d)" and "digit_value (digit_char d) = d"
  using assms by (simp_all add: is_digit_def digit_char_def digit_value_def)

lemma to_string_nonempty [simp]: "to_string n \<noteq> []"
  by (subst to_string.simps) simp

lemma to_string_digits: "list_all is_digit (to_string n)"
proof (induction n rule: to_string.induct)
  case (1 n)
  then show ?case
    by (subst to_string.simps) simp
qed

lemma decimal_to_string [simp]: "decimal (to_string n) = n"
proof (induction n rule: to_string.induct)
  case (1 n)
  then show ?case
    by (subst to_string.simps) (auto simp: decimal_def)
qed

lemma to_string_inject [simp]: "to_string m = to_string n \<longleftrightarrow> m = n"
  by (metis decimal_to_string)

lemma colon_not_in_to_string [simp]: "CHR '':'' \<notin> set (to_string n)"
  using to_string_digits [of n] by (auto simp: list_all_iff is_digit_def)

section \<open>Lists\<close>

lemma mset_filter_split: "mset xs = mset (filter P xs) + mset (filter (\<lambda>x. \<not> P x) xs)"
  by (induction xs) auto

lemma length_filter_update:
  "i < length xs \<Longrightarrow>
   length (filter P (xs[i := x])) + of_bool (P (xs ! i)) = length (filter P xs) + of_bool (P x)"
proof (induction xs arbitrary: i)
  case Nil
  then show ?case by simp
next
  case (Cons y ys)
  then show ?case
    using Cons.IH [of "i - 1"] by (cases i) auto
qed

lemma filter_eq_distinct: "distinct ws \<Longrightarrow> filter (\<lambda>w. w = i) ws = (if i \<in> set ws then [i] else [])"
  by (induction ws) auto

lemma count_list_distinct: "distinct xs \<Longrightarrow> count_list xs x = of_bool (x \<in> set xs)"
  by (induction xs) auto

lemma map_update_same: "f y = f (xs ! i) \<Longrightarrow> map f (xs[i := y]) = map f xs"
  by (cases "i < length xs") (auto intro!: nth_equalityI simp: nth_list_update)

lemma rotate1_funpow: "(rotate1 ^^ k) xs = rotate k xs"
  by (simp add: rotate_def)

end
