(* ===== verification/Response_Cache.thy ===== *)
theory Response_Cache
  imports Prelude
begin

text \<open>
  \<^verbatim>\<open>include/eventedge/response_cache.hpp\<close> and \<^verbatim>\<open>src/response_cache.cpp\<close>: the LRU cache with a
  time to live. \<^verbatim>\<open>std::list\<close> is a list of nodes with identities, an iterator is the identity of a
  node, and using an iterator whose node is gone is undefined behaviour. The clock reading of
  \<^verbatim>\<open>steady_clock::now()\<close> is an argument. Every method holds the mutex throughout, so each is one
  atomic step.
\<close>

section \<open>\<^verbatim>\<open>std::list\<close>\<close>

type_synonym iterator = nat
type_synonym node_list = "(iterator \<times> string) list"

definition list_erase :: "iterator \<Rightarrow> node_list \<Rightarrow> node_list result" where
  "list_erase it l =
     (case map_of l it of
        None \<Rightarrow> Inl (Undefined_behaviour ''erase of an invalid iterator'')
      | Some _ \<Rightarrow> Inr (filter (\<lambda>(n, _). n \<noteq> it) l))"

text \<open>\<^verbatim>\<open>l.splice(l.begin(), l, it)\<close>: the node moves to the front and keeps its identity.\<close>

definition list_splice_front :: "iterator \<Rightarrow> node_list \<Rightarrow> node_list result" where
  "list_splice_front it l =
     (case map_of l it of
        None \<Rightarrow> Inl (Undefined_behaviour ''splice of an invalid iterator'')
      | Some key \<Rightarrow> Inr ((it, key) # filter (\<lambda>(n, _). n \<noteq> it) l))"

definition list_back :: "node_list \<Rightarrow> string result" where
  "list_back l =
     (if l = [] then Inl (Undefined_behaviour ''back of an empty list'') else Inr (snd (last l)))"

section \<open>State and operations\<close>

record CacheOptions =
  capacity :: nat
  ttl :: int

definition CacheOptions_default :: CacheOptions where
  "CacheOptions_default = \<lparr>capacity = 1024, ttl = 2000\<rparr>"

record 'r Entry =
  entry_response :: 'r
  expires_at :: nanos
  lru_position :: iterator

record 'r ResponseCache =
  options :: CacheOptions
  lru :: node_list
  entries :: "(string, 'r Entry) unordered_map"
  next_node :: iterator

definition ResponseCache_new :: "CacheOptions \<Rightarrow> 'r ResponseCache result" where
  "ResponseCache_new opts =
     (if capacity opts = 0 then Inl (Invalid_argument ''cache capacity must be greater than zero'')
      else Inr \<lparr>options = opts, lru = [], entries = [], next_node = 0\<rparr>)"

definition cache_get :: "nanos \<Rightarrow> string \<Rightarrow> 'r ResponseCache \<Rightarrow> ('r option \<times> 'r ResponseCache) result" where
  "cache_get now key c =
     (case um_find key (entries c) of
        None \<Rightarrow> Inr (None, c)
      | Some entry \<Rightarrow>
          if now \<ge> expires_at entry then
            rbind (list_erase (lru_position entry) (lru c)) (\<lambda>l.
              Inr (None, c\<lparr>lru := l, entries := um_erase key (entries c)\<rparr>))
          else
            rbind (list_splice_front (lru_position entry) (lru c)) (\<lambda>l.
              Inr (Some (entry_response entry), c\<lparr>lru := l\<rparr>)))"

definition cache_evict :: "'r ResponseCache \<Rightarrow> 'r ResponseCache result" where
  "cache_evict c =
     (if um_size (entries c) = capacity (options c) then
        rbind (list_back (lru c)) (\<lambda>k.
          Inr (c\<lparr>entries := um_erase k (entries c), lru := butlast (lru c)\<rparr>))
      else Inr c)"

definition cache_put :: "nanos \<Rightarrow> string \<Rightarrow> 'r \<Rightarrow> 'r ResponseCache \<Rightarrow> 'r ResponseCache result" where
  "cache_put now key response c =
     (let expires = now + ms (ttl (options c)) in
      case um_find key (entries c) of
        Some existing \<Rightarrow>
          rbind (list_splice_front (lru_position existing) (lru c)) (\<lambda>l.
            Inr (c\<lparr>entries := um_assign key
                      (existing\<lparr>entry_response := response, expires_at := expires\<rparr>) (entries c),
                   lru := l\<rparr>))
      | None \<Rightarrow>
          rbind (cache_evict c) (\<lambda>c.
            Inr (c\<lparr>lru := (next_node c, key) # lru c,
                   entries := um_emplace key
                     \<lparr>entry_response = response, expires_at = expires, lru_position = next_node c\<rparr>
                     (entries c),
                   next_node := Suc (next_node c)\<rparr>)))"

definition cache_size :: "'r ResponseCache \<Rightarrow> nat" where
  "cache_size c = um_size (entries c)"

section \<open>Well-formedness and the abstract contents\<close>

text \<open>
  The list holds one node per entry, the entry of a key refers to the node that carries the key, and
  identities handed out are below the next one.
\<close>

definition cache_wf :: "'r ResponseCache \<Rightarrow> bool" where
  "cache_wf c \<longleftrightarrow>
     0 < capacity (options c) \<and> um_wf (entries c) \<and> um_size (entries c) \<le> capacity (options c) \<and>
     distinct (map fst (lru c)) \<and> distinct (map snd (lru c)) \<and>
     (\<forall>n \<in> fst ` set (lru c). n < next_node c) \<and>
     snd ` set (lru c) = fst ` set (entries c) \<and>
     (\<forall>k e. um_find k (entries c) = Some e \<longrightarrow> (lru_position e, k) \<in> set (lru c))"

type_synonym 'r contents = "(string \<times> 'r \<times> nanos) list"

definition entry_value :: "'r ResponseCache \<Rightarrow> string \<Rightarrow> 'r \<times> nanos" where
  "entry_value c k = (case um_find k (entries c) of Some e \<Rightarrow> (entry_response e, expires_at e))"

text \<open>Keys with their response and expiry, the most recently used first.\<close>

definition contents :: "'r ResponseCache \<Rightarrow> 'r contents" where
  "contents c = map (\<lambda>(n, k). (k, entry_value c k)) (lru c)"

section \<open>The abstract LRU store\<close>

definition without :: "'k \<Rightarrow> ('k \<times> 'v) list \<Rightarrow> ('k \<times> 'v) list" where
  "without k xs = filter (\<lambda>(j, _). j \<noteq> k) xs"

definition spec_get :: "nanos \<Rightarrow> 'k \<Rightarrow> ('k \<times> 'r \<times> nanos) list \<Rightarrow> 'r option \<times> ('k \<times> 'r \<times> nanos) list" where
  "spec_get now k xs =
     (case map_of xs k of
        None \<Rightarrow> (None, xs)
      | Some (r, t) \<Rightarrow> if now < t then (Some r, (k, r, t) # without k xs) else (None, without k xs))"

definition spec_put ::
    "nat \<Rightarrow> nanos \<Rightarrow> nanos \<Rightarrow> 'k \<Rightarrow> 'r \<Rightarrow> ('k \<times> 'r \<times> nanos) list \<Rightarrow> ('k \<times> 'r \<times> nanos) list" where
  "spec_put cap life now k r xs =
     (k, r, now + life) #
       (if map_of xs k = None \<and> length xs = cap then butlast xs else without k xs)"

datatype ('k, 'r) store_op = Op_get nanos 'k | Op_put nanos 'k 'r

fun op_key :: "('k, 'r) store_op \<Rightarrow> 'k" where
  "op_key (Op_get now k) = k"
| "op_key (Op_put now k r) = k"

fun spec_step :: "nat \<Rightarrow> nanos \<Rightarrow> ('k, 'r) store_op \<Rightarrow> ('k \<times> 'r \<times> nanos) list \<Rightarrow>
    'r option list \<times> ('k \<times> 'r \<times> nanos) list" where
  "spec_step cap life (Op_get now k) xs = ([fst (spec_get now k xs)], snd (spec_get now k xs))"
| "spec_step cap life (Op_put now k r) xs = ([], spec_put cap life now k r xs)"

primrec spec_run :: "nat \<Rightarrow> nanos \<Rightarrow> ('k, 'r) store_op list \<Rightarrow> ('k \<times> 'r \<times> nanos) list \<Rightarrow>
    'r option list \<times> ('k \<times> 'r \<times> nanos) list" where
  "spec_run cap life [] xs = ([], xs)"
| "spec_run cap life (x # ops) xs =
     (fst (spec_step cap life x xs) @ fst (spec_run cap life ops (snd (spec_step cap life x xs))),
      snd (spec_run cap life ops (snd (spec_step cap life x xs))))"

text \<open>A sequence of calls on an implementation, ending at the first exception.\<close>

primrec store_run ::
    "(nanos \<Rightarrow> 'k \<Rightarrow> 's \<Rightarrow> ('r option \<times> 's) result) \<Rightarrow> (nanos \<Rightarrow> 'k \<Rightarrow> 'r \<Rightarrow> 's \<Rightarrow> 's result) \<Rightarrow>
     ('k, 'r) store_op list \<Rightarrow> 's \<Rightarrow> ('r option list \<times> 's) result" where
  "store_run get put [] s = Inr ([], s)"
| "store_run get put (x # ops) s =
     (case x of
        Op_get now k \<Rightarrow> rbind (get now k s) (\<lambda>(r, s').
          rbind (store_run get put ops s') (\<lambda>(rs, s''). Inr (r # rs, s'')))
      | Op_put now k r \<Rightarrow> rbind (put now k r s) (\<lambda>s'. store_run get put ops s'))"

text \<open>The last value a sequence of calls stored under a key, and when.\<close>

fun last_put :: "'k \<Rightarrow> ('k, 'r) store_op list \<Rightarrow> ('r \<times> nanos) option" where
  "last_put k [] = None"
| "last_put k (Op_get now j # ops) = last_put k ops"
| "last_put k (Op_put now j r # ops) =
     (case last_put k ops of Some x \<Rightarrow> Some x | None \<Rightarrow> if j = k then Some (r, now) else None)"

section \<open>Lemmas on the abstract store\<close>

lemma map_fst_without [simp]: "map fst (without k xs) = filter (\<lambda>j. j \<noteq> k) (map fst xs)"
  by (induction xs) (auto simp: without_def)

lemma set_without: "set (without k xs) = {(j, v) \<in> set xs. j \<noteq> k}"
  by (auto simp: without_def)

lemma without_simps [simp]:
  "without k [] = []"
  "without k (p # xs) = (if k = fst p then without k xs else p # without k xs)"
  by (auto simp: without_def case_prod_beta)

lemma without_id [simp]: "k \<notin> fst ` set xs \<Longrightarrow> without k xs = xs"
  by (induction xs) simp_all

lemma length_without:
  "distinct (map fst xs) \<Longrightarrow> k \<in> fst ` set xs \<Longrightarrow> Suc (length (without k xs)) = length xs"
  by (induction xs) (simp_all, metis without_id)

lemma map_of_without [simp]: "map_of (without k xs) j = (if j = k then None else map_of xs j)"
  by (induction xs) auto

lemma map_of_in_keys: "map_of xs k = Some v \<Longrightarrow> k \<in> fst ` set xs"
  by (force dest: map_of_SomeD)

definition store_wf :: "nat \<Rightarrow> ('k \<times> 'v) list \<Rightarrow> bool" where
  "store_wf cap xs \<longleftrightarrow> distinct (map fst xs) \<and> length xs \<le> cap"

lemma butlast_in: "x \<in> set (butlast xs) \<Longrightarrow> x \<in> set xs"
  by (rule in_set_butlastD)

lemma map_of_eq_None_keys: "map_of xs k = None \<longleftrightarrow> k \<notin> set (map fst xs)"
  by (simp add: map_of_eq_None_iff)

lemma store_wf_put:
  assumes "0 < cap" and "store_wf cap xs"
  shows "store_wf cap (spec_put cap life now k r xs)"
proof (cases "map_of xs k")
  case None
  then show ?thesis
    using assms
    by (auto simp: store_wf_def spec_put_def map_of_eq_None_iff map_butlast distinct_butlast
        dest!: in_set_butlastD)
next
  case (Some v)
  then show ?thesis
    using assms length_without [of xs k] map_of_in_keys [OF Some] by (auto simp: store_wf_def spec_put_def)
qed

lemma store_wf_get:
  assumes "store_wf cap xs"
  shows "store_wf cap (snd (spec_get now k xs))"
proof (cases "map_of xs k")
  case None
  then show ?thesis
    using assms by (simp add: spec_get_def)
next
  case (Some v)
  then show ?thesis
    using assms length_without [of xs k] map_of_in_keys [OF Some]
    by (auto simp: store_wf_def spec_get_def split: prod.split)
qed

lemma store_wf_step:
  "0 < cap \<Longrightarrow> store_wf cap xs \<Longrightarrow> store_wf cap (snd (spec_step cap life x xs))"
  by (cases x) (auto intro: store_wf_put store_wf_get)


subsection \<open>What is stored is what was put last\<close>

definition traced :: "nanos \<Rightarrow> ('k, 'r) store_op list \<Rightarrow> ('k \<times> 'r \<times> nanos) list \<Rightarrow> bool" where
  "traced life ops xs \<longleftrightarrow>
     (\<forall>k r e. (k, r, e) \<in> set xs \<longrightarrow> last_put k ops = Some (r, e - life))"

lemma last_put_append:
  "last_put k (ops @ ops') = (case last_put k ops' of Some x \<Rightarrow> Some x | None \<Rightarrow> last_put k ops)"
  by (induction k ops rule: last_put.induct) (auto split: option.splits)

lemma traced_step:
  assumes "traced life ops xs"
  shows "traced life (ops @ [x]) (snd (spec_step cap life x xs))"
proof (cases x)
  case (Op_get now k)
  then show ?thesis
    using assms
    by (auto simp: traced_def spec_get_def last_put_append set_without dest: map_of_SomeD
        split: option.splits prod.splits)
next
  case (Op_put now k r)
  then show ?thesis
    using assms
    by (auto simp: traced_def spec_put_def last_put_append set_without map_of_eq_None_iff
        dest!: in_set_butlastD intro: rev_image_eqI)
qed

lemma traced_run: "traced life ops xs \<Longrightarrow> traced life (ops @ ops') (snd (spec_run cap life ops' xs))"
proof (induction ops' arbitrary: ops xs)
  case Nil
  then show ?case by simp
next
  case (Cons x ops')
  from Cons.IH [OF traced_step [OF Cons.prems, of x cap]] show ?case
    by simp
qed

subsection \<open>What is used stays\<close>

definition ahead :: "'k \<Rightarrow> ('k \<times> 'v) list \<Rightarrow> 'k set" where
  "ahead k xs = set (takeWhile (\<lambda>j. j \<noteq> k) (map fst xs))"

lemma ahead_simps [simp]:
  "ahead k [] = {}"
  "ahead k (p # xs) = (if k = fst p then {} else insert (fst p) (ahead k xs))"
  by (auto simp: ahead_def)

lemma ahead_without: "j \<noteq> k \<Longrightarrow> ahead k (without j xs) \<subseteq> ahead k xs"
  by (induction xs) (simp_all, blast+)

lemma ahead_append: "k \<in> fst ` set xs \<Longrightarrow> ahead k (xs @ ys) = ahead k xs"
  by (induction xs) (simp_all, metis)

lemma ahead_last: "k \<notin> fst ` set xs \<Longrightarrow> ahead k (xs @ [(k, v)]) = fst ` set xs"
  by (induction xs) simp_all

lemma spec_put_keeps:
  assumes "store_wf cap xs" and "map_of xs k = Some v" and "j \<noteq> k"
    and "card (insert j (ahead k xs)) < cap"
  shows "map_of (spec_put cap life now j r xs) k = Some v \<and>
    ahead k (spec_put cap life now j r xs) \<subseteq> insert j (ahead k xs)"
proof (cases "map_of xs j = None \<and> length xs = cap")
  case False
  then show ?thesis
    using assms(2,3) ahead_without [of j k xs] by (auto simp: spec_put_def)
next
  case True
  then obtain ys z where xs: "xs = ys @ [z]"
    using assms(2) by (cases xs rule: rev_cases) auto
  have k: "k \<in> fst ` set ys"
  proof (rule ccontr)
    assume k: "k \<notin> fst ` set ys"
    then have z: "fst z = k"
      using map_of_in_keys [OF assms(2)] xs by auto
    then have "ahead k xs = fst ` set ys"
      using ahead_last [OF k, of "snd z"] xs by (cases z) simp
    moreover have "card (fst ` set ys) = length ys"
      using assms(1) distinct_card [of "map fst ys"] xs by (simp add: store_wf_def)
    moreover have "j \<notin> fst ` set ys"
      using True xs by (auto simp: map_of_eq_None_iff)
    ultimately show False
      using assms(4) True xs by simp
  qed
  then have "map_of ys k = Some v"
    using assms(2) xs by (auto simp: map_add_def map_of_eq_None_iff split: option.splits)
  then show ?thesis
    using True assms(3) ahead_append [OF k] xs by (auto simp: spec_put_def butlast_append)
qed

lemma spec_get_keeps:
  assumes "map_of xs k = Some v" and "j \<noteq> k"
  shows "map_of (snd (spec_get now j xs)) k = Some v \<and>
    ahead k (snd (spec_get now j xs)) \<subseteq> insert j (ahead k xs)"
  using assms ahead_without [OF assms(2), of xs]
  by (auto simp: spec_get_def split: option.splits prod.splits)

lemma spec_step_keeps:
  assumes "store_wf cap xs" and "map_of xs k = Some v" and "op_key x \<noteq> k"
    and "card (insert (op_key x) (ahead k xs)) < cap"
  shows "map_of (snd (spec_step cap life x xs)) k = Some v \<and>
    ahead k (snd (spec_step cap life x xs)) \<subseteq> insert (op_key x) (ahead k xs)"
  using assms spec_put_keeps spec_get_keeps by (cases x) fastforce+

lemma finite_ahead [simp]: "finite (ahead k xs)"
  by (simp add: ahead_def)

lemma spec_run_keeps:
  assumes "store_wf cap xs" and "map_of xs k = Some v" and "k \<notin> op_key ` set ops"
    and "card (ahead k xs \<union> op_key ` set ops) < cap"
  shows "map_of (snd (spec_run cap life ops xs)) k = Some v"
  using assms
proof (induction ops arbitrary: xs)
  case Nil
  then show ?case by simp
next
  case (Cons x ops)
  let ?ys = "snd (spec_step cap life x xs)"
  have "card (insert (op_key x) (ahead k xs)) \<le> card (ahead k xs \<union> op_key ` set (x # ops))"
    by (rule card_mono) auto
  then have step: "map_of ?ys k = Some v \<and> ahead k ?ys \<subseteq> insert (op_key x) (ahead k xs)"
    using Cons.prems by (intro spec_step_keeps) auto
  then have "card (ahead k ?ys \<union> op_key ` set ops) \<le> card (ahead k xs \<union> op_key ` set (x # ops))"
    by (intro card_mono) auto
  then have "map_of (snd (spec_run cap life ops ?ys)) k = Some v"
    using Cons.prems step by (intro Cons.IH store_wf_step) auto
  then show ?case by simp
qed


section \<open>The LRU store as an interface\<close>

text \<open>
  What the users of the cache rely on: on a well-formed state every call returns, and it acts on the
  contents as the abstract store does. Freshness, provenance and retention follow.
\<close>

locale lru_store =
  fixes get :: "nanos \<Rightarrow> 'k \<Rightarrow> 's \<Rightarrow> ('r option \<times> 's) result"
    and put :: "nanos \<Rightarrow> 'k \<Rightarrow> 'r \<Rightarrow> 's \<Rightarrow> 's result"
    and content :: "'s \<Rightarrow> ('k \<times> 'r \<times> nanos) list"
    and wf :: "'s \<Rightarrow> bool"
    and cap :: "'s \<Rightarrow> nat"
    and life :: "'s \<Rightarrow> nanos"
  assumes get_refines: "wf s \<Longrightarrow> \<exists>s'. get now k s = Inr (fst (spec_get now k (content s)), s') \<and>
      content s' = snd (spec_get now k (content s)) \<and> wf s' \<and> cap s' = cap s \<and> life s' = life s"
    and put_refines: "wf s \<Longrightarrow> \<exists>s'. put now k r s = Inr s' \<and>
      content s' = spec_put (cap s) (life s) now k r (content s) \<and> wf s' \<and> cap s' = cap s \<and> life s' = life s"
    and wf_content: "wf s \<Longrightarrow> 0 < cap s \<and> store_wf (cap s) (content s)"
begin

lemma run_refines:
  assumes "wf s"
  shows "\<exists>s'. store_run get put ops s = Inr (fst (spec_run (cap s) (life s) ops (content s)), s') \<and>
    content s' = snd (spec_run (cap s) (life s) ops (content s)) \<and> wf s' \<and> cap s' = cap s \<and> life s' = life s"
  using assms
proof (induction ops arbitrary: s)
  case Nil
  then show ?case by simp
next
  case (Cons x ops)
  show ?case
  proof (cases x)
    case (Op_get now k)
    obtain s' where s': "get now k s = Inr (fst (spec_get now k (content s)), s')"
        "content s' = snd (spec_get now k (content s))" "wf s'" "cap s' = cap s" "life s' = life s"
      using get_refines [OF Cons.prems] by blast
    show ?thesis
      using Cons.IH [OF s'(3)] s' Op_get by auto
  next
    case (Op_put now k r)
    obtain s' where s': "put now k r s = Inr s'"
        "content s' = spec_put (cap s) (life s) now k r (content s)" "wf s'" "cap s' = cap s" "life s' = life s"
      using put_refines [OF Cons.prems] by blast
    show ?thesis
      using Cons.IH [OF s'(3)] s' Op_put by auto
  qed
qed

lemma run_wf:
  assumes "wf s" and "store_run get put ops s = Inr (rs, s')"
  shows "wf s'"
  using run_refines [OF assms(1), of ops] assms(2) by auto

lemma get_fresh:
  assumes "wf s" and "content s = []" and "store_run get put ops s = Inr (rs, s')"
    and "get now k s' = Inr (Some r, s'')"
  shows "\<exists>t. last_put k ops = Some (r, t) \<and> now < t + life s"
proof -
  have s': "wf s'" "content s' = snd (spec_run (cap s) (life s) ops [])" "life s' = life s"
    using run_refines [OF assms(1), of ops] assms(2,3) by auto
  have "traced (life s) ops (content s')"
    using traced_run [of "life s" "[]" "[]" ops "cap s"] s'(2) by (simp add: traced_def)
  moreover have "fst (spec_get now k (content s')) = Some r"
    using get_refines [OF s'(1), of now k] assms(4) by auto
  then obtain e where "(k, r, e) \<in> set (content s')" and "now < e"
    by (auto simp: spec_get_def dest: map_of_SomeD split: option.splits if_splits)
  ultimately show ?thesis
    unfolding traced_def by (metis diff_add_cancel)
qed

lemma get_after_put:
  assumes "wf s" and "put t k r s = Inr s1" and "store_run get put ops s1 = Inr (rs, s2)"
    and "k \<notin> op_key ` set ops" and "card (op_key ` set ops) < cap s" and "now < t + life s"
  shows "\<exists>s3. get now k s2 = Inr (Some r, s3)"
proof -
  have s1: "wf s1" "content s1 = spec_put (cap s) (life s) t k r (content s)" "cap s1 = cap s" "life s1 = life s"
    using put_refines [OF assms(1), of t k r] assms(2) by auto
  then have k: "map_of (content s1) k = Some (r, t + life s)" and "ahead k (content s1) = {}"
    by (simp_all add: spec_put_def)
  then have "map_of (snd (spec_run (cap s1) (life s1) ops (content s1))) k = Some (r, t + life s)"
    using assms(4,5) wf_content [OF s1(1)] s1(3) by (intro spec_run_keeps) auto
  moreover have s2: "wf s2" "content s2 = snd (spec_run (cap s1) (life s1) ops (content s1))"
    using run_refines [OF s1(1), of ops] assms(3) by auto
  ultimately have "fst (spec_get now k (content s2)) = Some r"
    using assms(6) by (simp add: spec_get_def)
  then show ?thesis
    using get_refines [OF s2(1), of now k] by auto
qed

end

section \<open>The cache implements the store\<close>

lemma node_unique:
  assumes "distinct (map fst l)" and "distinct (map snd l)" and "(n, k) \<in> set l"
  shows "filter (\<lambda>(m, _). m \<noteq> n) l = filter (\<lambda>(_, j). j \<noteq> k) l"
proof (rule filter_cong [OF refl])
  fix p assume p: "p \<in> set l"
  have "inj_on fst (set l)" and "inj_on snd (set l)"
    using assms(1,2) by (simp_all add: distinct_map)
  then show "(case p of (m, _) \<Rightarrow> m \<noteq> n) = (case p of (_, j) \<Rightarrow> j \<noteq> k)"
    using p assms(3) by (force simp: inj_on_def)
qed

lemma node_front:
  assumes "distinct (map snd l)" and "(n, k) \<in> set l"
  shows "set ((n, k) # filter (\<lambda>(_, j). j \<noteq> k) l) = set l"
proof -
  have "inj_on snd (set l)"
    using assms(1) by (simp add: distinct_map)
  then show ?thesis
    using assms(2) by (force simp: inj_on_def)
qed

lemma cache_node:
  assumes "cache_wf c" and "um_find k (entries c) = Some e"
  shows "(lru_position e, k) \<in> set (lru c)" and "map_of (lru c) (lru_position e) = Some k"
    and "filter (\<lambda>(n, _). n \<noteq> lru_position e) (lru c) = filter (\<lambda>(_, j). j \<noteq> k) (lru c)"
  using assms node_unique [of "lru c" "lru_position e" k] by (auto simp: cache_wf_def)

lemma contents_without:
  "map (\<lambda>(n, j). (j, f j)) (filter (\<lambda>(_, j). j \<noteq> k) l) =
   without k (map (\<lambda>(n, j). (j, f j)) l)"
  by (induction l) auto

lemma map_of_nodes:
  "map_of (map (\<lambda>(n, j). (j, f j)) l) k = (if k \<in> snd ` set l then Some (f k) else None)"
  by (induction l) (simp_all add: case_prod_beta)

lemma map_of_contents:
  assumes "cache_wf c"
  shows "map_of (contents c) k = map_option (\<lambda>e. (entry_response e, expires_at e)) (um_find k (entries c))"
proof -
  have "map_of (contents c) k = (if k \<in> snd ` set (lru c) then Some (entry_value c k) else None)"
    by (simp add: contents_def map_of_nodes)
  also have "k \<in> snd ` set (lru c) \<longleftrightarrow> um_find k (entries c) \<noteq> None"
    using assms by (simp add: cache_wf_def um_find_None_iff)
  finally show ?thesis
    by (auto simp: entry_value_def split: option.splits)
qed

lemma keys_contents: "map fst (contents c) = map snd (lru c)"
  by (simp add: contents_def comp_def case_prod_beta)

lemma length_entries_lru:
  assumes "cache_wf c"
  shows "um_size (entries c) = length (lru c)"
proof -
  have "card (snd ` set (lru c)) = length (lru c)" and "card (fst ` set (entries c)) = length (entries c)"
    using assms distinct_card [of "map snd (lru c)"] distinct_card [of "map fst (entries c)"]
    by (simp_all add: cache_wf_def um_wf_def)
  then show ?thesis
    using assms by (simp add: cache_wf_def um_size_def)
qed


subsection \<open>Each update of the state keeps it well-formed\<close>

lemma butlast_filter:
  "distinct (map snd l) \<Longrightarrow> l \<noteq> [] \<Longrightarrow> butlast l = filter (\<lambda>(_, j). j \<noteq> snd (last l)) l"
  by (cases l rule: rev_cases) (force intro!: filter_True [symmetric])+

lemma cache_wf_remove [invariants]:
  assumes "cache_wf c"
  shows "cache_wf (c\<lparr>lru := filter (\<lambda>(_, j). j \<noteq> k) (lru c), entries := um_erase k (entries c)\<rparr>)"
proof -
  have "um_size (um_erase k (entries c)) \<le> um_size (entries c)"
    by (simp add: um_size_def um_erase_def)
  moreover have "snd ` set (filter (\<lambda>(_, j). j \<noteq> k) (lru c)) = snd ` set (lru c) - {k}"
    by force
  moreover have "fst ` set (um_erase k (entries c)) = fst ` set (entries c) - {k}"
    by (force simp: um_erase_def)
  ultimately show ?thesis
    using assms by (auto simp: cache_wf_def distinct_map_filter)
qed

lemma cache_wf_front [invariants]:
  assumes "cache_wf c" and "(n, k) \<in> set (lru c)"
  shows "cache_wf (c\<lparr>lru := (n, k) # filter (\<lambda>(_, j). j \<noteq> k) (lru c)\<rparr>)"
proof -
  have "set ((n, k) # filter (\<lambda>(_, j). j \<noteq> k) (lru c)) = set (lru c)"
    using assms by (intro node_front) (simp_all add: cache_wf_def)
  moreover have "distinct (map fst ((n, k) # filter (\<lambda>(_, j). j \<noteq> k) (lru c)))"
    using node_unique [of "lru c" n k, symmetric] assms by (auto simp: cache_wf_def distinct_map_filter)
  moreover have "distinct (map snd ((n, k) # filter (\<lambda>(_, j). j \<noteq> k) (lru c)))"
    using assms by (auto simp: cache_wf_def distinct_map_filter)
  ultimately show ?thesis
    using assms(1) unfolding cache_wf_def by simp
qed

lemma cache_wf_assign [invariants]:
  assumes "cache_wf c" and "um_find k (entries c) = Some e" and "lru_position e' = lru_position e"
  shows "cache_wf (c\<lparr>entries := um_assign k e' (entries c)\<rparr>)"
proof -
  have "fst ` set (um_assign k e' (entries c)) = fst ` set (entries c)"
    by (metis fst_um_assign set_map)
  then show ?thesis
    using assms by (auto simp: cache_wf_def um_size_def um_assign_def [THEN arg_cong, of length])
qed

lemma cache_wf_push [invariants]:
  assumes "cache_wf c" and "um_find k (entries c) = None"
    and "um_size (entries c) < capacity (options c)" and "lru_position e = next_node c"
  shows "cache_wf (c\<lparr>lru := (next_node c, k) # lru c, entries := um_emplace k e (entries c),
    next_node := Suc (next_node c)\<rparr>)"
proof -
  have "k \<notin> snd ` set (lru c)"
    using assms(1,2) by (simp add: cache_wf_def um_find_None_iff)
  moreover have "fst ` set (um_emplace k e (entries c)) = insert k (fst ` set (entries c))"
    using assms(2) by (simp add: um_emplace_def)
  ultimately show ?thesis
    using assms by (auto simp: cache_wf_def um.size_emplace less_Suc_eq)
qed

subsection \<open>Refinement\<close>

lemma entry_value_erase: "j \<noteq> k \<Longrightarrow> entry_value (c\<lparr>lru := l, entries := um_erase k (entries c)\<rparr>) j = entry_value c j"
  by (simp add: entry_value_def)

lemma contents_remove:
  "contents (c\<lparr>lru := filter (\<lambda>(_, j). j \<noteq> k) (lru c), entries := um_erase k (entries c)\<rparr>) =
   without k (contents c)"
  by (auto simp: contents_def entry_value_erase simp flip: contents_without)

lemma entry_value_lru [simp]: "entry_value (c\<lparr>lru := l\<rparr>) = entry_value c"
  by (simp add: entry_value_def fun_eq_iff)

lemma contents_front:
  "contents (c\<lparr>lru := (n, k) # filter (\<lambda>(_, j). j \<noteq> k) (lru c)\<rparr>) =
   (k, entry_value c k) # without k (contents c)"
  by (simp add: contents_def flip: contents_without)

lemma cache_get_refines:
  assumes "cache_wf c"
  shows "\<exists>c'. cache_get now k c = Inr (fst (spec_get now k (contents c)), c') \<and>
    contents c' = snd (spec_get now k (contents c)) \<and> cache_wf c' \<and> options c' = options c"
proof (cases "um_find k (entries c)")
  case None
  then show ?thesis
    using assms by (simp add: cache_get_def spec_get_def map_of_contents)
next
  case (Some e)
  note node = cache_node [OF assms Some]
  have val: "map_of (contents c) k = Some (entry_response e, expires_at e)"
    using assms Some by (simp add: map_of_contents)
  show ?thesis
  proof (cases "now < expires_at e")
    case True
    then show ?thesis
      using Some val node cache_wf_front [OF assms node(1)]
      by (simp add: cache_get_def spec_get_def list_splice_front_def contents_front entry_value_def)
  next
    case False
    then show ?thesis
      using Some val node cache_wf_remove [OF assms, of k]
      by (simp add: cache_get_def spec_get_def list_erase_def contents_remove)
  qed
qed


lemma without_last: "distinct (map fst xs) \<Longrightarrow> xs \<noteq> [] \<Longrightarrow> without (fst (last xs)) xs = butlast xs"
  by (cases xs rule: rev_cases) (auto simp: without_def intro!: filter_True, force)

lemma length_contents: "cache_wf c \<Longrightarrow> length (contents c) = um_size (entries c)"
  by (simp add: contents_def length_entries_lru)

lemma cache_evict_refines:
  assumes "cache_wf c" and "um_find k (entries c) = None"
  shows "\<exists>c'. cache_evict c = Inr c' \<and> cache_wf c' \<and> options c' = options c \<and>
    um_find k (entries c') = None \<and> um_size (entries c') < capacity (options c) \<and>
    contents c' = (if length (contents c) = capacity (options c) then butlast (contents c) else contents c)"
proof (cases "um_size (entries c) = capacity (options c)")
  case False
  then show ?thesis
    using assms by (simp add: cache_evict_def length_contents cache_wf_def)
next
  case True
  have ne: "lru c \<noteq> []"
    using assms(1) True length_entries_lru [OF assms(1)] by (auto simp: cache_wf_def)
  define j where "j = snd (last (lru c))"
  define c' where "c' = c\<lparr>lru := filter (\<lambda>(_, i). i \<noteq> j) (lru c), entries := um_erase j (entries c)\<rparr>"
  have "butlast (lru c) = filter (\<lambda>(_, i). i \<noteq> j) (lru c)"
    using assms(1) ne unfolding j_def by (intro butlast_filter) (simp_all add: cache_wf_def)
  then have evict: "cache_evict c = Inr c'"
    using True ne by (simp add: cache_evict_def list_back_def c'_def j_def)
  have "j \<in> fst ` set (entries c)"
    using assms(1) ne by (auto simp: j_def cache_wf_def)
  then have size: "um_size (entries c') < capacity (options c)"
    using assms(1) True um.size_erase [of "entries c" j]
    by (auto simp: c'_def cache_wf_def um_find_None_iff)
  have "fst (last (contents c)) = j"
    using ne by (simp add: j_def contents_def last_map case_prod_beta)
  moreover have "distinct (map fst (contents c))" and "contents c \<noteq> []"
    using ne assms(1) by (simp_all add: keys_contents cache_wf_def) (simp add: contents_def)
  ultimately have "contents c' = butlast (contents c)"
    using without_last [of "contents c"] by (simp add: c'_def contents_remove)
  then show ?thesis
    using evict size assms True cache_wf_remove [OF assms(1), of j]
    by (auto simp: c'_def length_contents)
qed

lemma contents_push:
  assumes "cache_wf c" and "um_find k (entries c) = None"
  shows "contents (c\<lparr>lru := (n, k) # lru c, entries := um_emplace k e (entries c), next_node := m\<rparr>) =
    (k, entry_response e, expires_at e) # contents c"
proof -
  have "k \<notin> snd ` set (lru c)"
    using assms by (simp add: cache_wf_def um_find_None_iff)
  then have "j \<noteq> k" if "(i, j) \<in> set (lru c)" for i j
    using that by force
  then show ?thesis
    using assms(2) by (auto simp: contents_def entry_value_def)
qed

lemma contents_assign:
  assumes "um_find k (entries c) = Some e"
  shows "contents (c\<lparr>entries := um_assign k e' (entries c), lru := (n, k) # filter (\<lambda>(_, j). j \<noteq> k) (lru c)\<rparr>) =
    (k, entry_response e', expires_at e') # without k (contents c)"
proof -
  have "entry_value (c\<lparr>entries := um_assign k e' (entries c), lru := l\<rparr>) j =
      (if j = k then (entry_response e', expires_at e') else entry_value c j)" for j l
    using assms by (simp add: entry_value_def)
  then show ?thesis
    by (auto simp: contents_def simp flip: contents_without)
qed

lemma cache_put_refines:
  assumes "cache_wf c"
  shows "\<exists>c'. cache_put now k r c = Inr c' \<and>
    contents c' = spec_put (capacity (options c)) (ms (ttl (options c))) now k r (contents c) \<and>
    cache_wf c' \<and> options c' = options c"
proof (cases "um_find k (entries c)")
  case None
  obtain c1 where c1: "cache_evict c = Inr c1" "cache_wf c1" "options c1 = options c"
      "um_find k (entries c1) = None" "um_size (entries c1) < capacity (options c)"
      "contents c1 = (if length (contents c) = capacity (options c) then butlast (contents c) else contents c)"
    using cache_evict_refines [OF assms None] by blast
  have "map_of (contents c) k = None"
    using assms None by (simp add: map_of_contents)
  moreover from this have "without k (contents c) = contents c"
    by (simp add: map_of_eq_None_iff)
  ultimately show ?thesis
    using None c1 by (simp add: cache_put_def Let_def cache_wf_push contents_push spec_put_def)
next
  case (Some e)
  note node = cache_node [OF assms Some]
  let ?e = "e\<lparr>entry_response := r, expires_at := now + ms (ttl (options c))\<rparr>"
  have "cache_wf (c\<lparr>entries := um_assign k ?e (entries c), lru := (lru_position e, k) # filter (\<lambda>(_, j). j \<noteq> k) (lru c)\<rparr>)"
    using cache_wf_front [OF cache_wf_assign [OF assms Some, of ?e], of "lru_position e" k] node(1) by simp
  then show ?thesis
    using Some assms node
    by (simp add: cache_put_def Let_def list_splice_front_def contents_assign [OF Some] spec_put_def map_of_contents)
qed

interpretation cache: lru_store cache_get cache_put contents cache_wf
  "\<lambda>c. capacity (options c)" "\<lambda>c. ms (ttl (options c))"
proof
  show "\<exists>c'. cache_get now k c = Inr (fst (spec_get now k (contents c)), c') \<and>
      contents c' = snd (spec_get now k (contents c)) \<and> cache_wf c' \<and>
      capacity (options c') = capacity (options c) \<and> ms (ttl (options c')) = ms (ttl (options c))"
    if "cache_wf c" for c :: "'a ResponseCache" and now k
    using cache_get_refines [OF that, of now k] by auto
  show "\<exists>c'. cache_put now k r c = Inr c' \<and>
      contents c' = spec_put (capacity (options c)) (ms (ttl (options c))) now k r (contents c) \<and> cache_wf c' \<and>
      capacity (options c') = capacity (options c) \<and> ms (ttl (options c')) = ms (ttl (options c))"
    if "cache_wf c" for c :: "'a ResponseCache" and now k r
    using cache_put_refines [OF that, of now k r] by auto
  show "0 < capacity (options c) \<and> store_wf (capacity (options c)) (contents c)"
    if "cache_wf c" for c :: "'a ResponseCache"
    using that length_contents [OF that] by (simp add: cache_wf_def store_wf_def keys_contents)
qed

lemma cache_wf_new [invariants]:
  "ResponseCache_new opts = Inr c \<Longrightarrow> cache_wf c \<and> contents c = [] \<and> options c = opts"
  by (auto simp: ResponseCache_new_def cache_wf_def contents_def um_size_def split: if_splits)


section \<open>Properties\<close>

text \<open>C7. The cache implements the abstract LRU store: from a newly constructed cache every sequence of
  \<^verbatim>\<open>get\<close> and \<^verbatim>\<open>put\<close> calls runs to its end with no exception and no use of an invalid iterator, gives
  the results of the abstract store and leaves its contents, and never holds more than
  \<^verbatim>\<open>capacity\<close> entries.\<close>

theorem cache_implements_lru:
  assumes "ResponseCache_new opts = Inr c"
  shows "\<exists>c'. store_run cache_get cache_put ops c =
      Inr (fst (spec_run (capacity opts) (ms (ttl opts)) ops []), c') \<and>
    contents c' = snd (spec_run (capacity opts) (ms (ttl opts)) ops []) \<and>
    cache_wf c' \<and> cache_size c' \<le> capacity opts"
proof -
  have c: "cache_wf c" "contents c = []" "options c = opts"
    using cache_wf_new [OF assms] by auto
  obtain c' where "store_run cache_get cache_put ops c =
      Inr (fst (spec_run (capacity opts) (ms (ttl opts)) ops []), c')"
    "contents c' = snd (spec_run (capacity opts) (ms (ttl opts)) ops [])"
    "cache_wf c'" "capacity (options c') = capacity opts"
    using cache.run_refines [OF c(1), of ops] c(2,3) by auto
  then show ?thesis
    by (auto simp: cache_wf_def cache_size_def)
qed

theorem cache_implements_lru_witness:
  "\<exists>c'. store_run cache_get cache_put [Op_put 0 ''A'' (1::nat), Op_put 0 ''B'' 2, Op_get 5 ''A'', Op_put 6 ''C'' 3, Op_get 7 ''B'']
      \<lparr>options = \<lparr>capacity = 2, ttl = 1\<rparr>, lru = [], entries = [], next_node = 0\<rparr> = Inr ([Some 1, None], c') \<and>
    cache_size c' \<le> 2"
proof -
  have new: "ResponseCache_new \<lparr>capacity = 2, ttl = 1\<rparr> =
      Inr \<lparr>options = \<lparr>capacity = 2, ttl = 1\<rparr>, lru = [], entries = [], next_node = 0\<rparr>"
    by (simp add: ResponseCache_new_def)
  show ?thesis
    using cache_implements_lru [OF new, of "[Op_put 0 ''A'' (1::nat), Op_put 0 ''B'' 2, Op_get 5 ''A'', Op_put 6 ''C'' 3, Op_get 7 ''B'']"]
    by (auto simp: spec_get_def spec_put_def ms_def)
qed

text \<open>C13. No stale answer: a response that \<^verbatim>\<open>get\<close> returns for a key is the one stored by the last
  \<^verbatim>\<open>put\<close> for that key, and less than the time to live has passed since.\<close>

theorem cache_get_fresh:
  assumes "ResponseCache_new opts = Inr c"
    and "store_run cache_get cache_put ops c = Inr (rs, c')"
    and "cache_get now k c' = Inr (Some r, c'')"
  shows "\<exists>t. last_put k ops = Some (r, t) \<and> now < t + ms (ttl opts)"
  using cache.get_fresh [of c ops rs c' now k r c''] cache_wf_new [OF assms(1)] assms(2,3) by auto

theorem cache_get_fresh_witness:
  "\<exists>t. last_put ''A'' [Op_put 0 ''A'' (1::nat), Op_put 3 ''A'' 2] = Some (2, t) \<and> 1000002 < t + ms 1"
proof -
  let ?c = "\<lparr>options = \<lparr>capacity = 2, ttl = 1\<rparr>, lru = [], entries = [], next_node = 0\<rparr> :: nat ResponseCache"
  let ?e = "\<lparr>entry_response = 2, expires_at = 1000003, lru_position = 0\<rparr> :: nat Entry"
  let ?c' = "\<lparr>options = \<lparr>capacity = 2, ttl = 1\<rparr>, lru = [(0, ''A'')], entries = [(''A'', ?e)], next_node = 1\<rparr>"
  have new: "ResponseCache_new \<lparr>capacity = 2, ttl = 1\<rparr> = Inr ?c"
    by (simp add: ResponseCache_new_def)
  have run: "store_run cache_get cache_put [Op_put 0 ''A'' (1::nat), Op_put 3 ''A'' 2] ?c = Inr ([], ?c')"
    by (simp add: cache_put_def Let_def cache_evict_def um_find_Cons um_size_def um_emplace_def
        um_assign_def list_splice_front_def ms_def)
  have get: "cache_get 1000002 ''A'' ?c' = Inr (Some 2, ?c')"
    by (simp add: cache_get_def um_find_Cons list_splice_front_def)
  from cache_get_fresh [OF new run get] show ?thesis by simp
qed

text \<open>C14. No premature loss: a stored response is still returned before its time to live is over as long
  as the calls since then used fewer other keys than the cache has room for.\<close>

theorem cache_retains_recent:
  assumes "cache_wf c" and "cache_put t k r c = Inr c1"
    and "store_run cache_get cache_put ops c1 = Inr (rs, c2)"
    and "k \<notin> op_key ` set ops" and "card (op_key ` set ops) < capacity (options c)"
    and "now < t + ms (ttl (options c))"
  shows "\<exists>c3. cache_get now k c2 = Inr (Some r, c3)"
  using assms by (rule cache.get_after_put)

theorem cache_retains_recent_witness:
  "\<exists>c1 c2 c3. cache_put 0 ''A'' (1::nat)
      \<lparr>options = \<lparr>capacity = 2, ttl = 1\<rparr>, lru = [], entries = [], next_node = 0\<rparr> = Inr c1 \<and>
    store_run cache_get cache_put [Op_put 1 ''B'' 7, Op_get 2 ''B''] c1 = Inr ([Some 7], c2) \<and>
    cache_get 3 ''A'' c2 = Inr (Some 1, c3)"
proof -
  let ?c = "\<lparr>options = \<lparr>capacity = 2, ttl = 1\<rparr>, lru = [], entries = [], next_node = 0\<rparr> :: nat ResponseCache"
  have wf: "cache_wf ?c"
    by (simp add: cache_wf_def um_size_def)
  obtain c1 where c1: "cache_put 0 ''A'' 1 ?c = Inr c1" "cache_wf c1" "options c1 = options ?c"
      "contents c1 = [(''A'', 1, 1000000)]"
    using cache_put_refines [OF wf, of 0 "''A''" 1] by (auto simp: spec_put_def contents_def ms_def)
  then obtain c2 where c2: "store_run cache_get cache_put [Op_put 1 ''B'' 7, Op_get 2 ''B''] c1 = Inr ([Some 7], c2)"
    using cache.run_refines [OF c1(2), of "[Op_put 1 ''B'' 7, Op_get 2 ''B'']"]
    by (auto simp: spec_put_def spec_get_def ms_def)
  then show ?thesis
    using c1(1) cache_retains_recent [OF wf c1(1) c2, of 3] by (auto simp: ms_def)
qed

text \<open>C15. A \<^verbatim>\<open>put\<close> of a new key into a full cache evicts exactly the least recently used key: every
  other key keeps its response and expiry, and the new key has the new ones.\<close>

theorem cache_put_evicts_lru:
  assumes "cache_wf c" and "um_find k (entries c) = None" and "cache_size c = capacity (options c)"
  shows "\<exists>c'. cache_put now k r c = Inr c' \<and> cache_size c' = cache_size c \<and>
    map_of (contents c') = (map_of (contents c))
      (fst (last (contents c)) := None, k \<mapsto> (r, now + ms (ttl (options c))))"
proof -
  obtain c' where c': "cache_put now k r c = Inr c'" "cache_wf c'"
      "contents c' = spec_put (capacity (options c)) (ms (ttl (options c))) now k r (contents c)"
    using cache_put_refines [OF assms(1), of now k r] by blast
  have len: "length (contents c) = capacity (options c)"
    using assms(1,3) by (simp add: length_contents cache_size_def)
  moreover have "map_of (contents c) k = None"
    using assms(1,2) by (simp add: map_of_contents)
  ultimately have new: "contents c' = (k, r, now + ms (ttl (options c))) # butlast (contents c)"
    using c'(3) by (simp add: spec_put_def)
  have ne: "contents c \<noteq> []" and "distinct (map fst (contents c))"
    using assms(1) len by (auto simp: cache_wf_def keys_contents)
  then have "map_of (butlast (contents c)) = (map_of (contents c)) (fst (last (contents c)) := None)"
    by (simp add: without_last [symmetric] fun_eq_iff)
  moreover have "cache_size c' = cache_size c"
    using length_contents [OF c'(2)] new len ne assms(3) by (cases "contents c" rule: rev_cases) (simp_all add: cache_size_def)
  ultimately show ?thesis
    using c'(1) new by simp
qed

theorem cache_put_evicts_lru_witness:
  "\<exists>c'. cache_put 0 ''C'' (3::nat)
      \<lparr>options = \<lparr>capacity = 1, ttl = 1\<rparr>, lru = [(0, ''A'')],
       entries = [(''A'', \<lparr>entry_response = 1, expires_at = 9, lru_position = 0\<rparr>)], next_node = 1\<rparr> = Inr c' \<and>
    map_of (contents c') ''A'' = None \<and> map_of (contents c') ''C'' = Some (3, 1000000)"
proof -
  let ?c = "\<lparr>options = \<lparr>capacity = 1, ttl = 1\<rparr>, lru = [(0, ''A'')],
       entries = [(''A'', \<lparr>entry_response = 1::nat, expires_at = 9, lru_position = 0\<rparr>)], next_node = 1\<rparr>"
  have "cache_wf ?c"
    by (auto simp: cache_wf_def um_size_def um_wf_def um_find_Cons split: if_splits)
  then show ?thesis
    using cache_put_evicts_lru [of ?c "''C''" 0 3]
    by (auto simp: um_find_Cons cache_size_def um_size_def contents_def ms_def)
qed

end
