(* ===== verification/Request_Coalescer.thy ===== *)
theory Request_Coalescer
  imports Prelude
begin

text \<open>
  \<^verbatim>\<open>include/eventedge/request_coalescer.hpp\<close> and \<^verbatim>\<open>src/request_coalescer.cpp\<close>: simultaneous misses for
  one key form a flight; the first caller leads it, the others leave a callback. A waiter is an
  abstract value standing for its (non-empty) \<^verbatim>\<open>std::function\<close>; \<open>complete\<close> returns the calls it
  makes, which the code makes after it has released the mutex, so the mutex-protected part of each
  method is one atomic step.
\<close>

section \<open>State and operations\<close>

datatype Role = Leader | Waiter

record 'w RequestCoalescer =
  flights :: "(string, 'w list) unordered_map"

definition RequestCoalescer_new :: "'w RequestCoalescer" where
  "RequestCoalescer_new = \<lparr>flights = []\<rparr>"

definition join_or_start :: "string \<Rightarrow> 'w \<Rightarrow> 'w RequestCoalescer \<Rightarrow> Role \<times> 'w RequestCoalescer" where
  "join_or_start key w c =
     (let inserted = (um_find key (flights c) = None);
          c' = c\<lparr>flights := um_emplace key [] (flights c)\<rparr>
      in if inserted then (Leader, c')
         else case um_find key (flights c') of
                Some ws \<Rightarrow> (Waiter, c'\<lparr>flights := um_assign key (ws @ [w]) (flights c')\<rparr>))"

definition complete :: "string \<Rightarrow> 'r \<Rightarrow> 'w RequestCoalescer \<Rightarrow> ('w \<times> 'r) list \<times> 'w RequestCoalescer" where
  "complete key response c =
     (case um_find key (flights c) of
        None \<Rightarrow> ([], c)
      | Some waiters \<Rightarrow>
          (map (\<lambda>w. (w, response)) waiters, c\<lparr>flights := um_erase key (flights c)\<rparr>))"

definition coalescer_size :: "'w RequestCoalescer \<Rightarrow> nat" where
  "coalescer_size c = um_size (flights c)"

definition waiter_count :: "string \<Rightarrow> 'w RequestCoalescer \<Rightarrow> nat" where
  "waiter_count key c = (case um_find key (flights c) of None \<Rightarrow> 0 | Some ws \<Rightarrow> length ws)"

definition pending :: "'w RequestCoalescer \<Rightarrow> string \<Rightarrow> 'w list option" where
  "pending c key = um_find key (flights c)"

definition coalescer_wf :: "'w RequestCoalescer \<Rightarrow> bool" where
  "coalescer_wf c \<longleftrightarrow> um_wf (flights c)"

section \<open>Runs and their logs\<close>

datatype ('k, 'w, 'r) flight_op = Op_join 'k 'w | Op_complete 'k 'r

datatype ('k, 'w, 'r) flight_event = Led 'k 'w | Parked 'k 'w | Finished 'k | Answered 'k 'w 'r

fun flight_step ::
    "('k \<Rightarrow> 'w \<Rightarrow> 's \<Rightarrow> Role \<times> 's) \<Rightarrow> ('k \<Rightarrow> 'r \<Rightarrow> 's \<Rightarrow> ('w \<times> 'r) list \<times> 's) \<Rightarrow> ('s \<Rightarrow> 'k \<Rightarrow> 'w list option) \<Rightarrow>
     ('k, 'w, 'r) flight_op \<Rightarrow> 's \<Rightarrow> ('k, 'w, 'r) flight_event list \<times> 's" where
  "flight_step join finish pend (Op_join k w) s =
     ([case fst (join k w s) of Leader \<Rightarrow> Led k w | Waiter \<Rightarrow> Parked k w], snd (join k w s))"
| "flight_step join finish pend (Op_complete k r) s =
     ((if pend s k = None then [] else [Finished k]) @ map (\<lambda>(w, r). Answered k w r) (fst (finish k r s)),
      snd (finish k r s))"

primrec flight_run ::
    "('k \<Rightarrow> 'w \<Rightarrow> 's \<Rightarrow> Role \<times> 's) \<Rightarrow> ('k \<Rightarrow> 'r \<Rightarrow> 's \<Rightarrow> ('w \<times> 'r) list \<times> 's) \<Rightarrow> ('s \<Rightarrow> 'k \<Rightarrow> 'w list option) \<Rightarrow>
     ('k, 'w, 'r) flight_op list \<Rightarrow> 's \<Rightarrow> ('k, 'w, 'r) flight_event list \<times> 's" where
  "flight_run join finish pend [] s = ([], s)"
| "flight_run join finish pend (x # xs) s =
     (fst (flight_step join finish pend x s) @
        fst (flight_run join finish pend xs (snd (flight_step join finish pend x s))),
      snd (flight_run join finish pend xs (snd (flight_step join finish pend x s))))"

text \<open>The parts of a log that concern one key.\<close>

fun led_on :: "'k \<Rightarrow> ('k, 'w, 'r) flight_event list \<Rightarrow> nat" where
  "led_on k [] = 0"
| "led_on k (Led j w # es) = (if j = k then Suc (led_on k es) else led_on k es)"
| "led_on k (_ # es) = led_on k es"

fun finished_on :: "'k \<Rightarrow> ('k, 'w, 'r) flight_event list \<Rightarrow> nat" where
  "finished_on k [] = 0"
| "finished_on k (Finished j # es) = (if j = k then Suc (finished_on k es) else finished_on k es)"
| "finished_on k (_ # es) = finished_on k es"

fun parked_on :: "'k \<Rightarrow> ('k, 'w, 'r) flight_event list \<Rightarrow> 'w list" where
  "parked_on k [] = []"
| "parked_on k (Parked j w # es) = (if j = k then w # parked_on k es else parked_on k es)"
| "parked_on k (_ # es) = parked_on k es"

fun answered_on :: "'k \<Rightarrow> ('k, 'w, 'r) flight_event list \<Rightarrow> ('w \<times> 'r) list" where
  "answered_on k [] = []"
| "answered_on k (Answered j w r # es) = (if j = k then (w, r) # answered_on k es else answered_on k es)"
| "answered_on k (_ # es) = answered_on k es"

fun joins_on :: "'k \<Rightarrow> ('k, 'w, 'r) flight_op list \<Rightarrow> 'w list" where
  "joins_on k [] = []"
| "joins_on k (Op_join j w # xs) = (if j = k then w # joins_on k xs else joins_on k xs)"
| "joins_on k (Op_complete j r # xs) = joins_on k xs"

section \<open>Single flight as an interface\<close>

lemma log_Cons:
  "led_on k (e # es) = led_on k [e] + led_on k es"
  "finished_on k (e # es) = finished_on k [e] + finished_on k es"
  "parked_on k (e # es) = parked_on k [e] @ parked_on k es"
  "answered_on k (e # es) = answered_on k [e] @ answered_on k es"
  by (cases e; simp)+

lemma log_append [simp]:
  "led_on k (es @ fs) = led_on k es + led_on k fs"
  "finished_on k (es @ fs) = finished_on k es + finished_on k fs"
  "parked_on k (es @ fs) = parked_on k es @ parked_on k fs"
  "answered_on k (es @ fs) = answered_on k es @ answered_on k fs"
  by (induction es) (simp_all, (subst log_Cons, subst (2) log_Cons, simp)+)

lemma log_answers [simp]:
  "led_on k (map (\<lambda>w. Answered j w r) ws) = 0"
  "finished_on k (map (\<lambda>w. Answered j w r) ws) = 0"
  "parked_on k (map (\<lambda>w. Answered j w r) ws) = []"
  "answered_on k (map (\<lambda>w. Answered j w r) ws) = (if j = k then map (\<lambda>w. (w, r)) ws else [])"
  by (induction ws) auto

locale single_flight =
  fixes join :: "'k \<Rightarrow> 'w \<Rightarrow> 's \<Rightarrow> Role \<times> 's"
    and finish :: "'k \<Rightarrow> 'r \<Rightarrow> 's \<Rightarrow> ('w \<times> 'r) list \<times> 's"
    and pend :: "'s \<Rightarrow> 'k \<Rightarrow> 'w list option"
  assumes join_leads: "pend s k = None \<Longrightarrow>
      fst (join k w s) = Leader \<and> pend (snd (join k w s)) = (pend s)(k \<mapsto> [])"
    and join_waits: "pend s k = Some ws \<Longrightarrow>
      fst (join k w s) = Waiter \<and> pend (snd (join k w s)) = (pend s)(k \<mapsto> ws @ [w])"
    and finish_none: "pend s k = None \<Longrightarrow> finish k r s = ([], s)"
    and finish_flight: "pend s k = Some ws \<Longrightarrow>
      fst (finish k r s) = map (\<lambda>w. (w, r)) ws \<and> pend (snd (finish k r s)) = (pend s)(k := None)"
begin

abbreviation run :: "('k, 'w, 'r) flight_op list \<Rightarrow> 's \<Rightarrow> ('k, 'w, 'r) flight_event list \<times> 's" where
  "run \<equiv> flight_run join finish pend"

lemma step_balance:
  fixes x :: "('k, 'w, 'r) flight_op" and k :: 'k and s :: 's
  defines "es \<equiv> fst (flight_step join finish pend x s)" and "s' \<equiv> snd (flight_step join finish pend x s)"
  shows "led_on k es + (if pend s k = None then 0 else 1) =
      finished_on k es + (if pend s' k = None then 0 else 1)"
    and "(case pend s k of None \<Rightarrow> [] | Some ws \<Rightarrow> ws) @ parked_on k es =
      map fst (answered_on k es) @ (case pend s' k of None \<Rightarrow> [] | Some ws \<Rightarrow> ws)"
proof -
  have "led_on k es + (if pend s k = None then 0 else 1) =
      finished_on k es + (if pend s' k = None then 0 else 1) \<and>
      (case pend s k of None \<Rightarrow> [] | Some ws \<Rightarrow> ws) @ parked_on k es =
      map fst (answered_on k es) @ (case pend s' k of None \<Rightarrow> [] | Some ws \<Rightarrow> ws)"
  proof (cases x)
    case (Op_join j w)
    then show ?thesis
      using join_leads [of s j w] join_waits [of s j _ w]
      by (cases "pend s j") (auto simp: es_def s'_def split: option.splits)
  next
    case (Op_complete j r)
    then show ?thesis
      using finish_none [of s j r] finish_flight [of s j _ r]
      by (cases "pend s j") (auto simp: es_def s'_def comp_def split: option.splits)
  qed
  then show "led_on k es + (if pend s k = None then 0 else 1) =
      finished_on k es + (if pend s' k = None then 0 else 1)"
    and "(case pend s k of None \<Rightarrow> [] | Some ws \<Rightarrow> ws) @ parked_on k es =
      map fst (answered_on k es) @ (case pend s' k of None \<Rightarrow> [] | Some ws \<Rightarrow> ws)"
    by simp_all
qed

lemma leaders_balance:
  "led_on k (fst (run xs s)) + (if pend s k = None then 0 else 1) =
   finished_on k (fst (run xs s)) + (if pend (snd (run xs s)) k = None then 0 else 1)"
proof (induction xs arbitrary: s)
  case Nil
  then show ?case by simp
next
  case (Cons x xs)
  show ?case
    using step_balance(1) [of k x s] Cons.IH [of "snd (flight_step join finish pend x s)"] by simp
qed

lemma waiters_balance:
  "(case pend s k of None \<Rightarrow> [] | Some ws \<Rightarrow> ws) @ parked_on k (fst (run xs s)) =
   map fst (answered_on k (fst (run xs s))) @ (case pend (snd (run xs s)) k of None \<Rightarrow> [] | Some ws \<Rightarrow> ws)"
proof (induction xs arbitrary: s)
  case Nil
  then show ?case by simp
next
  case (Cons x xs)
  let ?s = "snd (flight_step join finish pend x s)"
  have "(case pend s k of None \<Rightarrow> [] | Some ws \<Rightarrow> ws) @ parked_on k (fst (run (x # xs) s)) =
      map fst (answered_on k (fst (flight_step join finish pend x s))) @
      (case pend ?s k of None \<Rightarrow> [] | Some ws \<Rightarrow> ws) @ parked_on k (fst (run xs ?s))"
    using step_balance(2) [of s k x] by (simp flip: append_assoc)
  then show ?case
    by (simp add: Cons.IH)
qed

lemma open_flight:
  assumes "pend s k = Some ws" and "\<forall>r. Op_complete k r \<notin> set xs"
  shows "pend (snd (run xs s)) k = Some (ws @ joins_on k xs) \<and>
    led_on k (fst (run xs s)) = 0 \<and> parked_on k (fst (run xs s)) = joins_on k xs"
  using assms
proof (induction xs arbitrary: s ws)
  case Nil
  then show ?case by simp
next
  case (Cons x xs)
  let ?s = "snd (flight_step join finish pend x s)" and ?es = "fst (flight_step join finish pend x s)"
  have "pend ?s k = Some (ws @ joins_on k [x]) \<and> led_on k ?es = 0 \<and> parked_on k ?es = joins_on k [x]"
  proof (cases x)
    case (Op_join j w)
    then show ?thesis
      using Cons.prems(1) join_leads [of s j w] join_waits [of s j _ w] by (cases "pend s j") auto
  next
    case (Op_complete j r)
    then show ?thesis
      using Cons.prems finish_none [of s j r] finish_flight [of s j _ r]
      by (cases "pend s j") (auto simp: comp_def)
  qed
  moreover have "joins_on k (x # xs) = joins_on k [x] @ joins_on k xs"
    by (cases x) simp_all
  ultimately show ?case
    using Cons.IH [of ?s "ws @ joins_on k [x]"] Cons.prems(2) by simp
qed

end

lemma pending_join:
  "pending (snd (join_or_start k w c)) =
     (pending c)(k \<mapsto> (case pending c k of None \<Rightarrow> [] | Some ws \<Rightarrow> ws @ [w]))"
  by (auto simp: join_or_start_def pending_def Let_def fun_eq_iff split: option.split)

interpretation coalescer: single_flight join_or_start complete pending
proof
  show "fst (join_or_start k w c) = Leader \<and> pending (snd (join_or_start k w c)) = (pending c)(k \<mapsto> [])"
    if "pending c k = None" for c :: "'w RequestCoalescer" and k w
    using that pending_join [of k w c] by (simp add: join_or_start_def pending_def Let_def)
  show "fst (join_or_start k w c) = Waiter \<and> pending (snd (join_or_start k w c)) = (pending c)(k \<mapsto> ws @ [w])"
    if "pending c k = Some ws" for c :: "'w RequestCoalescer" and k w ws
    using that pending_join [of k w c] by (simp add: join_or_start_def pending_def Let_def)
qed (auto simp: complete_def pending_def fun_eq_iff split: option.split)

lemma coalescer_wf_ops [invariants]:
  "coalescer_wf RequestCoalescer_new"
  "coalescer_wf c \<Longrightarrow> coalescer_wf (snd (join_or_start k w c))"
  "coalescer_wf c \<Longrightarrow> coalescer_wf (snd (complete k r c))"
  by (auto simp: coalescer_wf_def RequestCoalescer_new_def join_or_start_def complete_def Let_def
      split: option.split)

abbreviation coalescer_run where
  "coalescer_run \<equiv> flight_run join_or_start complete pending"

lemma coalescer_wf_run [invariants]:
  "coalescer_wf c \<Longrightarrow> coalescer_wf (snd (coalescer_run xs c))"
proof (induction xs arbitrary: c)
  case Nil
  then show ?case by simp
next
  case (Cons x xs)
  then show ?case
    by (cases x) (simp_all add: invariants)
qed

lemma pending_new [simp]: "pending RequestCoalescer_new k = None"
  by (simp add: pending_def RequestCoalescer_new_def)

lemma waiter_count_pending: "waiter_count k c = length (case pending c k of None \<Rightarrow> [] | Some ws \<Rightarrow> ws)"
  by (simp add: waiter_count_def pending_def split: option.split)

section \<open>Properties\<close>

text \<open>C8. Over any sequence of joins and completions, in any order and on any keys, the waiters parked
  on a key are called in the order they joined, each exactly once: the parked waiters are the called
  ones followed by the ones still pending, which \<^verbatim>\<open>waiter_count\<close> counts.\<close>

theorem coalescer_answers_once:
  fixes ops :: "(string, 'w, 'r) flight_op list"
  defines "log \<equiv> fst (coalescer_run ops RequestCoalescer_new)"
    and "c \<equiv> snd (coalescer_run ops RequestCoalescer_new)"
  shows "parked_on k log = map fst (answered_on k log) @ (case pending c k of None \<Rightarrow> [] | Some ws \<Rightarrow> ws) \<and>
    waiter_count k c = length (parked_on k log) - length (answered_on k log)"
proof -
  have "parked_on k log = map fst (answered_on k log) @ (case pending c k of None \<Rightarrow> [] | Some ws \<Rightarrow> ws)"
    using coalescer.waiters_balance [of RequestCoalescer_new k ops] by (simp add: log_def c_def)
  then show ?thesis
    by (simp add: waiter_count_pending)
qed

text \<open>C16. Single flight: on every key a leader is made only when no flight of that key is open, so the
  leaders exceed the finished flights by one while a flight is open and by none otherwise, and \<^verbatim>\<open>size\<close>
  is the number of keys with an open flight.\<close>

theorem coalescer_single_leader:
  fixes ops :: "(string, 'w, 'r) flight_op list"
  defines "log \<equiv> fst (coalescer_run ops RequestCoalescer_new)"
    and "c \<equiv> snd (coalescer_run ops RequestCoalescer_new)"
  shows "led_on k log = finished_on k log + (if pending c k = None then 0 else 1) \<and>
    coalescer_size c = card {j. led_on j log = Suc (finished_on j log)}"
proof -
  have led: "led_on j log = finished_on j log + (if pending c j = None then 0 else 1)" for j
    using coalescer.leaders_balance [of j ops RequestCoalescer_new] by (simp add: log_def c_def)
  then have "{j. led_on j log = Suc (finished_on j log)} = {j. um_find j (flights c) \<noteq> None}"
    by (auto simp: pending_def)
  moreover have "um_wf (flights c)"
    using coalescer_wf_run [OF coalescer_wf_ops(1)] by (simp add: c_def coalescer_wf_def)
  ultimately show ?thesis
    using led [of k] by (simp add: coalescer_size_def um.size_card)
qed

text \<open>C17. A join on a key without a flight leads; every join on the key until its completion waits,
  whatever happens on other keys in between; the completion then calls exactly those waiters, in the
  order they joined and all with the completion's response, and closes the flight.\<close>

theorem coalescer_flight:
  fixes ops :: "(string, 'w, 'r) flight_op list" and response :: 'r
  assumes "pending c k = None" and "\<forall>r. Op_complete k r \<notin> set ops"
  shows "let c1 = snd (join_or_start k w c);
             c2 = snd (coalescer_run ops c1);
             c3 = snd (complete k response c2)
         in fst (join_or_start k w c) = Leader \<and>
            led_on k (fst (coalescer_run ops c1)) = 0 \<and>
            parked_on k (fst (coalescer_run ops c1)) = joins_on k ops \<and>
            fst (complete k response c2) = map (\<lambda>v. (v, response)) (joins_on k ops) \<and>
            pending c3 = (pending c2)(k := None)"
proof -
  have "fst (join_or_start k w c) = Leader" and "pending (snd (join_or_start k w c)) k = Some []"
    using coalescer.join_leads [OF assms(1), of w] by simp_all
  then show ?thesis
    using coalescer.open_flight [of "snd (join_or_start k w c)" k "[]" ops] assms(2)
      coalescer.finish_flight [of "snd (coalescer_run ops (snd (join_or_start k w c)))" k "joins_on k ops" response]
    by (simp add: Let_def)
qed

theorem coalescer_flight_witness:
  "let c1 = snd (join_or_start ''A'' (0::nat) RequestCoalescer_new);
       c2 = snd (coalescer_run [Op_join ''A'' 1, Op_join ''B'' 5, Op_complete ''B'' (9::nat), Op_join ''A'' 2] c1)
   in fst (complete ''A'' (7::nat) c2) = [(1, 7), (2, 7)]"
  using coalescer_flight [of RequestCoalescer_new "''A''"
      "[Op_join ''A'' 1, Op_join ''B'' 5, Op_complete ''B'' (9::nat), Op_join ''A'' 2]" "0::nat" "7::nat"]
  by (simp add: Let_def del: flight_run.simps)

end
