(* ===== verification/Upstream_Pool.thy ===== *)
theory Upstream_Pool
  imports Prelude
begin

text \<open>
  \<^verbatim>\<open>include/eventedge/upstream_config.hpp\<close>: the configured upstreams, their health flags and the
  round-robin cursor. Every method locks the pool's mutex for its whole body, so each is one atomic
  step and an execution with several threads is a sequence of them.
\<close>

section \<open>State and operations\<close>

record UpstreamEndpoint =
  host :: string
  port :: u16

record Backend =
  backend_endpoint :: UpstreamEndpoint
  backend_healthy :: bool

record UpstreamPool =
  backends :: "Backend list"
  next_index :: nat

definition UpstreamPool_new :: "UpstreamEndpoint list \<Rightarrow> UpstreamPool result" where
  "UpstreamPool_new endpoints =
     (if endpoints = [] then Inl (Invalid_argument ''at least one upstream endpoint is required'')
      else Inr \<lparr>backends = map (\<lambda>e. \<lparr>backend_endpoint = e, backend_healthy = True\<rparr>) endpoints,
                next_index = 0\<rparr>)"

function select_loop :: "UpstreamPool \<Rightarrow> nat \<Rightarrow> UpstreamEndpoint option \<times> UpstreamPool" where
  "select_loop p offset =
     (if offset < length (backends p) then
        let index = (next_index p + offset) mod length (backends p) in
        if backend_healthy (backends p ! index)
        then (Some (backend_endpoint (backends p ! index)),
              p\<lparr>next_index := (index + 1) mod length (backends p)\<rparr>)
        else select_loop p (Suc offset)
      else (None, p))"
  by pat_completeness auto
termination
  by (relation "measure (\<lambda>(p, offset). length (backends p) - offset)") auto

declare select_loop.simps [simp del]

definition select :: "UpstreamPool \<Rightarrow> UpstreamEndpoint option \<times> UpstreamPool" where
  "select p = select_loop p 0"

text \<open>
  The same loop with the integers of the code: \<^verbatim>\<open>offset\<close>, \<^verbatim>\<open>index\<close>, \<^verbatim>\<open>next_index_\<close> and \<^verbatim>\<open>size()\<close> are
  \<^verbatim>\<open>std::size_t\<close>, whose sums wrap around. The state is the vector and the cursor.
\<close>

function select_loop64 :: "Backend list \<Rightarrow> u64 \<Rightarrow> u64 \<Rightarrow> UpstreamEndpoint option \<times> u64" where
  "select_loop64 bs cursor offset =
     (let size = of_nat (length bs) in
      if offset < size then
        let index = (cursor + offset) mod size in
        if backend_healthy (bs ! unat index)
        then (Some (backend_endpoint (bs ! unat index)), (index + 1) mod size)
        else select_loop64 bs cursor (offset + 1)
      else (None, cursor))"
  by pat_completeness auto
termination
proof (relation "measure (\<lambda>(bs, cursor, offset). unat (of_nat (length bs) :: u64) - unat offset)")
  fix bs :: "Backend list" and cursor offset size index :: u64
  assume size: "size = of_nat (length bs)" and "offset < size"
  then have less: "unat offset < unat size"
    by (simp add: word_less_nat_alt)
  then have "unat offset + unat (1 :: u64) < 2 ^ 64"
    using unsigned_less [of size, where ?'a = nat] by simp
  then have "unat (offset + 1) = unat offset + 1"
    using unat_add_lem [of offset 1] by simp
  with less size show "((bs, cursor, offset + 1), (bs, cursor, offset)) \<in>
      measure (\<lambda>(bs, cursor, offset). unat (of_nat (length bs) :: u64) - unat offset)"
    by simp
qed simp

declare select_loop64.simps [simp del]

definition select64 :: "Backend list \<times> u64 \<Rightarrow> UpstreamEndpoint option \<times> Backend list \<times> u64" where
  "select64 = (\<lambda>(bs, cursor). let (r, cursor') = select_loop64 bs cursor 0 in (r, bs, cursor'))"

definition pool_size :: "UpstreamPool \<Rightarrow> nat" where
  "pool_size p = length (backends p)"

text \<open>\<^verbatim>\<open>backends_.at(index)\<close> throws \<^verbatim>\<open>std::out_of_range\<close>.\<close>

definition backend_at :: "UpstreamPool \<Rightarrow> nat \<Rightarrow> Backend result" where
  "backend_at p index =
     (if index < length (backends p) then Inr (backends p ! index) else Inl Out_of_range)"

definition pool_endpoint :: "UpstreamPool \<Rightarrow> nat \<Rightarrow> UpstreamEndpoint result" where
  "pool_endpoint p index = rbind (backend_at p index) (\<lambda>b. Inr (backend_endpoint b))"

definition is_healthy :: "UpstreamPool \<Rightarrow> nat \<Rightarrow> bool result" where
  "is_healthy p index = rbind (backend_at p index) (\<lambda>b. Inr (backend_healthy b))"

definition set_healthy :: "UpstreamPool \<Rightarrow> nat \<Rightarrow> bool \<Rightarrow> (bool \<times> UpstreamPool) result" where
  "set_healthy p index h =
     rbind (backend_at p index) (\<lambda>b.
       if backend_healthy b = h then Inr (False, p)
       else Inr (True, p\<lparr>backends := (backends p)[index := b\<lparr>backend_healthy := h\<rparr>]\<rparr>))"

section \<open>Well-formedness and the ring of healthy upstreams\<close>

definition pool_wf :: "UpstreamPool \<Rightarrow> bool" where
  "pool_wf p \<longleftrightarrow> backends p \<noteq> [] \<and> next_index p < length (backends p)"

definition healthy_at :: "UpstreamPool \<Rightarrow> nat \<Rightarrow> bool" where
  "healthy_at p i \<longleftrightarrow> backend_healthy (backends p ! i)"

definition endpoint_at :: "UpstreamPool \<Rightarrow> nat \<Rightarrow> UpstreamEndpoint" where
  "endpoint_at p i = backend_endpoint (backends p ! i)"

text \<open>
  The abstract view: the indices of the healthy upstreams in the order in which the cursor will
  reach them.
\<close>

definition ring :: "UpstreamPool \<Rightarrow> nat list" where
  "ring p = filter (healthy_at p) (rotate (next_index p) [0..<length (backends p)])"

text \<open>Consecutive selections, and selections mixed with health updates.\<close>

primrec picks :: "('s \<Rightarrow> 'r \<times> 's) \<Rightarrow> nat \<Rightarrow> 's \<Rightarrow> 'r list \<times> 's" where
  "picks f 0 s = ([], s)"
| "picks f (Suc k) s = (let (r, s') = f s; (rs, s'') = picks f k s' in (r # rs, s''))"

datatype pool_op = Select | Set_healthy nat bool

fun pool_step :: "UpstreamPool \<Rightarrow> pool_op \<Rightarrow> UpstreamEndpoint option list \<times> UpstreamPool" where
  "pool_step p Select = (let (r, p') = select p in ([r], p'))"
| "pool_step p (Set_healthy i h) =
     (case set_healthy p i h of Inl e \<Rightarrow> ([], p) | Inr (changed, p') \<Rightarrow> ([], p'))"

primrec pool_run :: "UpstreamPool \<Rightarrow> pool_op list \<Rightarrow> UpstreamEndpoint option list \<times> UpstreamPool" where
  "pool_run p [] = ([], p)"
| "pool_run p (x # xs) =
     (let (rs, p') = pool_step p x; (rs', p'') = pool_run p' xs in (rs @ rs', p''))"

section \<open>Lemmas\<close>

lemma picks_Suc [simp]:
  "picks f (Suc k) s =
     (fst (f s) # fst (picks f k (snd (f s))), snd (picks f k (snd (f s))))"
  by (simp add: Let_def split: prod.split)

declare picks.simps(2) [simp del]

lemma rotate_upt_nth:
  "n < m \<Longrightarrow> k < m \<Longrightarrow> rotate n [0..<m] ! k = (n + k) mod m"
  by (simp add: nth_rotate add.commute)

lemma drop_rotate_upt:
  assumes "k < m"
  shows "drop k (rotate n [0..<m]) = (n + k) mod m # drop (Suc k) (rotate n [0..<m])"
proof -
  have "rotate n [0..<m] ! k = (n + k) mod m"
    using assms by (simp add: nth_rotate add.commute)
  then show ?thesis
    using assms by (metis Cons_nth_drop_Suc length_rotate length_upt diff_zero)
qed

lemma select_loop_filter:
  "select_loop p offset =
     (case filter (healthy_at p) (drop offset (rotate (next_index p) [0..<length (backends p)])) of
        [] \<Rightarrow> (None, p)
      | i # _ \<Rightarrow> (Some (endpoint_at p i), p\<lparr>next_index := (i + 1) mod length (backends p)\<rparr>))"
proof (induction p offset rule: select_loop.induct)
  case (1 p offset)
  show ?case
  proof (cases "offset < length (backends p)")
    case True
    with 1 show ?thesis
      by (subst select_loop.simps, subst drop_rotate_upt)
        (simp_all add: Let_def flip: healthy_at_def endpoint_at_def)
  next
    case False
    then show ?thesis
      by (subst select_loop.simps) simp
  qed
qed

lemma select_ring:
  "select p = (case ring p of
      [] \<Rightarrow> (None, p)
    | i # _ \<Rightarrow> (Some (endpoint_at p i), p\<lparr>next_index := (i + 1) mod length (backends p)\<rparr>))"
  by (simp add: select_def select_loop_filter ring_def)

lemma set_ring: "set (ring p) = {i. i < length (backends p) \<and> healthy_at p i}"
  by (auto simp: ring_def)

lemma distinct_ring [simp]: "distinct (ring p)"
  by (simp add: ring_def)

lemma rotate_next:
  assumes "rotate n [0..<m] = us @ i # vs"
  shows "rotate ((i + 1) mod m) [0..<m] = vs @ us @ [i]"
proof -
  have len: "length us < m"
    using arg_cong [OF assms, where f = length] by simp
  have "i = rotate n [0..<m] ! length us"
    by (simp add: assms)
  with len have i: "i = (n + length us) mod m"
    by (simp add: nth_rotate add.commute)
  have "rotate ((i + 1) mod m) [0..<m] = rotate (Suc (length us) + n) [0..<m]"
    using rotate_conv_mod [of "Suc (length us) + n" "[0..<m]"]
    by (simp add: i mod_Suc_eq add.commute)
  also have "\<dots> = rotate (Suc (length us)) (us @ i # vs)"
    by (simp only: rotate_rotate [symmetric] assms)
  also have "\<dots> = rotate1 (rotate (length us) (us @ i # vs))"
    by simp
  also have "\<dots> = vs @ us @ [i]"
    by (subst rotate_append) simp
  finally show ?thesis .
qed

lemma select_frame [frames, simp]:
  "backends (snd (select p)) = backends p"
  "healthy_at (snd (select p)) = healthy_at p"
  "endpoint_at (snd (select p)) = endpoint_at p"
  by (auto simp: select_ring healthy_at_def endpoint_at_def fun_eq_iff split: list.split)

lemma at_next_index [simp]:
  "healthy_at (p\<lparr>next_index := i\<rparr>) = healthy_at p"
  "endpoint_at (p\<lparr>next_index := i\<rparr>) = endpoint_at p"
  by (auto simp: healthy_at_def endpoint_at_def)

lemma ring_select: "ring (snd (select p)) = rotate1 (ring p)"
proof (cases "ring p")
  case Nil
  then show ?thesis
    by (simp add: select_ring)
next
  case (Cons i js)
  let ?n = "length (backends p)"
  from Cons obtain us vs where split: "rotate (next_index p) [0..<?n] = us @ i # vs"
      and us: "filter (healthy_at p) us = []" and i: "healthy_at p i" and vs: "js = filter (healthy_at p) vs"
    by (auto simp: ring_def filter_eq_Cons_iff)
  have "ring (snd (select p)) = filter (healthy_at p) (rotate ((i + 1) mod ?n) [0..<?n])"
    using Cons by (simp add: select_ring ring_def)
  also have "\<dots> = js @ [i]"
    using rotate_next [OF split] us i vs by simp
  finally show ?thesis
    by (simp add: Cons)
qed

lemma pool_wf_new [invariants]: "UpstreamPool_new es = Inr p \<Longrightarrow> pool_wf p"
  by (auto simp: UpstreamPool_new_def pool_wf_def split: if_splits)

lemma pool_wf_select [invariants]: "pool_wf p \<Longrightarrow> pool_wf (snd (select p))"
  by (auto simp: select_ring pool_wf_def split: list.split)

lemma set_healthy_cases:
  assumes "set_healthy p i h = Inr (changed, p')"
  shows "i < length (backends p)" and "changed = (healthy_at p i \<noteq> h)"
    and "p' = p\<lparr>backends := (backends p)[i := (backends p ! i)\<lparr>backend_healthy := h\<rparr>]\<rparr>"
proof -
  have same: "p\<lparr>backends := (backends p)[i := (backends p ! i)\<lparr>backend_healthy := h\<rparr>]\<rparr> = p"
    if "backend_healthy (backends p ! i) = h"
  proof -
    have "(backends p ! i)\<lparr>backend_healthy := h\<rparr> = backends p ! i"
      using that by (cases "backends p ! i") simp
    then show ?thesis by simp
  qed
  have i: "i < length (backends p)"
    using assms by (auto simp: set_healthy_def backend_at_def split: if_splits)
  with assms have "(if backend_healthy (backends p ! i) = h then (False, p)
      else (True, p\<lparr>backends := (backends p)[i := (backends p ! i)\<lparr>backend_healthy := h\<rparr>]\<rparr>)) = (changed, p')"
    by (simp add: set_healthy_def backend_at_def split: if_splits)
  with same show "changed = (healthy_at p i \<noteq> h)"
    and "p' = p\<lparr>backends := (backends p)[i := (backends p ! i)\<lparr>backend_healthy := h\<rparr>]\<rparr>"
    by (auto simp: healthy_at_def split: if_splits)
  show "i < length (backends p)" by (rule i)
qed

lemma pool_wf_set_healthy [invariants]:
  "pool_wf p \<Longrightarrow> set_healthy p i h = Inr (changed, p') \<Longrightarrow> pool_wf p'"
  by (auto simp: pool_wf_def dest!: set_healthy_cases(3))

lemma pool_wf_step [invariants]: "pool_wf p \<Longrightarrow> pool_wf (snd (pool_step p x))"
  using pool_wf_select [of p]
  by (cases x) (auto split: prod.splits sum.splits intro: pool_wf_set_healthy)

section \<open>Round robin as an interface\<close>

text \<open>
  What a balancer promises: a pick is the head of the current ring of candidates, and it moves that
  candidate to the end. Fairness follows from the promise alone.
\<close>

locale round_robin =
  fixes pick :: "'s \<Rightarrow> 'e option \<times> 's"
    and candidates :: "'s \<Rightarrow> 'i list"
    and label :: "'s \<Rightarrow> 'i \<Rightarrow> 'e"
  assumes pick_none: "candidates s = [] \<Longrightarrow> pick s = (None, s)"
    and pick_head: "candidates s = i # js \<Longrightarrow> fst (pick s) = Some (label s i)"
    and pick_rotates: "candidates (snd (pick s)) = rotate1 (candidates s)"
    and pick_label: "label (snd (pick s)) = label s"
begin

lemma picks_cycle:
  assumes "candidates s \<noteq> []"
  shows "fst (picks pick k s) =
    map (\<lambda>j. Some (label s (candidates s ! (j mod length (candidates s))))) [0..<k]"
  using assms
proof (induction k arbitrary: s)
  case 0
  then show ?case by simp
next
  case (Suc k)
  let ?m = "length (candidates s)"
  obtain i js where c: "candidates s = i # js"
    using Suc.prems by (cases "candidates s") auto
  have ne: "candidates (snd (pick s)) \<noteq> []"
    using Suc.prems by (simp add: pick_rotates)
  have nth: "rotate1 (candidates s) ! (j mod ?m) = candidates s ! (Suc j mod ?m)" for j
    using Suc.prems nth_rotate1 [of "j mod ?m" "candidates s"]
    by (simp add: mod_Suc_eq)
  have "fst (picks pick (Suc k) s) = fst (pick s) # fst (picks pick k (snd (pick s)))"
    by simp
  also have "\<dots> = Some (label s i) #
      map (\<lambda>j. Some (label s (candidates s ! (Suc j mod ?m)))) [0..<k]"
    using Suc.IH [OF ne] by (simp add: pick_head [OF c] pick_label nth pick_rotates)
  also have "\<dots> = map (\<lambda>j. Some (label s (candidates s ! (j mod ?m)))) [0..<Suc k]"
    by (simp add: upt_conv_Cons c flip: map_Suc_upt del: upt_Suc)
  finally show ?case .
qed

lemma picks_round:
  assumes "candidates s \<noteq> []"
  shows "fst (picks pick (length (candidates s)) s) = map (Some \<circ> label s) (candidates s)"
  unfolding picks_cycle [OF assms] by (rule nth_equalityI) simp_all

lemma candidates_picks: "candidates (snd (picks pick k s)) = rotate k (candidates s)"
  by (induction k arbitrary: s) (simp_all add: pick_rotates rotate1_rotate_swap)

lemma label_picks: "label (snd (picks pick k s)) = label s"
  by (induction k arbitrary: s) (simp_all add: pick_label)

lemma picks_add:
  "fst (picks pick (j + k) s) = fst (picks pick j s) @ fst (picks pick k (snd (picks pick j s)))"
  by (induction j arbitrary: s) simp_all

lemma picks_rounds_count:
  assumes "candidates s \<noteq> []"
  shows "count_list (fst (picks pick (r * length (candidates s)) s)) (Some e) =
    r * length (filter (\<lambda>i. label s i = e) (candidates s))"
  using assms
proof (induction r arbitrary: s)
  case 0
  then show ?case by simp
next
  case (Suc r)
  let ?m = "length (candidates s)" and ?s = "snd (picks pick (length (candidates s)) s)"
  have c: "candidates ?s = candidates s"
    by (simp add: candidates_picks)
  have "count_list (map (Some \<circ> label s) (candidates s)) (Some e) =
      length (filter (\<lambda>i. label s i = e) (candidates s))"
    by (simp add: count_list_eq_length_filter filter_map comp_def eq_commute)
  then show ?case
    using Suc.IH [of ?s] Suc.prems
    by (simp add: picks_add picks_round c label_picks)
qed

end

interpretation pool: round_robin select ring endpoint_at
  by unfold_locales (simp_all add: ring_select, simp_all add: select_ring)


lemma set_healthy_frame [frames]:
  assumes "set_healthy p i h = Inr (changed, p')"
  shows "next_index p' = next_index p" and "length (backends p') = length (backends p)"
    and "endpoint_at p' = endpoint_at p" and "healthy_at p' = (healthy_at p)(i := h)"
  using set_healthy_cases [OF assms]
  by (auto simp: endpoint_at_def healthy_at_def nth_list_update fun_eq_iff)

text \<open>How many candidates, healthy or not, the cursor meets before upstream \<open>i\<close>.\<close>

definition cursor_distance :: "UpstreamPool \<Rightarrow> nat \<Rightarrow> nat" where
  "cursor_distance p i =
     length (takeWhile (\<lambda>j. j \<noteq> i) (rotate (next_index p) [0..<length (backends p)]))"

lemma cursor_distance_bound:
  assumes "i < length (backends p)"
  shows "cursor_distance p i < length (backends p)"
proof -
  let ?R = "rotate (next_index p) [0..<length (backends p)]"
  have "takeWhile (\<lambda>j. j \<noteq> i) ?R \<noteq> ?R"
    using assms by (auto simp: takeWhile_eq_all_conv)
  then have "length (takeWhile (\<lambda>j. j \<noteq> i) ?R) < length ?R"
    by (metis length_takeWhile_le le_neq_implies_less takeWhile_eq_take take_all order_refl)
  then show ?thesis
    by (simp add: cursor_distance_def)
qed

lemma select_approaches:
  assumes i: "i < length (backends p)" and h: "healthy_at p i"
    and miss: "fst (select p) \<noteq> Some (endpoint_at p i)"
  shows "cursor_distance (snd (select p)) i < cursor_distance p i"
proof -
  let ?n = "length (backends p)"
  have "i \<in> set (ring p)"
    using i h by (simp add: set_ring)
  then obtain j js where ring: "ring p = j # js"
    by (cases "ring p") auto
  with miss have ij: "i \<noteq> j"
    by (auto simp: select_ring)
  obtain us vs where R: "rotate (next_index p) [0..<?n] = us @ j # vs"
      and us: "filter (healthy_at p) us = []"
    using ring by (auto simp: ring_def filter_eq_Cons_iff)
  have "i \<in> set (us @ j # vs)"
    using i by (metis R set_rotate set_upt atLeast0LessThan lessThan_iff)
  moreover have notus: "i \<notin> set us"
    using us h by (auto simp: filter_empty_conv)
  ultimately have vs: "i \<in> set vs"
    using ij by auto
  have "rotate ((j + 1) mod ?n) [0..<?n] = vs @ us @ [j]"
    by (rule rotate_next [OF R])
  then have "cursor_distance (snd (select p)) i = length (takeWhile (\<lambda>k. k \<noteq> i) vs)"
    using ring vs by (simp add: cursor_distance_def select_ring takeWhile_append1)
  moreover have "cursor_distance p i = length us + Suc (length (takeWhile (\<lambda>k. k \<noteq> i) vs))"
    using ij notus by (subst cursor_distance_def, subst R, subst takeWhile_append2) auto
  ultimately show ?thesis by simp
qed

lemma pool_run_reaches:
  assumes "i < length (backends p)" and "healthy_at p i"
    and "Set_healthy i False \<notin> set xs"
    and "cursor_distance p i < count_list xs Select"
  shows "Some (endpoint_at p i) \<in> set (fst (pool_run p xs))"
  using assms
proof (induction xs arbitrary: p)
  case Nil
  then show ?case by simp
next
  case (Cons x xs)
  show ?case
  proof (cases x)
    case Select
    show ?thesis
    proof (cases "fst (select p) = Some (endpoint_at p i)")
      case True
      then show ?thesis
        using Select by (auto split: prod.split)
    next
      case False
      have "Some (endpoint_at (snd (select p)) i) \<in> set (fst (pool_run (snd (select p)) xs))"
        using Cons.prems select_approaches [OF Cons.prems(1,2) False] Select
        by (intro Cons.IH) auto
      then show ?thesis
        using Select by (auto split: prod.split)
    qed
  next
    case (Set_healthy k h)
    show ?thesis
    proof (cases "set_healthy p k h")
      case (Inl e)
      then show ?thesis
        using Cons.IH [of p] Cons.prems Set_healthy by auto
    next
      case (Inr r)
      then obtain changed p' where r: "set_healthy p k h = Inr (changed, p')"
        by (cases r) auto
      note f = set_healthy_frame [OF r]
      have "Some (endpoint_at p' i) \<in> set (fst (pool_run p' xs))"
        using Cons.prems Set_healthy f by (intro Cons.IH) (auto simp: cursor_distance_def)
      then show ?thesis
        using r Set_healthy f by (auto split: prod.split)
    qed
  qed
qed

section \<open>The round robin on machine words\<close>

definition machine_pool :: "UpstreamPool \<Rightarrow> Backend list \<times> u64" where
  "machine_pool p = (backends p, of_nat (next_index p))"

lemma u64_cursor:
  assumes "a < n" and "b < n" and "n \<le> 2 ^ 63"
  shows "(of_nat a + of_nat b) mod of_nat n = (of_nat ((a + b) mod n) :: u64)"
    and "(of_nat a + 1) mod of_nat n = (of_nat ((a + 1) mod n) :: u64)"
proof -
  have "(of_nat c :: u64) mod of_nat n = of_nat (c mod n)" if "c < 2 ^ 64" for c
  proof -
    have "unat (of_nat c mod of_nat n :: u64) = c mod n"
      using that assms(3) by (simp add: unat_mod unat_u64)
    moreover have "c mod n < 2 ^ 64"
      using that by (rule le_less_trans [OF mod_less_eq_dividend])
    ultimately show ?thesis
      by (simp add: word_unat_eq_iff unat_u64)
  qed
  from this [of "a + b"] this [of "a + 1"] assms
  show "(of_nat a + of_nat b) mod of_nat n = (of_nat ((a + b) mod n) :: u64)"
    and "(of_nat a + 1) mod of_nat n = (of_nat ((a + 1) mod n) :: u64)"
    by (simp_all add: add.commute)
qed

lemma select_loop_words:
  assumes "pool_wf p" and "length (backends p) \<le> 2 ^ 63" and "offset \<le> length (backends p)"
  shows "select_loop64 (backends p) (of_nat (next_index p)) (of_nat offset) =
    (fst (select_loop p offset), of_nat (next_index (snd (select_loop p offset))))"
  using assms
proof (induction p offset rule: select_loop.induct)
  case (1 p offset)
  let ?n = "length (backends p)" and ?i = "(next_index p + offset) mod length (backends p)"
  have less: "of_nat offset < (of_nat ?n :: u64) \<longleftrightarrow> offset < ?n"
    using "1.prems" by (simp add: word_less_nat_alt unat_u64)
  show ?case
  proof (cases "offset < ?n")
    case False
    then show ?thesis
      using less by (subst select_loop64.simps, subst (1 2) select_loop.simps) simp
  next
    case True
    then have i: "?i < ?n"
      by (intro mod_less_divisor) auto
    have index: "(of_nat (next_index p) + of_nat offset) mod of_nat ?n = (of_nat ?i :: u64)"
      and cursor: "(of_nat ?i + 1) mod of_nat ?n = (of_nat ((?i + 1) mod ?n) :: u64)"
      using u64_cursor(1) [of "next_index p" ?n offset] u64_cursor(2) [OF i i] "1.prems" True
      by (simp_all add: pool_wf_def)
    have "unat (of_nat ?i :: u64) = ?i"
      using i "1.prems"(2) by (intro unat_u64) simp
    then show ?thesis
      using less True index cursor "1.IH" [OF True refl] "1.prems"
      by (subst select_loop64.simps, subst (1 2) select_loop.simps) (simp add: Let_def add.commute)
  qed
qed

lemma picks_select64:
  assumes "pool_wf p" and "length (backends p) \<le> 2 ^ 63"
  shows "picks select64 k (machine_pool p) = (fst (picks select k p), machine_pool (snd (picks select k p))) \<and>
    pool_wf (snd (picks select k p)) \<and> length (backends (snd (picks select k p))) \<le> 2 ^ 63"
  using assms
proof (induction k arbitrary: p)
  case (Suc k)
  have "select64 (machine_pool p) = (fst (select p), machine_pool (snd (select p)))"
    using select_loop_words [OF Suc.prems, of 0] select_frame(1) [of p]
    by (simp add: select64_def machine_pool_def select_def)
  then show ?case
    using Suc.IH [OF pool_wf_select [OF Suc.prems(1)]] Suc.prems(2) by simp
qed simp

section \<open>Properties\<close>

text \<open>C10. \<^verbatim>\<open>UpstreamPool::select\<close> returns nothing exactly when no upstream is healthy, and then
  leaves the pool alone; otherwise it returns the endpoint of the first healthy upstream in cyclic
  order from the cursor, skipping only unhealthy ones, and advances the cursor just past it.\<close>

theorem select_first_healthy:
  assumes "pool_wf p"
  defines "n \<equiv> length (backends p)"
  shows "case select p of
      (None, p') \<Rightarrow> p' = p \<and> (\<forall>i < n. \<not> healthy_at p i)
    | (Some e, p') \<Rightarrow> \<exists>k < n. healthy_at p ((next_index p + k) mod n) \<and>
        e = endpoint_at p ((next_index p + k) mod n) \<and>
        (\<forall>j < k. \<not> healthy_at p ((next_index p + j) mod n)) \<and>
        p' = p\<lparr>next_index := ((next_index p + k) mod n + 1) mod n\<rparr>"
proof (cases "ring p")
  case Nil
  then show ?thesis
    using set_ring [of p] by (auto simp: select_ring n_def)
next
  case (Cons i js)
  obtain us vs where R: "rotate (next_index p) [0..<n] = us @ i # vs"
      and us: "filter (healthy_at p) us = []" and i: "healthy_at p i"
    using Cons by (auto simp: ring_def filter_eq_Cons_iff n_def)
  have len: "length us < n"
    using arg_cong [OF R, where f = length] by simp
  have nth: "(next_index p + j) mod n = (us @ i # vs) ! j" if "j < n" for j
    using that assms(1) by (simp add: rotate_upt_nth pool_wf_def n_def flip: R)
  have "(next_index p + length us) mod n = i"
    using nth [OF len] by simp
  moreover have "\<not> healthy_at p ((next_index p + j) mod n)" if "j < length us" for j
    using that len us nth [of j] by (auto simp: nth_append filter_empty_conv)
  ultimately show ?thesis
    using Cons i len by (auto simp: select_ring n_def intro!: exI [of _ "length us"])
qed

theorem select_first_healthy_witness:
  "pool_wf \<lparr>backends = [\<lparr>backend_endpoint = \<lparr>host = ''a'', port = 1\<rparr>, backend_healthy = True\<rparr>,
                        \<lparr>backend_endpoint = \<lparr>host = ''b'', port = 2\<rparr>, backend_healthy = False\<rparr>],
            next_index = 1\<rparr> \<and>
   fst (select \<lparr>backends = [\<lparr>backend_endpoint = \<lparr>host = ''a'', port = 1\<rparr>, backend_healthy = True\<rparr>,
                        \<lparr>backend_endpoint = \<lparr>host = ''b'', port = 2\<rparr>, backend_healthy = False\<rparr>],
            next_index = 1\<rparr>) = Some \<lparr>host = ''a'', port = 1\<rparr>"
proof -
  let ?p = "\<lparr>backends = [\<lparr>backend_endpoint = \<lparr>host = ''a'', port = 1\<rparr>, backend_healthy = True\<rparr>,
                        \<lparr>backend_endpoint = \<lparr>host = ''b'', port = 2\<rparr>, backend_healthy = False\<rparr>],
            next_index = 1\<rparr>"
  have wf: "pool_wf ?p"
    by (simp add: pool_wf_def)
  have "fst (select ?p) = Some \<lparr>host = ''a'', port = 1\<rparr>"
    using select_first_healthy [OF wf]
    by (auto split: prod.splits option.splits simp: healthy_at_def endpoint_at_def less_2_cases_iff
        numeral_2_eq_2 less_Suc_eq)
  with wf show ?thesis by simp
qed

text \<open>C11. The rotation is fair: over \<open>r\<close> rounds of as many selections as there are healthy upstreams,
  with no health change in between, every endpoint is returned exactly \<open>r\<close> times for each healthy
  upstream configured with it.\<close>

theorem select_rounds_fair:
  assumes "healthy_at p i" and "i < length (backends p)"
  shows "count_list (fst (picks select (r * length (ring p)) p)) (Some e) =
    r * length (filter (\<lambda>b. backend_healthy b \<and> backend_endpoint b = e) (backends p))"
proof -
  have "i \<in> set (ring p)"
    using assms by (simp add: set_ring)
  then have "ring p \<noteq> []" by auto
  then have "count_list (fst (picks select (r * length (ring p)) p)) (Some e) =
      r * length (filter (\<lambda>i. endpoint_at p i = e) (ring p))"
    by (rule pool.picks_rounds_count)
  also have "length (filter (\<lambda>i. endpoint_at p i = e) (ring p)) =
      card (set (filter (\<lambda>i. endpoint_at p i = e) (ring p)))"
    by (simp only: distinct_card distinct_filter distinct_ring)
  also have "set (filter (\<lambda>i. endpoint_at p i = e) (ring p)) =
      {i. i < length (backends p) \<and> healthy_at p i \<and> endpoint_at p i = e}"
    by (auto simp: set_ring)
  also have "card \<dots> = length (filter (\<lambda>b. backend_healthy b \<and> backend_endpoint b = e) (backends p))"
    by (simp add: length_filter_conv_card healthy_at_def endpoint_at_def)
  finally show ?thesis .
qed

theorem select_rounds_fair_witness:
  "count_list (fst (picks select 4
      \<lparr>backends = [\<lparr>backend_endpoint = \<lparr>host = ''a'', port = 1\<rparr>, backend_healthy = True\<rparr>,
                   \<lparr>backend_endpoint = \<lparr>host = ''b'', port = 2\<rparr>, backend_healthy = False\<rparr>,
                   \<lparr>backend_endpoint = \<lparr>host = ''c'', port = 3\<rparr>, backend_healthy = True\<rparr>],
       next_index = 1\<rparr>)) (Some \<lparr>host = ''c'', port = 3\<rparr>) = 2"
proof -
  let ?p = "\<lparr>backends = [\<lparr>backend_endpoint = \<lparr>host = ''a'', port = 1\<rparr>, backend_healthy = True\<rparr>,
                   \<lparr>backend_endpoint = \<lparr>host = ''b'', port = 2\<rparr>, backend_healthy = False\<rparr>,
                   \<lparr>backend_endpoint = \<lparr>host = ''c'', port = 3\<rparr>, backend_healthy = True\<rparr>],
       next_index = 1\<rparr>"
  have "ring ?p = [2, 0]"
    by code_simp
  moreover have "healthy_at ?p 0" and "0 < length (backends ?p)"
    by (simp_all add: healthy_at_def)
  ultimately show ?thesis
    using select_rounds_fair [of ?p 0 2 "\<lparr>host = ''c'', port = 3\<rparr>"] by simp
qed

text \<open>C12. No starvation under health changes: in any interleaving of selections and health updates
  that keeps upstream \<open>i\<close> healthy and contains at least as many selections as there are upstreams,
  the endpoint of \<open>i\<close> is returned.\<close>

theorem select_no_starvation:
  assumes "i < length (backends p)" and "healthy_at p i"
    and "Set_healthy i False \<notin> set xs"
    and "length (backends p) \<le> count_list xs Select"
  shows "Some (endpoint_at p i) \<in> set (fst (pool_run p xs))"
  using assms cursor_distance_bound [of i p] by (intro pool_run_reaches) auto

theorem select_no_starvation_witness:
  "Some \<lparr>host = ''b'', port = 2\<rparr> \<in> set (fst (pool_run
      \<lparr>backends = [\<lparr>backend_endpoint = \<lparr>host = ''a'', port = 1\<rparr>, backend_healthy = True\<rparr>,
                   \<lparr>backend_endpoint = \<lparr>host = ''b'', port = 2\<rparr>, backend_healthy = True\<rparr>],
       next_index = 0\<rparr> [Select, Set_healthy 0 False, Select]))"
  using select_no_starvation [of 1
      "\<lparr>backends = [\<lparr>backend_endpoint = \<lparr>host = ''a'', port = 1\<rparr>, backend_healthy = True\<rparr>,
                   \<lparr>backend_endpoint = \<lparr>host = ''b'', port = 2\<rparr>, backend_healthy = True\<rparr>],
       next_index = 0\<rparr>" "[Select, Set_healthy 0 False, Select]"]
  by (simp add: healthy_at_def endpoint_at_def)

text \<open>C40. The \<^verbatim>\<open>std::size_t\<close> arithmetic of \<^verbatim>\<open>select\<close> does not matter: for a pool of at most \<open>2 ^ 63\<close> upstreams
  (a vector holds no more), any number of selections computed with the wrapping 64-bit offset, index and
  cursor of the code returns the endpoints that \<open>select\<close> returns on unbounded numbers, and leaves the same
  cursor.\<close>

theorem select_machine_words:
  fixes p :: UpstreamPool and k :: nat
  assumes "pool_wf p" and "length (backends p) \<le> 2 ^ 63"
  defines "run64 \<equiv> picks select64 k (backends p, of_nat (next_index p))" and "run \<equiv> picks select k p"
  shows "fst run64 = fst run \<and> fst (snd run64) = backends (snd run) \<and> unat (snd (snd run64)) = next_index (snd run)"
proof -
  have "picks select64 k (machine_pool p) = (fst run, machine_pool (snd run)) \<and> pool_wf (snd run) \<and>
      length (backends (snd run)) \<le> 2 ^ 63"
    unfolding run_def using assms(1,2) by (rule picks_select64)
  then show ?thesis
    by (auto simp: run64_def machine_pool_def pool_wf_def intro!: unat_u64)
qed

theorem select_machine_words_witness:
  "let a = \<lparr>backend_endpoint = \<lparr>host = ''a'', port = 1\<rparr>, backend_healthy = True\<rparr>;
       b = \<lparr>backend_endpoint = \<lparr>host = ''b'', port = 2\<rparr>, backend_healthy = True\<rparr>
   in fst (picks select64 3 ([a, b], 1)) = fst (picks select 3 \<lparr>backends = [a, b], next_index = 1\<rparr>)"
proof -
  let ?a = "\<lparr>backend_endpoint = \<lparr>host = ''a'', port = 1\<rparr>, backend_healthy = True\<rparr>"
  let ?b = "\<lparr>backend_endpoint = \<lparr>host = ''b'', port = 2\<rparr>, backend_healthy = True\<rparr>"
  let ?p = "\<lparr>backends = [?a, ?b], next_index = 1\<rparr>"
  have "pool_wf ?p" and "length (backends ?p) \<le> 2 ^ 63"
    by (simp_all add: pool_wf_def)
  from select_machine_words [OF this, of 3] show ?thesis
    by simp
qed

end
