(* ===== verification/Metrics.thy ===== *)
theory Metrics
  imports Upstream_Pool
begin

text \<open>
  \<^verbatim>\<open>include/eventedge/metrics.hpp\<close> and \<^verbatim>\<open>src/metrics.cpp\<close>: the counters, the gauge of running proxies,
  the duration histogram and their text exposition. Every \<^verbatim>\<open>std::atomic<std::uint64_t>\<close> is a 64-bit
  word, so \<^verbatim>\<open>fetch_add\<close> and \<^verbatim>\<open>fetch_sub\<close> wrap around as they do in C++. The pool the registry shares
  with the server is an argument of the operations that read it.
\<close>

section \<open>Formatting a sum of nanoseconds as seconds\<close>

text \<open>
  \<^verbatim>\<open>out << std::setprecision(12) << static_cast<double>(n) / 1e9\<close>. A non-negative double is written here
  as a multiple of \<^verbatim>\<open>2^-90\<close>, which is exact for every double between \<^verbatim>\<open>1e-9\<close> and \<^verbatim>\<open>2^64\<close>; conversion and
  division round to 53 bits, ties to even, and the stream prints what the \<^verbatim>\<open>%.12g\<close> conversion does:
  twelve significant digits without trailing zeros, in exponent notation below \<^verbatim>\<open>1e-4\<close>.
\<close>

definition round_half_even :: "nat \<Rightarrow> nat \<Rightarrow> nat" where
  "round_half_even a b =
     (let q = a div b; r = a mod b
      in if 2 * r < b \<or> 2 * r = b \<and> even q then q else Suc q)"

fun bit_length :: "nat \<Rightarrow> nat" where
  "bit_length n = (if n = 0 then 0 else Suc (bit_length (n div 2)))"

definition double_quotient :: "nat \<Rightarrow> nat \<Rightarrow> nat" where
  "double_quotient a b =
     (let x = a * 2 ^ 90 div b; s = 2 ^ (bit_length x - 53)
      in round_half_even (a * 2 ^ 90) (b * s) * s)"

definition nanos_to_seconds :: "nat \<Rightarrow> nat" where
  "nanos_to_seconds n = double_quotient (double_quotient n 1) (2 ^ 90 * 1000000000)"

text \<open>The number of powers of ten that lift \<open>x / 2 ^ 90\<close>, when it is not zero, to at least one.\<close>

function leading_zeros :: "nat \<Rightarrow> nat" where
  "leading_zeros x = (if x = 0 \<or> 2 ^ 90 \<le> x then 0 else Suc (leading_zeros (10 * x)))"
  by pat_completeness auto
termination
  by (relation "measure (\<lambda>x. 2 ^ 90 - x)") auto

declare leading_zeros.simps [simp del]

definition strip_zeros :: "string \<Rightarrow> string" where
  "strip_zeros s = rev (dropWhile (\<lambda>c. c = CHR ''0'') (rev s))"

definition pad_zeros :: "nat \<Rightarrow> string \<Rightarrow> string" where
  "pad_zeros n s = replicate (n - length s) (CHR ''0'') @ s"

definition with_fraction :: "string \<Rightarrow> string \<Rightarrow> string" where
  "with_fraction whole frac = (if strip_zeros frac = [] then whole else whole @ ''.'' @ strip_zeros frac)"

definition show_general_12 :: "nat \<Rightarrow> string" where
  "show_general_12 x =
     (if x = 0 then ''0''
      else if 2 ^ 90 \<le> x then
        let whole = length (to_string (x div 2 ^ 90));
            places = 12 - whole;
            d = round_half_even (x * 10 ^ places) (2 ^ 90)
        in with_fraction (to_string (d div 10 ^ places)) (pad_zeros places (to_string (d mod 10 ^ places)))
      else
        let z0 = leading_zeros x;
            d0 = round_half_even (x * 10 ^ (11 + z0)) (2 ^ 90);
            z = (if d0 = 10 ^ 12 then z0 - 1 else z0);
            d = (if d0 = 10 ^ 12 then 10 ^ 11 else d0)
        in if z = 0 then ''1''
           else if z \<le> 4 then with_fraction ''0'' (pad_zeros (11 + z) (to_string d))
           else with_fraction (to_string (d div 10 ^ 11)) (pad_zeros 11 (to_string (d mod 10 ^ 11))) @
                ''e-'' @ pad_zeros 2 (to_string z))"

definition show_seconds :: "u64 \<Rightarrow> string" where
  "show_seconds n = show_general_12 (nanos_to_seconds (unat n))"

section \<open>State\<close>

record UpstreamMetrics =
  upstream_label :: string
  selections :: u64

record MetricsRegistry =
  upstreams :: "UpstreamMetrics list"
  requests :: u64
  health_requests :: u64
  metrics_requests :: u64
  proxy_requests :: u64
  cache_hits :: u64
  cache_misses :: u64
  coalescing_leaders :: u64
  coalescing_waiters :: u64
  bad_gateway :: u64
  service_unavailable :: u64
  gateway_timeout :: u64
  health_transitions :: u64
  proxy_in_flight :: u64
  duration_count :: u64
  duration_sum_nanos :: u64
  duration_buckets :: "u64 list"

text \<open>
  The bucket bounds in nanoseconds. The code compares \<^verbatim>\<open>double\<close> seconds: the quotient by \<^verbatim>\<open>1e9\<close> and the
  literals are rounded with a relative error below \<^verbatim>\<open>2^-52\<close>, while neighbouring nanosecond counts near
  a bound differ by more than \<^verbatim>\<open>1e-10\<close> of it, so the comparison decides as the exact one does.
\<close>

definition bucket_bounds :: "nanos list" where
  "bucket_bounds = [1000000, 5000000, 10000000, 50000000, 100000000, 500000000, 1000000000, 5000000000]"

definition bucket_labels :: "string list" where
  "bucket_labels = [''0.001'', ''0.005'', ''0.01'', ''0.05'', ''0.1'', ''0.5'', ''1'', ''5'']"

definition endpoint_label :: "UpstreamEndpoint \<Rightarrow> string" where
  "endpoint_label e = host e @ '':'' @ to_string (unat (port e))"

definition MetricsRegistry_new :: "UpstreamPool \<Rightarrow> MetricsRegistry result" where
  "MetricsRegistry_new pool =
     rbind (rmap (\<lambda>i. rbind (pool_endpoint pool i)
                        (\<lambda>e. Inr \<lparr>upstream_label = endpoint_label e, selections = 0\<rparr>))
              [0..<pool_size pool])
       (\<lambda>us. Inr \<lparr>upstreams = us, requests = 0, health_requests = 0, metrics_requests = 0,
                 proxy_requests = 0, cache_hits = 0, cache_misses = 0, coalescing_leaders = 0,
                 coalescing_waiters = 0, bad_gateway = 0, service_unavailable = 0, gateway_timeout = 0,
                 health_transitions = 0, proxy_in_flight = 0, duration_count = 0,
                 duration_sum_nanos = 0, duration_buckets = replicate (length bucket_bounds) 0\<rparr>)"

section \<open>Recording\<close>

definition record_request :: "MetricsRegistry \<Rightarrow> MetricsRegistry" where
  "record_request m = m\<lparr>requests := requests m + 1\<rparr>"

definition record_health_request :: "MetricsRegistry \<Rightarrow> MetricsRegistry" where
  "record_health_request m = m\<lparr>health_requests := health_requests m + 1\<rparr>"

definition record_metrics_request :: "MetricsRegistry \<Rightarrow> MetricsRegistry" where
  "record_metrics_request m = m\<lparr>metrics_requests := metrics_requests m + 1\<rparr>"

definition record_proxy_request :: "MetricsRegistry \<Rightarrow> MetricsRegistry" where
  "record_proxy_request m = m\<lparr>proxy_requests := proxy_requests m + 1\<rparr>"

definition record_cache_hit :: "MetricsRegistry \<Rightarrow> MetricsRegistry" where
  "record_cache_hit m = m\<lparr>cache_hits := cache_hits m + 1\<rparr>"

definition record_cache_miss :: "MetricsRegistry \<Rightarrow> MetricsRegistry" where
  "record_cache_miss m = m\<lparr>cache_misses := cache_misses m + 1\<rparr>"

definition record_coalescing_leader :: "MetricsRegistry \<Rightarrow> MetricsRegistry" where
  "record_coalescing_leader m = m\<lparr>coalescing_leaders := coalescing_leaders m + 1\<rparr>"

definition record_coalescing_waiter :: "MetricsRegistry \<Rightarrow> MetricsRegistry" where
  "record_coalescing_waiter m = m\<lparr>coalescing_waiters := coalescing_waiters m + 1\<rparr>"

definition record_health_transition :: "MetricsRegistry \<Rightarrow> MetricsRegistry" where
  "record_health_transition m = m\<lparr>health_transitions := health_transitions m + 1\<rparr>"

definition proxy_started :: "MetricsRegistry \<Rightarrow> MetricsRegistry" where
  "proxy_started m = m\<lparr>proxy_in_flight := proxy_in_flight m + 1\<rparr>"

definition proxy_completed :: "MetricsRegistry \<Rightarrow> MetricsRegistry" where
  "proxy_completed m = m\<lparr>proxy_in_flight := proxy_in_flight m - 1\<rparr>"

definition record_response_status :: "nat \<Rightarrow> MetricsRegistry \<Rightarrow> MetricsRegistry" where
  "record_response_status status m =
     (if status = 502 then m\<lparr>bad_gateway := bad_gateway m + 1\<rparr>
      else if status = 503 then m\<lparr>service_unavailable := service_unavailable m + 1\<rparr>
      else if status = 504 then m\<lparr>gateway_timeout := gateway_timeout m + 1\<rparr>
      else m)"

primrec bump_selection :: "string \<Rightarrow> UpstreamMetrics list \<Rightarrow> UpstreamMetrics list" where
  "bump_selection upstream [] = []"
| "bump_selection upstream (u # us) =
     (if upstream_label u = upstream then u\<lparr>selections := selections u + 1\<rparr> # us
      else u # bump_selection upstream us)"

definition record_upstream_selection :: "string \<Rightarrow> MetricsRegistry \<Rightarrow> MetricsRegistry" where
  "record_upstream_selection upstream m = m\<lparr>upstreams := bump_selection upstream (upstreams m)\<rparr>"

definition observe_duration :: "nanos \<Rightarrow> MetricsRegistry \<Rightarrow> MetricsRegistry" where
  "observe_duration d m =
     m\<lparr>duration_count := duration_count m + 1,
       duration_sum_nanos := duration_sum_nanos m + of_int d,
       duration_buckets := map2 (\<lambda>bound n. if d \<le> bound then n + 1 else n) bucket_bounds (duration_buckets m)\<rparr>"

section \<open>Exposition\<close>

definition counter :: "string \<Rightarrow> u64 \<Rightarrow> string" where
  "counter name val = name @ '' '' @ to_string (unat val) @ newline"

definition render_counters :: "MetricsRegistry \<Rightarrow> string" where
  "render_counters m =
     ''# TYPE eventedge_requests_total counter'' @ newline @
     counter ''eventedge_requests_total'' (requests m) @
     counter ''eventedge_local_health_requests_total'' (health_requests m) @
     counter ''eventedge_metrics_requests_total'' (metrics_requests m) @
     counter ''eventedge_proxy_requests_total'' (proxy_requests m) @
     counter ''eventedge_cache_hits_total'' (cache_hits m) @
     counter ''eventedge_cache_misses_total'' (cache_misses m) @
     counter ''eventedge_coalescing_leaders_total'' (coalescing_leaders m) @
     counter ''eventedge_coalescing_waiters_total'' (coalescing_waiters m) @
     counter ''eventedge_bad_gateway_total'' (bad_gateway m) @
     counter ''eventedge_service_unavailable_total'' (service_unavailable m) @
     counter ''eventedge_gateway_timeout_total'' (gateway_timeout m) @
     counter ''eventedge_upstream_health_transitions_total'' (health_transitions m) @
     counter ''eventedge_proxy_in_flight'' (proxy_in_flight m)"

definition render_duration :: "MetricsRegistry \<Rightarrow> string" where
  "render_duration m =
     concat (map2 (\<lambda>le n. counter (''eventedge_request_duration_seconds_bucket{le=\"'' @ le @ ''\"}'') n)
               bucket_labels (duration_buckets m)) @
     counter ''eventedge_request_duration_seconds_bucket{le=\"+Inf\"}'' (duration_count m) @
     counter ''eventedge_request_duration_seconds_count'' (duration_count m) @
     ''eventedge_request_duration_seconds_sum '' @ show_seconds (duration_sum_nanos m) @ newline"

definition render_upstream :: "UpstreamPool \<Rightarrow> MetricsRegistry \<Rightarrow> nat \<Rightarrow> string result" where
  "render_upstream pool m i =
     (let u = upstreams m ! i
      in rbind (is_healthy pool i)
           (\<lambda>h. Inr (counter (''eventedge_upstream_selections_total{upstream=\"'' @ upstream_label u @ ''\"}'') (selections u) @
                     counter (''eventedge_upstream_healthy{upstream=\"'' @ upstream_label u @ ''\"}'') (if h then 1 else 0))))"

definition render :: "UpstreamPool \<Rightarrow> MetricsRegistry \<Rightarrow> string result" where
  "render pool m =
     rbind (rmap (render_upstream pool m) [0..<length (upstreams m)])
       (\<lambda>us. Inr (render_counters m @ render_duration m @ concat us))"

section \<open>Runs of the registry\<close>

datatype metric_op =
    Request | Health_request | Metrics_request | Proxy_request | Cache_hit | Cache_miss
  | Coalescing_leader | Coalescing_waiter | Health_transition | Proxy_started | Proxy_completed
  | Response_status nat | Upstream_selection string | Observe_duration nanos

fun metrics_step :: "metric_op \<Rightarrow> MetricsRegistry \<Rightarrow> MetricsRegistry" where
  "metrics_step Request = record_request"
| "metrics_step Health_request = record_health_request"
| "metrics_step Metrics_request = record_metrics_request"
| "metrics_step Proxy_request = record_proxy_request"
| "metrics_step Cache_hit = record_cache_hit"
| "metrics_step Cache_miss = record_cache_miss"
| "metrics_step Coalescing_leader = record_coalescing_leader"
| "metrics_step Coalescing_waiter = record_coalescing_waiter"
| "metrics_step Health_transition = record_health_transition"
| "metrics_step Proxy_started = proxy_started"
| "metrics_step Proxy_completed = proxy_completed"
| "metrics_step (Response_status n) = record_response_status n"
| "metrics_step (Upstream_selection l) = record_upstream_selection l"
| "metrics_step (Observe_duration d) = observe_duration d"

lemmas metrics_defs =
  record_request_def record_health_request_def record_metrics_request_def record_proxy_request_def
  record_cache_hit_def record_cache_miss_def record_coalescing_leader_def record_coalescing_waiter_def
  record_health_transition_def proxy_started_def proxy_completed_def record_response_status_def
  record_upstream_selection_def observe_duration_def

definition metrics_run :: "metric_op list \<Rightarrow> MetricsRegistry \<Rightarrow> MetricsRegistry" where
  "metrics_run ops m = fold metrics_step ops m"

text \<open>
  What the registry has to show after \<open>ops\<close>, written directly as counts of the operations. A label
  carries its selections at its first occurrence only.
\<close>

fun durations :: "metric_op list \<Rightarrow> nanos list" where
  "durations [] = []"
| "durations (Observe_duration d # ops) = d # durations ops"
| "durations (_ # ops) = durations ops"

definition occurrences :: "metric_op list \<Rightarrow> metric_op \<Rightarrow> u64" where
  "occurrences ops x = of_nat (count_list ops x)"

fun tally_selections :: "metric_op list \<Rightarrow> string list \<Rightarrow> string list \<Rightarrow> UpstreamMetrics list" where
  "tally_selections ops seen [] = []"
| "tally_selections ops seen (l # ls) =
     \<lparr>upstream_label = l, selections = (if l \<in> set seen then 0 else occurrences ops (Upstream_selection l))\<rparr>
       # tally_selections ops (l # seen) ls"

definition tally :: "string list \<Rightarrow> metric_op list \<Rightarrow> MetricsRegistry" where
  "tally labels ops =
     \<lparr>upstreams = tally_selections ops [] labels,
      requests = occurrences ops Request, health_requests = occurrences ops Health_request,
      metrics_requests = occurrences ops Metrics_request, proxy_requests = occurrences ops Proxy_request,
      cache_hits = occurrences ops Cache_hit, cache_misses = occurrences ops Cache_miss,
      coalescing_leaders = occurrences ops Coalescing_leader,
      coalescing_waiters = occurrences ops Coalescing_waiter,
      bad_gateway = occurrences ops (Response_status 502),
      service_unavailable = occurrences ops (Response_status 503),
      gateway_timeout = occurrences ops (Response_status 504),
      health_transitions = occurrences ops Health_transition,
      proxy_in_flight = occurrences ops Proxy_started - occurrences ops Proxy_completed,
      duration_count = of_nat (length (durations ops)),
      duration_sum_nanos = of_int (sum_list (durations ops)),
      duration_buckets = map (\<lambda>b. of_nat (length (filter (\<lambda>d. d \<le> b) (durations ops)))) bucket_bounds\<rparr>"

lemma durations_snoc [simp]:
  "durations (ops @ [x]) = durations ops @ (case x of Observe_duration d \<Rightarrow> [d] | _ \<Rightarrow> [])"
  by (induction ops rule: durations.induct) (auto split: metric_op.split)

lemma occurrences_snoc [simp]:
  "occurrences (ops @ [x]) y = occurrences ops y + (if x = y then 1 else 0)"
  by (simp add: occurrences_def)

lemma tally_selections_other:
  "(\<And>l. x \<noteq> Upstream_selection l) \<Longrightarrow>
     tally_selections (ops @ [x]) seen labels = tally_selections ops seen labels"
  by (induction labels arbitrary: seen) auto

lemma tally_selections_seen:
  "l \<in> set seen \<Longrightarrow>
     tally_selections (ops @ [Upstream_selection l]) seen labels = tally_selections ops seen labels"
  by (induction labels arbitrary: seen) auto

lemma tally_selections_bump:
  "l \<notin> set seen \<Longrightarrow>
     tally_selections (ops @ [Upstream_selection l]) seen labels =
       bump_selection l (tally_selections ops seen labels)"
  by (induction labels arbitrary: seen) (auto simp: tally_selections_seen)

lemma tally_snoc: "tally labels (ops @ [x]) = metrics_step x (tally labels ops)"
proof (cases x)
  case (Observe_duration d)
  then show ?thesis
    by (simp add: tally_def metrics_defs tally_selections_other bucket_bounds_def)
next
  case (Upstream_selection l)
  then show ?thesis
    by (simp add: tally_def metrics_defs tally_selections_bump)
qed (simp_all add: tally_def metrics_defs tally_selections_other)

lemma metrics_run_tally: "metrics_run ops (tally labels []) = tally labels ops"
  by (induction ops rule: rev_induct) (simp_all add: metrics_run_def tally_snoc)

lemma tally_selections_Nil:
  "tally_selections [] seen labels = map (\<lambda>l. \<lparr>upstream_label = l, selections = 0\<rparr>) labels"
  by (induction labels arbitrary: seen) (auto simp: occurrences_def)

lemma MetricsRegistry_new_tally [totality]:
  "MetricsRegistry_new pool = Inr (tally (map (\<lambda>b. endpoint_label (backend_endpoint b)) (backends pool)) [])"
proof -
  have "rmap (\<lambda>i. rbind (pool_endpoint pool i) (\<lambda>e. Inr \<lparr>upstream_label = endpoint_label e, selections = 0\<rparr>))
      [0..<pool_size pool] =
      Inr (map (\<lambda>b. \<lparr>upstream_label = endpoint_label (backend_endpoint b), selections = 0\<rparr>) (backends pool))"
    by (auto simp: rmap_eq_Inr list_all2_conv_all_nth pool_size_def pool_endpoint_def backend_at_def)
  then show ?thesis
    by (simp add: MetricsRegistry_new_def tally_def tally_selections_Nil comp_def bucket_bounds_def
        occurrences_def)
qed

section \<open>Single atomic updates\<close>

lemma length_filter_mono: "(\<And>x. P x \<Longrightarrow> Q x) \<Longrightarrow> length (filter P xs) \<le> length (filter Q xs)"
  by (induction xs) auto

text \<open>
  The operations above are single steps, but the code makes \<open>observe_duration\<close> of up to ten separate
  \<^verbatim>\<open>fetch_add\<close>s, between which other threads update the same atomics, and all of them are relaxed. Here
  every operation is the list of the atomic updates it makes: the atomic and the amount added.
\<close>

datatype atomic =
    A_requests | A_health_requests | A_metrics_requests | A_proxy_requests | A_cache_hits | A_cache_misses
  | A_coalescing_leaders | A_coalescing_waiters | A_bad_gateway | A_service_unavailable | A_gateway_timeout
  | A_health_transitions | A_proxy_in_flight | A_duration_count | A_duration_sum_nanos
  | A_duration_bucket nat | A_selections string

fun atomic_updates :: "metric_op \<Rightarrow> (atomic \<times> u64) list" where
  "atomic_updates Request = [(A_requests, 1)]"
| "atomic_updates Health_request = [(A_health_requests, 1)]"
| "atomic_updates Metrics_request = [(A_metrics_requests, 1)]"
| "atomic_updates Proxy_request = [(A_proxy_requests, 1)]"
| "atomic_updates Cache_hit = [(A_cache_hits, 1)]"
| "atomic_updates Cache_miss = [(A_cache_misses, 1)]"
| "atomic_updates Coalescing_leader = [(A_coalescing_leaders, 1)]"
| "atomic_updates Coalescing_waiter = [(A_coalescing_waiters, 1)]"
| "atomic_updates Health_transition = [(A_health_transitions, 1)]"
| "atomic_updates Proxy_started = [(A_proxy_in_flight, 1)]"
| "atomic_updates Proxy_completed = [(A_proxy_in_flight, - 1)]"
| "atomic_updates (Response_status status) =
     (if status = 502 then [(A_bad_gateway, 1)]
      else if status = 503 then [(A_service_unavailable, 1)]
      else if status = 504 then [(A_gateway_timeout, 1)]
      else [])"
| "atomic_updates (Upstream_selection upstream) = [(A_selections upstream, 1)]"
| "atomic_updates (Observe_duration d) =
     [(A_duration_count, 1), (A_duration_sum_nanos, of_int d)] @
     map (\<lambda>i. (A_duration_bucket i, 1)) (filter (\<lambda>i. d \<le> bucket_bounds ! i) [0..<length bucket_bounds])"

primrec add_selections :: "string \<Rightarrow> u64 \<Rightarrow> UpstreamMetrics list \<Rightarrow> UpstreamMetrics list" where
  "add_selections upstream v [] = []"
| "add_selections upstream v (u # us) =
     (if upstream_label u = upstream then u\<lparr>selections := selections u + v\<rparr> # us
      else u # add_selections upstream v us)"

text \<open>\<^verbatim>\<open>fetch_add\<close>; the labels never change, so the one \<^verbatim>\<open>record_upstream_selection\<close> finds is the first.\<close>

fun fetch_add :: "atomic \<times> u64 \<Rightarrow> MetricsRegistry \<Rightarrow> MetricsRegistry" where
  "fetch_add (A_requests, v) m = m\<lparr>requests := requests m + v\<rparr>"
| "fetch_add (A_health_requests, v) m = m\<lparr>health_requests := health_requests m + v\<rparr>"
| "fetch_add (A_metrics_requests, v) m = m\<lparr>metrics_requests := metrics_requests m + v\<rparr>"
| "fetch_add (A_proxy_requests, v) m = m\<lparr>proxy_requests := proxy_requests m + v\<rparr>"
| "fetch_add (A_cache_hits, v) m = m\<lparr>cache_hits := cache_hits m + v\<rparr>"
| "fetch_add (A_cache_misses, v) m = m\<lparr>cache_misses := cache_misses m + v\<rparr>"
| "fetch_add (A_coalescing_leaders, v) m = m\<lparr>coalescing_leaders := coalescing_leaders m + v\<rparr>"
| "fetch_add (A_coalescing_waiters, v) m = m\<lparr>coalescing_waiters := coalescing_waiters m + v\<rparr>"
| "fetch_add (A_bad_gateway, v) m = m\<lparr>bad_gateway := bad_gateway m + v\<rparr>"
| "fetch_add (A_service_unavailable, v) m = m\<lparr>service_unavailable := service_unavailable m + v\<rparr>"
| "fetch_add (A_gateway_timeout, v) m = m\<lparr>gateway_timeout := gateway_timeout m + v\<rparr>"
| "fetch_add (A_health_transitions, v) m = m\<lparr>health_transitions := health_transitions m + v\<rparr>"
| "fetch_add (A_proxy_in_flight, v) m = m\<lparr>proxy_in_flight := proxy_in_flight m + v\<rparr>"
| "fetch_add (A_duration_count, v) m = m\<lparr>duration_count := duration_count m + v\<rparr>"
| "fetch_add (A_duration_sum_nanos, v) m = m\<lparr>duration_sum_nanos := duration_sum_nanos m + v\<rparr>"
| "fetch_add (A_duration_bucket i, v) m =
     m\<lparr>duration_buckets := (duration_buckets m)[i := duration_buckets m ! i + v]\<rparr>"
| "fetch_add (A_selections l, v) m = m\<lparr>upstreams := add_selections l v (upstreams m)\<rparr>"

lemma add_selections_one: "add_selections l 1 us = bump_selection l us"
  by (induction us) auto

lemma add_selections_commute:
  "add_selections k v (add_selections l w us) = add_selections l w (add_selections k v us)"
  by (induction us) (auto simp: add_ac)

lemma list_add_commute:
  "(xs[i := xs ! i + v])[j := xs[i := xs ! i + v] ! j + w] =
   (xs[j := xs ! j + w])[i := xs[j := xs ! j + w] ! i + (v :: u64)]"
  by (cases "i = j"; cases "i < length xs"; cases "j < length xs") (simp_all add: list_update_swap list_update_beyond add_ac not_less)

lemma fetch_add_commute: "fetch_add x (fetch_add y m) = fetch_add y (fetch_add x m)"
proof -
  obtain a v b w where xy: "x = (a, v)" "y = (b, w)"
    by (cases x, cases y)
  show ?thesis
    unfolding xy by (cases a; cases b; simp add: add.assoc add.commute [of v w] list_add_commute add_selections_commute)
qed

lemma fetch_add_bucket_list:
  "fold fetch_add (map (\<lambda>i. (A_duration_bucket i, v)) is) m =
     m\<lparr>duration_buckets := fold (\<lambda>i ns. ns[i := ns ! i + v]) is (duration_buckets m)\<rparr>"
  by (induction "is" arbitrary: m) simp_all

lemma fold_add_filter:
  "n \<le> length ns \<Longrightarrow> fold (\<lambda>i ns. ns[i := ns ! i + v]) (filter P [0..<n]) ns =
     map (\<lambda>i. if i < n \<and> P i then ns ! i + v else ns ! i) [0..<length ns]"
proof (induction n)
  case 0
  then show ?case by (simp add: map_nth)
next
  case (Suc n)
  let ?xs = "map (\<lambda>i. if i < n \<and> P i then ns ! i + v else ns ! i) [0..<length ns]"
  have "fold (\<lambda>i ns. ns[i := ns ! i + v]) (filter P [0..<Suc n]) ns = (if P n then ?xs[n := ?xs ! n + v] else ?xs)"
    using Suc by simp
  also have "\<dots> = map (\<lambda>i. if i < Suc n \<and> P i then ns ! i + v else ns ! i) [0..<length ns]"
    using Suc.prems by (cases "P n"; intro nth_equalityI) (auto simp: nth_list_update less_Suc_eq)
  finally show ?case .
qed

lemma atomic_updates_step:
  assumes "length (duration_buckets m) = length bucket_bounds"
  shows "fold fetch_add (atomic_updates x) m = metrics_step x m"
proof (cases x)
  case (Observe_duration d)
  have "map (\<lambda>i. if i < length bucket_bounds \<and> d \<le> bucket_bounds ! i then ns ! i + 1 else ns ! i) [0..<length ns] =
      map2 (\<lambda>bound n. if d \<le> bound then n + 1 else n) bucket_bounds ns"
    if "length ns = length bucket_bounds" for ns :: "u64 list"
    using that by (intro nth_equalityI) simp_all
  with assms Observe_duration show ?thesis
    by (simp add: metrics_defs fetch_add_bucket_list fold_add_filter)
qed (simp_all add: metrics_defs add_selections_one)

lemma metrics_step_buckets:
  "length (duration_buckets m) = length bucket_bounds \<Longrightarrow>
   length (duration_buckets (metrics_step x m)) = length bucket_bounds"
  by (cases x) (simp_all add: metrics_defs)

lemma atomic_updates_run:
  "length (duration_buckets m) = length bucket_bounds \<Longrightarrow>
   fold fetch_add (concat (map atomic_updates ops)) m = metrics_run ops m"
  by (induction ops arbitrary: m) (simp_all add: metrics_run_def atomic_updates_step metrics_step_buckets)

lemma metrics_frames [frames]:
  "map upstream_label (upstreams (metrics_step x m)) = map upstream_label (upstreams m)"
proof -
  have "map upstream_label (bump_selection l us) = map upstream_label us" for l us
    by (induction us) auto
  then show ?thesis
    by (cases x) (simp_all add: metrics_defs)
qed

section \<open>The exposition format\<close>

fun text_lines :: "string \<Rightarrow> string list" where
  "text_lines [] = []"
| "text_lines (c # cs) =
     (if c = CHR 0x0A then [] # text_lines cs
      else case text_lines cs of [] \<Rightarrow> [[c]] | l # ls \<Rightarrow> (c # l) # ls)"

definition parse_sample :: "string \<Rightarrow> string \<times> string" where
  "parse_sample l = (takeWhile (\<lambda>c. c \<noteq> CHR '' '') l, drop 1 (dropWhile (\<lambda>c. c \<noteq> CHR '' '') l))"

definition parse_samples :: "string \<Rightarrow> (string \<times> string) list" where
  "parse_samples txt = map parse_sample (text_lines txt)"

definition plain :: "string \<Rightarrow> bool" where
  "plain s \<longleftrightarrow> CHR '' '' \<notin> set s \<and> CHR 0x0A \<notin> set s"

definition samples :: "UpstreamPool \<Rightarrow> MetricsRegistry \<Rightarrow> (string \<times> string) list" where
  "samples pool m =
     (let nat_sample = (\<lambda>(name, v). (name, to_string (unat v)))
      in (''#'', ''TYPE eventedge_requests_total counter'') #
         map nat_sample
           [(''eventedge_requests_total'', requests m),
            (''eventedge_local_health_requests_total'', health_requests m),
            (''eventedge_metrics_requests_total'', metrics_requests m),
            (''eventedge_proxy_requests_total'', proxy_requests m),
            (''eventedge_cache_hits_total'', cache_hits m),
            (''eventedge_cache_misses_total'', cache_misses m),
            (''eventedge_coalescing_leaders_total'', coalescing_leaders m),
            (''eventedge_coalescing_waiters_total'', coalescing_waiters m),
            (''eventedge_bad_gateway_total'', bad_gateway m),
            (''eventedge_service_unavailable_total'', service_unavailable m),
            (''eventedge_gateway_timeout_total'', gateway_timeout m),
            (''eventedge_upstream_health_transitions_total'', health_transitions m),
            (''eventedge_proxy_in_flight'', proxy_in_flight m)] @
         map nat_sample
           (zip (map (\<lambda>le. ''eventedge_request_duration_seconds_bucket{le=\"'' @ le @ ''\"}'') bucket_labels)
              (duration_buckets m)) @
         map nat_sample
           [(''eventedge_request_duration_seconds_bucket{le=\"+Inf\"}'', duration_count m),
            (''eventedge_request_duration_seconds_count'', duration_count m)] @
         [(''eventedge_request_duration_seconds_sum'', show_seconds (duration_sum_nanos m))] @
         concat (map2 (\<lambda>u b. map nat_sample
             [(''eventedge_upstream_selections_total{upstream=\"'' @ upstream_label u @ ''\"}'', selections u),
              (''eventedge_upstream_healthy{upstream=\"'' @ upstream_label u @ ''\"}'', if backend_healthy b then 1 else 0)])
           (upstreams m) (backends pool)))"

definition sample_line :: "string \<times> string \<Rightarrow> string" where
  "sample_line p = fst p @ '' '' @ snd p @ newline"

lemma text_lines_append:
  "CHR 0x0A \<notin> set l \<Longrightarrow> text_lines (l @ CHR 0x0A # rest) = l # text_lines rest"
  by (induction l) auto

lemma parse_samples_lines:
  assumes "\<forall>p \<in> set ps. plain (fst p) \<and> CHR 0x0A \<notin> set (snd p)"
  shows "parse_samples (concat (map sample_line ps)) = ps"
  using assms
proof (induction ps)
  case Nil
  then show ?case by (simp add: parse_samples_def)
next
  case (Cons p ps)
  have "text_lines (concat (map sample_line (p # ps))) =
      (fst p @ '' '' @ snd p) # text_lines (concat (map sample_line ps))"
    using Cons.prems text_lines_append [of "fst p @ '' '' @ snd p"]
    by (simp add: sample_line_def newline_def plain_def)
  moreover have "parse_sample (fst p @ '' '' @ snd p) = p"
    using Cons.prems by (auto simp: parse_sample_def plain_def takeWhile_append dropWhile_append)
  ultimately show ?case
    using Cons by (simp add: parse_samples_def)
qed

lemma not_digit_newline: "list_all is_digit s \<Longrightarrow> CHR 0x0A \<notin> set s"
  by (auto simp: list_all_iff is_digit_def)

lemma newline_not_in_to_string [simp]: "CHR 0x0A \<notin> set (to_string n)"
  by (rule not_digit_newline [OF to_string_digits])

lemma newline_not_in_fraction:
  "CHR 0x0A \<notin> set a \<Longrightarrow> CHR 0x0A \<notin> set b \<Longrightarrow> CHR 0x0A \<notin> set (with_fraction a b)"
  by (auto simp: with_fraction_def strip_zeros_def dest: set_dropWhileD)

lemma newline_not_in_padded [simp]: "CHR 0x0A \<notin> set (pad_zeros n (to_string k))"
  by (auto simp: pad_zeros_def simp del: to_string.simps)

lemma newline_not_in_seconds [simp]: "CHR 0x0A \<notin> set (show_seconds n)"
  by (simp add: show_seconds_def show_general_12_def Let_def newline_not_in_fraction
      del: to_string.simps)

lemma counter_line: "counter name v = sample_line (name, to_string (unat v))"
  by (simp add: counter_def sample_line_def)

lemma render_upstreams:
  assumes "length us = length bs"
  shows "concat (map2 (\<lambda>u b. counter (''eventedge_upstream_selections_total{upstream=\"'' @ upstream_label u @ ''\"}'') (selections u) @
      counter (''eventedge_upstream_healthy{upstream=\"'' @ upstream_label u @ ''\"}'') (if backend_healthy b then 1 else 0)) us bs) =
    concat (map sample_line (concat (map2 (\<lambda>u b. map (\<lambda>(name, v). (name, to_string (unat v)))
      [(''eventedge_upstream_selections_total{upstream=\"'' @ upstream_label u @ ''\"}'', selections u),
       (''eventedge_upstream_healthy{upstream=\"'' @ upstream_label u @ ''\"}'', if backend_healthy b then 1 else 0)]) us bs)))"
  using assms by (induction us bs rule: list_induct2) (simp_all add: counter_line del: to_string.simps)

lemma render_buckets:
  "concat (map2 (\<lambda>le n. counter (''eventedge_request_duration_seconds_bucket{le=\"'' @ le @ ''\"}'') n) ls ns) =
   concat (map sample_line (map (\<lambda>(name, v). (name, to_string (unat v)))
     (zip (map (\<lambda>le. ''eventedge_request_duration_seconds_bucket{le=\"'' @ le @ ''\"}'') ls) ns)))"
proof (induction ls arbitrary: ns)
  case (Cons l ls)
  then show ?case
    by (cases ns) (simp_all add: counter_line del: to_string.simps)
qed simp

lemma render_samples [totality]:
  assumes "length (upstreams m) = pool_size pool"
  shows "render pool m = Inr (concat (map sample_line (samples pool m)))"
proof -
  let ?up = "\<lambda>u b. counter (''eventedge_upstream_selections_total{upstream=\"'' @ upstream_label u @ ''\"}'') (selections u) @
      counter (''eventedge_upstream_healthy{upstream=\"'' @ upstream_label u @ ''\"}'') (if backend_healthy b then 1 else 0)"
  have len: "length (upstreams m) = length (backends pool)"
    using assms by (simp add: pool_size_def)
  then have "rmap (render_upstream pool m) [0..<length (upstreams m)] = Inr (map2 ?up (upstreams m) (backends pool))"
    by (auto simp: rmap_eq_Inr list_all2_conv_all_nth render_upstream_def is_healthy_def backend_at_def Let_def)
  then have "render pool m =
      Inr (render_counters m @ render_duration m @ concat (map2 ?up (upstreams m) (backends pool)))"
    by (simp add: render_def)
  also have "render_counters m @ render_duration m @ concat (map2 ?up (upstreams m) (backends pool)) =
      concat (map sample_line (samples pool m))"
    unfolding render_upstreams [OF len] render_counters_def render_duration_def render_buckets samples_def
    by (simp add: Let_def counter_line sample_line_def del: to_string.simps)
  finally show ?thesis .
qed

lemma plain_samples:
  assumes "\<forall>u \<in> set (upstreams m). plain (upstream_label u)"
  shows "\<forall>p \<in> set (samples pool m). plain (fst p) \<and> CHR 0x0A \<notin> set (snd p)"
  using assms
  by (auto simp: samples_def Let_def plain_def bucket_labels_def simp del: to_string.simps
      dest!: set_zip_leftD)

section \<open>Properties\<close>

text \<open>C26. After any sequence of recordings a fresh registry holds exactly the counts of what was
  recorded, modulo \<^verbatim>\<open>2^64\<close>: each counter its own operation, the status counters the 502, 503 and 504
  responses only, the gauge the starts minus the completions, the buckets the observations at or below
  their bound, and each endpoint label its selections.\<close>

theorem metrics_exact_counts:
  assumes "MetricsRegistry_new pool = Inr m"
  shows "metrics_run ops m = tally (map (\<lambda>b. endpoint_label (backend_endpoint b)) (backends pool)) ops"
  using assms by (auto simp: MetricsRegistry_new_tally metrics_run_tally)

theorem metrics_exact_counts_witness:
  "let pool = \<lparr>backends = [\<lparr>backend_endpoint = \<lparr>host = ''a'', port = 80\<rparr>, backend_healthy = True\<rparr>], next_index = 0\<rparr>
   in \<exists>m. MetricsRegistry_new pool = Inr m \<and>
        proxy_in_flight (metrics_run [Proxy_started, Proxy_started, Proxy_completed] m) = 1"
  using metrics_exact_counts
      [of "\<lparr>backends = [\<lparr>backend_endpoint = \<lparr>host = ''a'', port = 80\<rparr>, backend_healthy = True\<rparr>], next_index = 0\<rparr>"
        _ "[Proxy_started, Proxy_started, Proxy_completed]"]
  by (simp add: Let_def MetricsRegistry_new_tally tally_def occurrences_def)

text \<open>C27. Concurrent recordings lose and mix up nothing, at the level of the single atomic updates of the
  code: however the \<^verbatim>\<open>fetch_add\<close>s of any number of recordings interleave, also within one
  \<^verbatim>\<open>observe_duration\<close> and in whatever order the relaxed operations become visible, a fresh registry ends up
  with exactly the counts of what was recorded.\<close>

theorem metrics_relaxed_updates:
  assumes "MetricsRegistry_new pool = Inr m" and "mset us = mset (concat (map atomic_updates ops))"
  shows "fold fetch_add us m = tally (map (\<lambda>b. endpoint_label (backend_endpoint b)) (backends pool)) ops"
proof -
  have m: "m = tally (map (\<lambda>b. endpoint_label (backend_endpoint b)) (backends pool)) []"
    using assms(1) by (simp add: MetricsRegistry_new_tally)
  have "fold fetch_add us = fold fetch_add (concat (map atomic_updates ops))"
    using assms(2) by (intro fold_multiset_equiv) (auto simp: fun_eq_iff fetch_add_commute)
  moreover have "length (duration_buckets m) = length bucket_bounds"
    by (simp add: m tally_def)
  ultimately show ?thesis
    using metrics_run_tally by (simp add: atomic_updates_run) (simp add: m)
qed

theorem metrics_relaxed_updates_witness:
  "let pool = \<lparr>backends = [\<lparr>backend_endpoint = \<lparr>host = ''a'', port = 80\<rparr>, backend_healthy = True\<rparr>], next_index = 0\<rparr>
   in \<exists>m. MetricsRegistry_new pool = Inr m \<and>
        (let m' = fold fetch_add [(A_duration_count, 1), (A_duration_bucket 7, 1), (A_bad_gateway, 1),
           (A_duration_sum_nanos, 2000000000)] m
         in duration_count m' = 1 \<and> bad_gateway m' = 1 \<and> duration_buckets m' = [0, 0, 0, 0, 0, 0, 0, 1])"
proof -
  let ?pool = "\<lparr>backends = [\<lparr>backend_endpoint = \<lparr>host = ''a'', port = 80\<rparr>, backend_healthy = True\<rparr>], next_index = 0\<rparr>"
  let ?ops = "[Observe_duration 2000000000, Response_status 502]"
  let ?us = "[(A_duration_count, 1), (A_duration_bucket 7, 1), (A_bad_gateway, 1), (A_duration_sum_nanos, 2000000000)]"
  obtain m where m: "MetricsRegistry_new ?pool = Inr m"
    by (simp add: MetricsRegistry_new_tally)
  have "[0..<8] = [0, 1, 2, 3, 4, 5, 6, 7::nat]"
    by code_simp
  then have "mset ?us = mset (concat (map atomic_updates ?ops))"
    by (simp add: bucket_bounds_def add_mset_commute)
  note run = metrics_relaxed_updates [OF m this]
  show ?thesis
    unfolding Let_def
    by (rule exI [of _ m], unfold run) (simp add: m tally_def occurrences_def bucket_bounds_def)
qed

text \<open>C28. While fewer than \<^verbatim>\<open>2^64\<close> durations have been observed, the histogram is cumulative as the
  exposition format wants it: each bucket holds the number of observations at or below its bound, no
  bucket exceeds a later one, and none exceeds the count of the \<^verbatim>\<open>+Inf\<close> line.\<close>

theorem duration_histogram:
  fixes pool m ops
  assumes "MetricsRegistry_new pool = Inr m" and "length (durations ops) < 2 ^ 64"
    and "i \<le> j" and "j < length bucket_bounds"
  defines "m' \<equiv> metrics_run ops m"
  shows "unat (duration_buckets m' ! i) = length (filter (\<lambda>d. d \<le> bucket_bounds ! i) (durations ops)) \<and>
    duration_buckets m' ! i \<le> duration_buckets m' ! j \<and>
    duration_buckets m' ! j \<le> duration_count m' \<and>
    unat (duration_count m') = length (durations ops)"
proof -
  let ?le = "\<lambda>b. length (filter (\<lambda>d. d \<le> b) (durations ops))"
  have m': "m' = tally (map (\<lambda>b. endpoint_label (backend_endpoint b)) (backends pool)) ops"
    using assms(1) by (auto simp: m'_def MetricsRegistry_new_tally metrics_run_tally)
  have le: "?le b \<le> length (durations ops)" for b
    by (rule length_filter_le)
  then have unat: "unat (of_nat (?le b) :: u64) = ?le b" for b
    using assms(2) by (intro unat_u64) (rule le_less_trans)
  have "sorted bucket_bounds"
    by (simp add: bucket_bounds_def)
  then have "bucket_bounds ! i \<le> bucket_bounds ! j"
    using assms(3,4) by (rule sorted_nth_mono)
  then have "?le (bucket_bounds ! i) \<le> ?le (bucket_bounds ! j)"
    by (intro length_filter_mono) simp
  then show ?thesis
    using assms(2-4) le by (simp add: m' tally_def word_le_nat_alt unat unat_u64)
qed

theorem duration_histogram_witness:
  "let pool = \<lparr>backends = [\<lparr>backend_endpoint = \<lparr>host = ''a'', port = 80\<rparr>, backend_healthy = True\<rparr>], next_index = 0\<rparr>
   in \<exists>m. MetricsRegistry_new pool = Inr m \<and>
        unat (duration_buckets (metrics_run [Observe_duration 5, Observe_duration 6000000] m) ! 1) = 1"
proof -
  let ?pool = "\<lparr>backends = [\<lparr>backend_endpoint = \<lparr>host = ''a'', port = 80\<rparr>, backend_healthy = True\<rparr>], next_index = 0\<rparr>"
  obtain m where m: "MetricsRegistry_new ?pool = Inr m"
    by (simp add: MetricsRegistry_new_tally)
  then show ?thesis
    using duration_histogram [OF m, of "[Observe_duration 5, Observe_duration 6000000]" 1 1]
    by (auto simp: bucket_bounds_def)
qed

text \<open>C29. \<^verbatim>\<open>render\<close> does not throw for a registry of the pool's size, and a scraper that splits the
  text into lines and each line at its first blank reads back every sample under its name and in
  order, provided no endpoint label contains a blank or a line break.\<close>

theorem render_scrapes_back:
  assumes "length (upstreams m) = pool_size pool"
    and "\<forall>u \<in> set (upstreams m). plain (upstream_label u)"
  shows "\<exists>txt. render pool m = Inr txt \<and> parse_samples txt = samples pool m"
  using render_samples [OF assms(1)] parse_samples_lines [OF plain_samples [OF assms(2)]] by simp

theorem render_scrapes_back_witness:
  "let pool = \<lparr>backends = [\<lparr>backend_endpoint = \<lparr>host = ''a'', port = 80\<rparr>, backend_healthy = False\<rparr>], next_index = 0\<rparr>;
       m = tally [''a:80''] [Cache_hit]
   in \<exists>txt. render pool m = Inr txt \<and>
        map_of (parse_samples txt) ''eventedge_cache_hits_total'' = Some ''1'' \<and>
        map_of (parse_samples txt) ''eventedge_upstream_healthy{upstream=\"a:80\"}'' = Some ''0''"
proof -
  let ?pool = "\<lparr>backends = [\<lparr>backend_endpoint = \<lparr>host = ''a'', port = 80\<rparr>, backend_healthy = False\<rparr>], next_index = 0\<rparr>"
  have "length (upstreams (tally [''a:80''] [Cache_hit])) = pool_size ?pool"
    and "\<forall>u \<in> set (upstreams (tally [''a:80''] [Cache_hit])). plain (upstream_label u)"
    by (simp_all add: tally_def pool_size_def plain_def)
  then obtain out where "render ?pool (tally [''a:80''] [Cache_hit]) = Inr out"
      and "parse_samples out = samples ?pool (tally [''a:80''] [Cache_hit])"
    using render_scrapes_back [of "tally [''a:80''] [Cache_hit]" ?pool] by blast
  moreover have digits: "to_string 0 = ''0''" "to_string (Suc 0) = ''1''"
    by code_simp+
  moreover have "map_of (samples ?pool (tally [''a:80''] [Cache_hit])) ''eventedge_cache_hits_total'' = Some ''1''"
    and "map_of (samples ?pool (tally [''a:80''] [Cache_hit])) ''eventedge_upstream_healthy{upstream=\"a:80\"}'' = Some ''0''"
    by (simp_all add: samples_def tally_def occurrences_def bucket_labels_def bucket_bounds_def digits)
  ultimately show ?thesis
    by simp
qed

end
