(* ===== verification/Http_Message.thy ===== *)
theory Http_Message
  imports Prelude
begin

text \<open>
  HTTP messages. \<^verbatim>\<open>HttpRequest\<close> and \<^verbatim>\<open>HttpResponse\<close> (\<^verbatim>\<open>include/eventedge/http_handler.hpp\<close>) are
  Boost.Beast messages: records of their start line, header fields and body. What Beast computes on
  them (the field container, keep-alive, payload preparation, the end-of-file rule) is a parameter of
  the model, the record \<open>beast\<close> of its operations over an abstract type of field containers; every
  definition that calls Beast takes it as its first argument. \<open>beast_ok\<close> states the documented
  behaviour the code relies on, and \<open>list_beast\<close> is a container for which it holds.
\<close>

section \<open>Messages\<close>

datatype verb = verb_get | verb_trace | verb_other string

datatype field =
    F_server | F_content_type | F_allow | F_authorization | F_set_cookie | F_cache_control
  | F_connection | F_keep_alive | F_proxy_authenticate | F_proxy_authorization | F_te | F_trailer
  | F_transfer_encoding | F_upgrade | F_host | F_content_length | F_other

record 'f HttpRequest =
  req_method :: verb
  req_target :: string
  req_version :: nat
  req_fields :: 'f
  req_body :: string

record 'f HttpResponse =
  resp_result :: nat
  resp_version :: nat
  resp_fields :: 'f
  resp_body :: string

abbreviation status_ok :: nat where "status_ok \<equiv> 200"
abbreviation status_not_found :: nat where "status_not_found \<equiv> 404"
abbreviation status_method_not_allowed :: nat where "status_method_not_allowed \<equiv> 405"
abbreviation status_bad_gateway :: nat where "status_bad_gateway \<equiv> 502"
abbreviation status_service_unavailable :: nat where "status_service_unavailable \<equiv> 503"
abbreviation status_gateway_timeout :: nat where "status_gateway_timeout \<equiv> 504"

section \<open>The operations of Boost.Beast\<close>

type_synonym header = "string \<times> string"

record 'f beast =
  fields_empty :: 'f
  fields_list :: "'f \<Rightarrow> header list"
  string_to_field :: "string \<Rightarrow> field"
  set_field :: "field \<Rightarrow> string \<Rightarrow> 'f \<Rightarrow> 'f"
  erase_field :: "field \<Rightarrow> 'f \<Rightarrow> 'f"
  erase_name :: "string \<Rightarrow> 'f \<Rightarrow> 'f"
  find_field :: "field \<Rightarrow> 'f \<Rightarrow> string option"
  keep_alive_of :: "nat \<Rightarrow> 'f \<Rightarrow> bool"
  set_keep_alive :: "nat \<Rightarrow> bool \<Rightarrow> 'f \<Rightarrow> 'f"
  payload_fields_req :: "'f HttpRequest \<Rightarrow> 'f"
  payload_fields_resp :: "'f HttpResponse \<Rightarrow> 'f"
  payload_error_req :: "'f HttpRequest \<Rightarrow> cpp_error option"
  payload_error_resp :: "'f HttpResponse \<Rightarrow> cpp_error option"
  need_eof_of :: "'f HttpResponse \<Rightarrow> bool"

text \<open>The member functions of a message, as the sources call them; \<^verbatim>\<open>prepare_payload\<close> may throw.\<close>

definition req_keep_alive :: "'f beast \<Rightarrow> 'f HttpRequest \<Rightarrow> bool" where
  "req_keep_alive B r = keep_alive_of B (req_version r) (req_fields r)"

definition req_set_keep_alive :: "'f beast \<Rightarrow> bool \<Rightarrow> 'f HttpRequest \<Rightarrow> 'f HttpRequest" where
  "req_set_keep_alive B b r = r\<lparr>req_fields := set_keep_alive B (req_version r) b (req_fields r)\<rparr>"

definition req_set :: "'f beast \<Rightarrow> field \<Rightarrow> string \<Rightarrow> 'f HttpRequest \<Rightarrow> 'f HttpRequest" where
  "req_set B f v r = r\<lparr>req_fields := set_field B f v (req_fields r)\<rparr>"

definition req_payload :: "'f beast \<Rightarrow> 'f HttpRequest \<Rightarrow> 'f HttpRequest" where
  "req_payload B r = r\<lparr>req_fields := payload_fields_req B r\<rparr>"

definition req_prepare_payload :: "'f beast \<Rightarrow> 'f HttpRequest \<Rightarrow> 'f HttpRequest result" where
  "req_prepare_payload B r =
     (case payload_error_req B r of Some e \<Rightarrow> Inl e | None \<Rightarrow> Inr (req_payload B r))"

definition response_new :: "'f beast \<Rightarrow> nat \<Rightarrow> nat \<Rightarrow> 'f HttpResponse" where
  "response_new B status version =
     \<lparr>resp_result = status, resp_version = version, resp_fields = fields_empty B, resp_body = []\<rparr>"

definition resp_keep_alive :: "'f beast \<Rightarrow> 'f HttpResponse \<Rightarrow> bool" where
  "resp_keep_alive B r = keep_alive_of B (resp_version r) (resp_fields r)"

definition resp_set_keep_alive :: "'f beast \<Rightarrow> bool \<Rightarrow> 'f HttpResponse \<Rightarrow> 'f HttpResponse" where
  "resp_set_keep_alive B b r = r\<lparr>resp_fields := set_keep_alive B (resp_version r) b (resp_fields r)\<rparr>"

definition resp_set :: "'f beast \<Rightarrow> field \<Rightarrow> string \<Rightarrow> 'f HttpResponse \<Rightarrow> 'f HttpResponse" where
  "resp_set B f v r = r\<lparr>resp_fields := set_field B f v (resp_fields r)\<rparr>"

definition resp_payload :: "'f beast \<Rightarrow> 'f HttpResponse \<Rightarrow> 'f HttpResponse" where
  "resp_payload B r = r\<lparr>resp_fields := payload_fields_resp B r\<rparr>"

definition resp_prepare_payload :: "'f beast \<Rightarrow> 'f HttpResponse \<Rightarrow> 'f HttpResponse result" where
  "resp_prepare_payload B r =
     (case payload_error_resp B r of Some e \<Rightarrow> Inl e | None \<Rightarrow> Inr (resp_payload B r))"

section \<open>Documented behaviour\<close>

text \<open>Field names are compared without regard to ASCII case.\<close>

definition to_lower :: "char \<Rightarrow> char" where
  "to_lower c = (let n = of_char c :: nat in if 65 \<le> n \<and> n \<le> 90 then char_of (n + 32) else c)"

definition iequals :: "string \<Rightarrow> string \<Rightarrow> bool" where
  "iequals a b \<longleftrightarrow> map to_lower a = map to_lower b"

fun field_string :: "field \<Rightarrow> string" where
  "field_string F_server = ''Server''"
| "field_string F_content_type = ''Content-Type''"
| "field_string F_allow = ''Allow''"
| "field_string F_authorization = ''Authorization''"
| "field_string F_set_cookie = ''Set-Cookie''"
| "field_string F_cache_control = ''Cache-Control''"
| "field_string F_connection = ''Connection''"
| "field_string F_keep_alive = ''Keep-Alive''"
| "field_string F_proxy_authenticate = ''Proxy-Authenticate''"
| "field_string F_proxy_authorization = ''Proxy-Authorization''"
| "field_string F_te = ''TE''"
| "field_string F_trailer = ''Trailer''"
| "field_string F_transfer_encoding = ''Transfer-Encoding''"
| "field_string F_upgrade = ''Upgrade''"
| "field_string F_host = ''Host''"
| "field_string F_content_length = ''Content-Length''"
| "field_string F_other = ''<unknown-field>''"

declare field_string.simps [simp del]

definition is_name :: "string \<Rightarrow> header \<Rightarrow> bool" where
  "is_name n h \<longleftrightarrow> iequals (fst h) n"

abbreviation is_field :: "field \<Rightarrow> header \<Rightarrow> bool" where
  "is_field f \<equiv> is_name (field_string f)"

text \<open>
  \<^verbatim>\<open>basic_fields\<close>: \<^verbatim>\<open>set\<close> leaves one field of the name and every other field as it was; \<^verbatim>\<open>erase\<close>
  removes all fields of the name; \<^verbatim>\<open>find\<close> and \<^verbatim>\<open>operator[]\<close> give the first; \<^verbatim>\<open>name()\<close> of an
  iterated field is the enumerator of its name.
\<close>

definition beast_fields_ok :: "'f beast \<Rightarrow> bool" where
  "beast_fields_ok B \<longleftrightarrow>
     fields_list B (fields_empty B) = [] \<and>
     (\<forall>f v fs. filter (\<lambda>h. \<not> is_field f h) (fields_list B (set_field B f v fs)) =
        filter (\<lambda>h. \<not> is_field f h) (fields_list B fs)) \<and>
     (\<forall>f v fs. map snd (filter (is_field f) (fields_list B (set_field B f v fs))) = [v]) \<and>
     (\<forall>f fs. fields_list B (erase_field B f fs) = filter (\<lambda>h. \<not> is_field f h) (fields_list B fs)) \<and>
     (\<forall>n fs. fields_list B (erase_name B n fs) = filter (\<lambda>h. \<not> is_name n h) (fields_list B fs)) \<and>
     (\<forall>f fs. find_field B f fs = map_option snd (List.find (is_field f) (fields_list B fs))) \<and>
     (\<forall>f n. f \<noteq> F_other \<longrightarrow> (string_to_field B n = f \<longleftrightarrow> iequals n (field_string f)))"

text \<open>
  \<^verbatim>\<open>message::keep_alive\<close>: the getter reads the version and the Connection fields only, and is false
  for an HTTP/1.1 message with \<^verbatim>\<open>Connection: close\<close>; the setter adjusts the Connection field only, and
  the getter then returns what was set.
\<close>

definition beast_keep_alive_ok :: "'f beast \<Rightarrow> bool" where
  "beast_keep_alive_ok B \<longleftrightarrow>
     (\<forall>v fs gs. filter (is_field F_connection) (fields_list B fs) =
        filter (is_field F_connection) (fields_list B gs) \<longrightarrow>
        keep_alive_of B v fs = keep_alive_of B v gs) \<and>
     (\<forall>fs. map snd (filter (is_field F_connection) (fields_list B fs)) = [''close''] \<longrightarrow>
        \<not> keep_alive_of B 11 fs) \<and>
     (\<forall>v b fs. keep_alive_of B v (set_keep_alive B v b fs) = b) \<and>
     (\<forall>v b fs. filter (\<lambda>h. \<not> is_field F_connection h) (fields_list B (set_keep_alive B v b fs)) =
        filter (\<lambda>h. \<not> is_field F_connection h) (fields_list B fs))"

text \<open>
  \<^verbatim>\<open>message::prepare_payload\<close> adjusts Content-Length and Transfer-Encoding only. For a body of known size,
  as \<^verbatim>\<open>string_body\<close> has, it adds no Transfer-Encoding and sets Content-Length on a response; it throws for a
  TRACE request and for a 1xx, 204 or 304 response that has a body;
  \<^verbatim>\<open>message::need_eof\<close> of a response with a Content-Length is the negation of keep-alive.
\<close>

definition is_payload_field :: "header \<Rightarrow> bool" where
  "is_payload_field h \<longleftrightarrow> is_field F_content_length h \<or> is_field F_transfer_encoding h"

definition no_field :: "field \<Rightarrow> header list \<Rightarrow> bool" where
  "no_field f hs \<longleftrightarrow> (\<forall>h \<in> set hs. \<not> is_field f h)"

definition bodiless :: "nat \<Rightarrow> bool" where
  "bodiless status \<longleftrightarrow> status div 100 = 1 \<or> status = 204 \<or> status = 304"

definition sendable :: "'f HttpRequest \<Rightarrow> bool" where
  "sendable q \<longleftrightarrow> req_method q \<noteq> verb_trace \<or> req_body q = []"

definition beast_payload_ok :: "'f beast \<Rightarrow> bool" where
  "beast_payload_ok B \<longleftrightarrow>
     (\<forall>r. payload_error_req B r =
        (if sendable r then None else Some (Invalid_argument ''invalid request body''))) \<and>
     (\<forall>r. payload_error_resp B r =
        (if bodiless (resp_result r) \<and> resp_body r \<noteq> [] then Some (Invalid_argument ''invalid response body'')
         else None)) \<and>
     (\<forall>r. filter (\<lambda>h. \<not> is_payload_field h) (fields_list B (payload_fields_req B r)) =
        filter (\<lambda>h. \<not> is_payload_field h) (fields_list B (req_fields r))) \<and>
     (\<forall>r. filter (\<lambda>h. \<not> is_payload_field h) (fields_list B (payload_fields_resp B r)) =
        filter (\<lambda>h. \<not> is_payload_field h) (fields_list B (resp_fields r))) \<and>
     (\<forall>r. no_field F_transfer_encoding (fields_list B (req_fields r)) \<longrightarrow>
        no_field F_transfer_encoding (fields_list B (payload_fields_req B r))) \<and>
     (\<forall>r. no_field F_transfer_encoding (fields_list B (resp_fields r)) \<longrightarrow>
        no_field F_transfer_encoding (fields_list B (payload_fields_resp B r))) \<and>
     (\<forall>r. find_field B F_content_length (payload_fields_resp B r) \<noteq> None) \<and>
     (\<forall>r. find_field B F_content_length (resp_fields r) \<noteq> None \<longrightarrow>
        need_eof_of B r = (\<not> keep_alive_of B (resp_version r) (resp_fields r)))"

definition beast_ok :: "'f beast \<Rightarrow> bool" where
  "beast_ok B \<longleftrightarrow> beast_fields_ok B \<and> beast_keep_alive_ok B \<and> beast_payload_ok B"

section \<open>A container with the documented behaviour\<close>

definition list_set :: "field \<Rightarrow> string \<Rightarrow> header list \<Rightarrow> header list" where
  "list_set f v hs = filter (\<lambda>h. \<not> is_field f h) hs @ [(field_string f, v)]"

definition list_find :: "field \<Rightarrow> header list \<Rightarrow> string option" where
  "list_find f hs = map_option snd (List.find (is_field f) hs)"

definition list_keep_alive :: "nat \<Rightarrow> header list \<Rightarrow> bool" where
  "list_keep_alive v hs =
     (if v < 11 then list_find F_connection hs = Some ''keep-alive''
      else list_find F_connection hs \<noteq> Some ''close'')"

definition list_set_keep_alive :: "nat \<Rightarrow> bool \<Rightarrow> header list \<Rightarrow> header list" where
  "list_set_keep_alive v b hs =
     (if b = (v < 11) then list_set F_connection (if b then ''keep-alive'' else ''close'') hs
      else filter (\<lambda>h. \<not> is_field F_connection h) hs)"

definition list_payload :: "string \<Rightarrow> header list \<Rightarrow> header list" where
  "list_payload body hs =
     list_set F_content_length (to_string (length body))
       (filter (\<lambda>h. \<not> is_field F_transfer_encoding h) hs)"

definition known_fields :: "field list" where
  "known_fields = [F_server, F_content_type, F_allow, F_authorization, F_set_cookie, F_cache_control,
     F_connection, F_keep_alive, F_proxy_authenticate, F_proxy_authorization, F_te, F_trailer,
     F_transfer_encoding, F_upgrade, F_host, F_content_length]"

definition list_beast :: "header list beast" where
  "list_beast = \<lparr>
     fields_empty = [],
     fields_list = (\<lambda>hs. hs),
     string_to_field = (\<lambda>n. case List.find (\<lambda>f. iequals n (field_string f)) known_fields of
        Some f \<Rightarrow> f | None \<Rightarrow> F_other),
     set_field = list_set,
     erase_field = (\<lambda>f. filter (\<lambda>h. \<not> is_field f h)),
     erase_name = (\<lambda>n. filter (\<lambda>h. \<not> is_name n h)),
     find_field = list_find,
     keep_alive_of = list_keep_alive,
     set_keep_alive = list_set_keep_alive,
     payload_fields_req = (\<lambda>r. list_payload (req_body r) (req_fields r)),
     payload_fields_resp = (\<lambda>r. list_payload (resp_body r) (resp_fields r)),
     payload_error_req = (\<lambda>r. if sendable r then None else Some (Invalid_argument ''invalid request body'')),
     payload_error_resp = (\<lambda>r. if bodiless (resp_result r) \<and> resp_body r \<noteq> []
        then Some (Invalid_argument ''invalid response body'') else None),
     need_eof_of = (\<lambda>r. list_find F_content_length (resp_fields r) = None \<or>
        \<not> list_keep_alive (resp_version r) (resp_fields r))\<rparr>"

section \<open>Lemmas\<close>

lemma list_beast_sel:
  "fields_empty list_beast = []"
  "fields_list list_beast = (\<lambda>hs. hs)"
  "set_field list_beast = list_set"
  "erase_field list_beast = (\<lambda>f. filter (\<lambda>h. \<not> is_field f h))"
  "erase_name list_beast = (\<lambda>n. filter (\<lambda>h. \<not> is_name n h))"
  "find_field list_beast = list_find"
  "keep_alive_of list_beast = list_keep_alive"
  "set_keep_alive list_beast = list_set_keep_alive"
  by (simp_all add: list_beast_def)

lemma iequals_refl [simp]: "iequals a a"
  by (simp add: iequals_def)

lemma iequals_trans_iff: "iequals a b \<Longrightarrow> iequals a c \<longleftrightarrow> iequals b c"
  by (simp add: iequals_def)

lemma field_string_inject [simp]:
  "iequals (field_string f) (field_string g) \<longleftrightarrow> f = g"
proof -
  have "distinct (map (\<lambda>f. map to_lower (field_string f)) (F_other # known_fields))"
    by code_simp
  moreover have "f \<in> set (F_other # known_fields)" for f
    by (cases f) (simp_all add: known_fields_def)
  ultimately show ?thesis
    unfolding iequals_def distinct_map by (metis inj_onD)
qed

lemma is_field_unique: "is_field f h \<Longrightarrow> is_field g h \<longleftrightarrow> f = g"
  by (metis field_string_inject is_name_def iequals_trans_iff)

lemma find_map_filter: "map_option snd (List.find P xs) = (case map snd (filter P xs) of [] \<Rightarrow> None | v # _ \<Rightarrow> Some v)"
  by (induction xs) auto

lemma find_filter: "List.find P (filter P xs) = List.find P xs"
  by (induction xs) auto

lemma filter_fields_other:
  assumes "filter (\<lambda>h. \<not> P h) xs = filter (\<lambda>h. \<not> P h) ys" and "\<And>h. Q h \<Longrightarrow> \<not> P h"
  shows "filter Q xs = filter Q ys"
proof -
  have "filter Q zs = filter Q (filter (\<lambda>h. \<not> P h) zs)" for zs
    using assms(2) by (induction zs) auto
  then show ?thesis
    by (metis assms(1))
qed

lemma find_field_cong:
  assumes "beast_ok B"
    and "filter (is_field f) (fields_list B fs) = filter (is_field f) (fields_list B gs)"
  shows "find_field B f fs = find_field B f gs"
proof -
  have "find_field B f hs = map_option snd (List.find (is_field f) (filter (is_field f) (fields_list B hs)))" for hs
    using assms(1) by (simp add: beast_ok_def beast_fields_ok_def find_filter)
  then show ?thesis
    using assms(2) by simp
qed

lemma is_name_self [simp]: "is_name n (n, v)"
  by (simp add: is_name_def)

lemma find_append:
  "List.find P (xs @ ys) = (case List.find P xs of None \<Rightarrow> List.find P ys | Some x \<Rightarrow> Some x)"
  by (induction xs) auto

lemma find_filter_not [simp]: "List.find P (filter (\<lambda>x. \<not> P x) xs) = None"
  by (induction xs) auto

lemma list_find_set [simp]: "list_find f (list_set f v hs) = Some v"
  by (simp add: list_set_def list_find_def find_append)

lemma list_find_erase [simp]: "list_find f (filter (\<lambda>h. \<not> is_field f h) hs) = None"
  by (simp add: list_find_def)

lemma known_fields_iff: "f \<in> set known_fields \<longleftrightarrow> f \<noteq> F_other"
  by (cases f) (simp_all add: known_fields_def)

lemma string_to_field_list_beast:
  assumes "f \<noteq> F_other"
  shows "string_to_field list_beast n = f \<longleftrightarrow> iequals n (field_string f)"
proof (cases "List.find (\<lambda>f. iequals n (field_string f)) known_fields")
  case None
  then have "\<not> iequals n (field_string f)"
    using assms by (auto simp: find_None_iff known_fields_iff)
  with None assms show ?thesis
    by (simp add: list_beast_def)
next
  case (Some g)
  then have "iequals n (field_string g)"
    by (auto simp: find_Some_iff)
  then have "iequals n (field_string f) \<longleftrightarrow> g = f"
    using iequals_trans_iff [of n "field_string g" "field_string f"] by simp
  with Some show ?thesis
    by (simp add: list_beast_def)
qed

lemma list_keep_alive_cong:
  assumes "filter (is_field F_connection) fs = filter (is_field F_connection) gs"
  shows "list_keep_alive v fs = list_keep_alive v gs"
proof -
  have "list_find F_connection fs = list_find F_connection gs"
    unfolding list_find_def by (metis assms find_filter)
  then show ?thesis
    by (simp add: list_keep_alive_def)
qed

lemma list_keep_alive_set: "list_keep_alive v (list_set_keep_alive v b hs) = b"
  by (auto simp: list_keep_alive_def list_set_keep_alive_def)

lemma list_set_keep_alive_frame:
  "filter (\<lambda>h. \<not> is_field F_connection h) (list_set_keep_alive v b hs) =
   filter (\<lambda>h. \<not> is_field F_connection h) hs"
  by (simp add: list_set_keep_alive_def list_set_def)

lemma list_beast_ok: "beast_ok list_beast"
proof -
  have "beast_fields_ok list_beast"
    unfolding beast_fields_ok_def
    by (simp add: string_to_field_list_beast) (simp add: list_beast_def list_set_def list_find_def)
  moreover have "\<not> list_keep_alive 11 hs" if "map snd (filter (is_field F_connection) hs) = [''close'']" for hs
    using that by (simp add: list_keep_alive_def list_find_def find_map_filter)
  then have "beast_keep_alive_ok list_beast"
    unfolding beast_keep_alive_ok_def list_beast_sel
    by (intro conjI allI impI list_keep_alive_cong list_keep_alive_set list_set_keep_alive_frame) assumption
  moreover have "beast_payload_ok list_beast"
    by (simp add: beast_payload_ok_def list_beast_def list_payload_def is_payload_field_def)
      (auto simp: list_set_def no_field_def is_name_def iequals_def field_string.simps to_lower_def intro!: filter_cong)
  ultimately show ?thesis
    by (simp add: beast_ok_def)
qed

subsection \<open>Consequences of the documented behaviour\<close>

lemma find_field_empty [simp]: "beast_ok B \<Longrightarrow> find_field B f (fields_empty B) = None"
  by (simp add: beast_ok_def beast_fields_ok_def)

lemma beast_frames:
  assumes "beast_ok B"
  shows set_field_frame: "filter (\<lambda>h. \<not> is_field f h) (fields_list B (set_field B f v fs)) =
      filter (\<lambda>h. \<not> is_field f h) (fields_list B fs)"
    and erase_field_list: "fields_list B (erase_field B f fs) = filter (\<lambda>h. \<not> is_field f h) (fields_list B fs)"
    and erase_name_list: "fields_list B (erase_name B n fs) = filter (\<lambda>h. \<not> is_name n h) (fields_list B fs)"
    and set_keep_alive_frame:
      "filter (\<lambda>h. \<not> is_field F_connection h) (fields_list B (set_keep_alive B v' b fs)) =
       filter (\<lambda>h. \<not> is_field F_connection h) (fields_list B fs)"
    and payload_req_frame: "filter (\<lambda>h. \<not> is_payload_field h) (fields_list B (payload_fields_req B q)) =
        filter (\<lambda>h. \<not> is_payload_field h) (fields_list B (req_fields q))"
    and payload_resp_frame: "filter (\<lambda>h. \<not> is_payload_field h) (fields_list B (payload_fields_resp B r)) =
        filter (\<lambda>h. \<not> is_payload_field h) (fields_list B (resp_fields r))"
  using assms by (simp_all add: beast_ok_def beast_fields_ok_def beast_keep_alive_ok_def beast_payload_ok_def)

lemma is_field_other: "f \<noteq> g \<Longrightarrow> is_field f h \<Longrightarrow> \<not> is_field g h"
  using is_field_unique by blast

lemma is_field_not_payload:
  "f \<notin> {F_content_length, F_transfer_encoding} \<Longrightarrow> is_field f h \<Longrightarrow> \<not> is_payload_field h"
  by (auto simp: is_payload_field_def dest: is_field_unique)

lemma find_field_frame:
  assumes "beast_ok B"
    and "filter (\<lambda>h. \<not> P h) (fields_list B fs) = filter (\<lambda>h. \<not> P h) (fields_list B gs)"
    and "\<And>h. is_field f h \<Longrightarrow> \<not> P h"
  shows "find_field B f fs = find_field B f gs"
  by (rule find_field_cong [OF assms(1) filter_fields_other [OF assms(2,3)]])

lemma find_field_set [simp]:
  assumes "beast_ok B"
  shows "find_field B f (set_field B g v fs) = (if f = g then Some v else find_field B f fs)"
proof (cases "f = g")
  case True
  then show ?thesis
    using assms by (simp add: beast_ok_def beast_fields_ok_def find_map_filter)
next
  case False
  then show ?thesis
    using find_field_frame [OF assms set_field_frame [OF assms] is_field_other [OF False]] by simp
qed

lemma find_field_erase [simp]:
  assumes "beast_ok B"
  shows "find_field B f (erase_field B g fs) = (if f = g then None else find_field B f fs)"
proof (cases "f = g")
  case True
  then show ?thesis
    using assms by (simp add: beast_ok_def beast_fields_ok_def)
next
  case False
  have "filter (\<lambda>h. \<not> is_field g h) (fields_list B (erase_field B g fs)) =
      filter (\<lambda>h. \<not> is_field g h) (fields_list B fs)"
    by (simp add: erase_field_list [OF assms])
  from find_field_frame [OF assms this is_field_other [OF False]] False show ?thesis
    by simp
qed

lemma find_field_set_keep_alive [simp]:
  assumes "beast_ok B" and "f \<noteq> F_connection"
  shows "find_field B f (set_keep_alive B v b fs) = find_field B f fs"
  by (rule find_field_frame [OF assms(1) set_keep_alive_frame [OF assms(1)] is_field_other [OF assms(2)]])

lemma find_field_payload [simp]:
  assumes "beast_ok B" and "f \<notin> {F_content_length, F_transfer_encoding}"
  shows "find_field B f (payload_fields_req B q) = find_field B f (req_fields q)"
    and "find_field B f (payload_fields_resp B r) = find_field B f (resp_fields r)"
  using find_field_frame [OF assms(1) payload_req_frame [OF assms(1)] is_field_not_payload [OF assms(2)]]
    find_field_frame [OF assms(1) payload_resp_frame [OF assms(1)] is_field_not_payload [OF assms(2)]]
  by blast+

lemma keep_alive_set [simp]:
  "beast_ok B \<Longrightarrow> keep_alive_of B v (set_keep_alive B v b fs) = b"
  by (simp add: beast_ok_def beast_keep_alive_ok_def)

lemma keep_alive_close [simp]:
  assumes "beast_ok B"
  shows "\<not> keep_alive_of B 11 (set_field B F_connection ''close'' fs)"
proof -
  have "map snd (filter (is_field F_connection) (fields_list B (set_field B F_connection ''close'' fs))) = [''close'']"
    using assms by (simp add: beast_ok_def beast_fields_ok_def)
  moreover have "\<forall>fs. map snd (filter (is_field F_connection) (fields_list B fs)) = [''close''] \<longrightarrow> \<not> keep_alive_of B 11 fs"
    using assms unfolding beast_ok_def beast_keep_alive_ok_def by (elim conjE)
  ultimately show ?thesis
    by simp
qed

lemma keep_alive_frame:
  assumes "beast_ok B"
    and "filter (\<lambda>h. \<not> P h) (fields_list B fs) = filter (\<lambda>h. \<not> P h) (fields_list B gs)"
    and "\<And>h. is_field F_connection h \<Longrightarrow> \<not> P h"
  shows "keep_alive_of B v fs = keep_alive_of B v gs"
proof -
  have "filter (is_field F_connection) (fields_list B fs) = filter (is_field F_connection) (fields_list B gs)"
    by (rule filter_fields_other [OF assms(2,3)])
  then show ?thesis
    using assms(1) unfolding beast_ok_def beast_keep_alive_ok_def by blast
qed

lemma keep_alive_payload [simp]:
  assumes "beast_ok B"
  shows "keep_alive_of B v (payload_fields_req B q) = keep_alive_of B v (req_fields q)"
    and "keep_alive_of B v (payload_fields_resp B r) = keep_alive_of B v (resp_fields r)"
proof -
  have "\<not> is_payload_field h" if "is_field F_connection h" for h
    by (rule is_field_not_payload [OF _ that]) simp
  then show "keep_alive_of B v (payload_fields_req B q) = keep_alive_of B v (req_fields q)"
    and "keep_alive_of B v (payload_fields_resp B r) = keep_alive_of B v (resp_fields r)"
    using keep_alive_frame [OF assms payload_req_frame [OF assms]]
      keep_alive_frame [OF assms payload_resp_frame [OF assms]] by blast+
qed

lemma keep_alive_set_field [simp]:
  assumes "beast_ok B" and "f \<noteq> F_connection"
  shows "keep_alive_of B v (set_field B f x fs) = keep_alive_of B v fs"
  using keep_alive_frame [OF assms(1) set_field_frame [OF assms(1)] is_field_other [OF assms(2) [symmetric]]]
  by blast

lemma content_length_payload [simp]:
  "beast_ok B \<Longrightarrow> find_field B F_content_length (payload_fields_resp B r) \<noteq> None"
  unfolding beast_ok_def beast_payload_ok_def by blast

lemma payload_errors:
  assumes "beast_ok B"
  shows "payload_error_req B q = (if sendable q then None else Some (Invalid_argument ''invalid request body''))"
    and "payload_error_resp B r = (if bodiless (resp_result r) \<and> resp_body r \<noteq> []
      then Some (Invalid_argument ''invalid response body'') else None)"
  using assms unfolding beast_ok_def beast_payload_ok_def by blast+

lemma req_prepare_payload_eq:
  "beast_ok B \<Longrightarrow> req_prepare_payload B r =
     (if sendable r then Inr (req_payload B r) else Inl (Invalid_argument ''invalid request body''))"
  by (simp add: req_prepare_payload_def payload_errors)

lemma resp_prepare_payload_eq:
  "beast_ok B \<Longrightarrow> bodiless (resp_result r) \<longrightarrow> resp_body r = [] \<Longrightarrow> resp_prepare_payload B r = Inr (resp_payload B r)"
  by (simp add: resp_prepare_payload_def payload_errors)

lemma payload_no_transfer_encoding:
  assumes "beast_ok B"
  shows "no_field F_transfer_encoding (fields_list B (req_fields q)) \<Longrightarrow>
      no_field F_transfer_encoding (fields_list B (payload_fields_req B q))"
    and "no_field F_transfer_encoding (fields_list B (resp_fields r)) \<Longrightarrow>
      no_field F_transfer_encoding (fields_list B (payload_fields_resp B r))"
  using assms unfolding beast_ok_def beast_payload_ok_def by blast+

lemma find_field_None:
  "beast_ok B \<Longrightarrow> find_field B f fs = None \<longleftrightarrow> no_field f (fields_list B fs)"
  by (auto simp: beast_ok_def beast_fields_ok_def no_field_def find_None_iff)

lemma need_eof_prepared:
  "beast_ok B \<Longrightarrow> find_field B F_content_length (resp_fields r) \<noteq> None \<Longrightarrow>
   need_eof_of B r \<longleftrightarrow> \<not> resp_keep_alive B r"
  unfolding beast_ok_def beast_payload_ok_def resp_keep_alive_def by blast

end
