(* ===== verification/Http_Handler.thy ===== *)
theory Http_Handler
  imports Http_Message
begin

text \<open>
  \<^verbatim>\<open>src/http_handler.cpp\<close>: the responses EventEdge makes itself. All of them go through
  \<^verbatim>\<open>make_response\<close>.
\<close>

section \<open>Operations\<close>

text \<open>
  \<open>make_response\<close> is called only with statuses for which \<^verbatim>\<open>prepare_payload\<close> does not throw, so it is written
  with what that call does otherwise, \<open>resp_payload\<close>; see \<open>make_response_prepares\<close> below.
\<close>

definition make_response ::
    "'f beast \<Rightarrow> 'f HttpRequest \<Rightarrow> nat \<Rightarrow> string \<Rightarrow> string \<Rightarrow> 'f HttpResponse" where
  "make_response B request status content_type body =
     (let response = response_new B status (req_version request);
          response = resp_set B F_server ''EventEdge'' response;
          response = resp_set B F_content_type content_type response;
          response = resp_set_keep_alive B (req_keep_alive B request) response;
          response = response\<lparr>resp_body := body\<rparr>
      in resp_payload B response)"

definition is_health_request :: "'f HttpRequest \<Rightarrow> bool" where
  "is_health_request request \<longleftrightarrow> req_target request = ''/health''"

definition health_body :: string where
  "health_body = ''{\"status\":\"ok\",\"service\":\"eventedge\"}''"

definition handle_request :: "'f beast \<Rightarrow> 'f HttpRequest \<Rightarrow> 'f HttpResponse" where
  "handle_request B request =
     (if req_method request \<noteq> verb_get then
        let response = make_response B request status_method_not_allowed ''text/plain''
                         (''Method not allowed'' @ newline)
        in resp_set B F_allow ''GET'' response
      else if is_health_request request then
        make_response B request status_ok ''application/json'' health_body
      else make_response B request status_not_found ''text/plain'' (''Not found'' @ newline))"

definition make_bad_gateway_response :: "'f beast \<Rightarrow> 'f HttpRequest \<Rightarrow> 'f HttpResponse" where
  "make_bad_gateway_response B request =
     make_response B request status_bad_gateway ''text/plain'' (''Bad Gateway'' @ newline)"

definition make_service_unavailable_response :: "'f beast \<Rightarrow> 'f HttpRequest \<Rightarrow> 'f HttpResponse" where
  "make_service_unavailable_response B request =
     make_response B request status_service_unavailable ''text/plain'' (''Service Unavailable'' @ newline)"

definition make_gateway_timeout_response :: "'f beast \<Rightarrow> 'f HttpRequest \<Rightarrow> 'f HttpResponse" where
  "make_gateway_timeout_response B request =
     make_response B request status_gateway_timeout ''text/plain'' (''Gateway Timeout'' @ newline)"

section \<open>Lemmas\<close>

text \<open>What every locally made response has, whatever its status and body.\<close>

definition local_response :: "'f beast \<Rightarrow> 'f HttpRequest \<Rightarrow> 'f HttpResponse \<Rightarrow> bool" where
  "local_response B q r \<longleftrightarrow>
     resp_version r = req_version q \<and> resp_keep_alive B r = req_keep_alive B q \<and>
     need_eof_of B r = (\<not> req_keep_alive B q) \<and>
     find_field B F_server (resp_fields r) = Some ''EventEdge'' \<and>
     find_field B F_content_length (resp_fields r) \<noteq> None \<and>
     find_field B F_set_cookie (resp_fields r) = None \<and>
     find_field B F_cache_control (resp_fields r) = None"

lemmas message_defs = make_response_def response_new_def resp_set_def resp_set_keep_alive_def
  resp_payload_def resp_keep_alive_def req_keep_alive_def Let_def

lemma make_response_prepares:
  assumes "beast_ok B" and "st \<in> {status_ok, status_not_found, status_method_not_allowed, status_bad_gateway,
    status_service_unavailable, status_gateway_timeout}"
  shows "resp_prepare_payload B ((resp_set_keep_alive B (req_keep_alive B q)
      (resp_set B F_content_type ct (resp_set B F_server ''EventEdge'' (response_new B st (req_version q)))))
      \<lparr>resp_body := body\<rparr>) = Inr (make_response B q st ct body)"
  using assms(2)
  by (subst resp_prepare_payload_eq [OF assms(1)])
    (auto simp: make_response_def Let_def bodiless_def resp_set_keep_alive_def resp_set_def response_new_def)

lemma make_response_simps [simp]:
  "resp_result (make_response B q st ct body) = st"
  "resp_body (make_response B q st ct body) = body"
  "resp_version (make_response B q st ct body) = req_version q"
  by (simp_all add: message_defs)

lemma make_response_fields [simp]:
  assumes "beast_ok B"
  shows "find_field B F_server (resp_fields (make_response B q st ct body)) = Some ''EventEdge''"
    and "find_field B F_content_type (resp_fields (make_response B q st ct body)) = Some ct"
    and "find_field B F_content_length (resp_fields (make_response B q st ct body)) \<noteq> None"
    and "f \<notin> {F_server, F_content_type, F_connection, F_content_length, F_transfer_encoding} \<Longrightarrow>
      find_field B f (resp_fields (make_response B q st ct body)) = None"
    and "resp_keep_alive B (make_response B q st ct body) = req_keep_alive B q"
  using assms by (simp_all add: message_defs content_length_payload [simplified])

lemma make_response_local:
  assumes "beast_ok B"
  shows "local_response B q (make_response B q st ct body)"
  using assms need_eof_prepared [OF assms, of "make_response B q st ct body"]
  by (simp add: local_response_def del: not_None_eq)

lemma local_response_allow:
  assumes "beast_ok B" and "local_response B q r"
  shows "local_response B q (resp_set B F_allow v r)"
proof -
  have "resp_keep_alive B (resp_set B F_allow v r) = resp_keep_alive B r"
    using assms(1) by (simp add: resp_set_def resp_keep_alive_def)
  with assms show ?thesis
    using need_eof_prepared [OF assms(1), of "resp_set B F_allow v r"]
    by (simp add: local_response_def resp_set_def del: not_None_eq)
qed

lemma handle_request_local:
  assumes "beast_ok B"
  shows "local_response B q (handle_request B q)"
  unfolding handle_request_def Let_def
  by (simp only: make_response_local local_response_allow assms split: if_split) simp

section \<open>Properties\<close>

text \<open>C30. \<^verbatim>\<open>handle_request\<close> answers 405 with an Allow field to every method but GET, the health
  document to a GET of \<^verbatim>\<open>/health\<close> and 404 to any other GET; every answer carries the version and the
  keep-alive wish of the request, so the connection is closed after it exactly when the client asked
  for that.\<close>

theorem handle_request_contract:
  fixes q :: "'f HttpRequest"
  assumes "beast_ok B"
  defines "r \<equiv> handle_request B q"
  shows "local_response B q r \<and>
    (resp_result r, resp_body r, find_field B F_allow (resp_fields r),
     find_field B F_content_type (resp_fields r)) =
      (if req_method q \<noteq> verb_get
       then (405, ''Method not allowed'' @ newline, Some ''GET'', Some ''text/plain'')
       else if req_target q = ''/health'' then (200, health_body, None, Some ''application/json'')
       else (404, ''Not found'' @ newline, None, Some ''text/plain''))"
proof -
  have "local_response B q r"
    unfolding r_def by (rule handle_request_local [OF assms(1)])
  then show ?thesis
    using assms(1)
    by (simp add: r_def handle_request_def Let_def is_health_request_def resp_set_def)
qed

theorem handle_request_contract_witness:
  "resp_result (handle_request list_beast
     \<lparr>req_method = verb_get, req_target = ''/health'', req_version = 11, req_fields = [], req_body = []\<rparr>) = 200 \<and>
   beast_ok list_beast"
  using handle_request_contract [OF list_beast_ok, of
      "\<lparr>req_method = verb_get, req_target = ''/health'', req_version = 11, req_fields = [], req_body = []\<rparr>"]
    list_beast_ok
  by simp

end
