(* ===== verification/Async_Io.thy ===== *)
theory Async_Io
  imports Prelude
begin

text \<open>
  Vocabulary for asynchronous code. An object that performs I/O is a state with the operations it has
  outstanding; an event is what Asio reports for one of them, the handler of the event returns the
  calls it makes, and an event for an operation that is not outstanding cannot happen (\<^const>\<open>None\<close>).
  The locale \<open>one_shot\<close> is the contract of the two classes that perform one job and report once,
  \<^verbatim>\<open>UpstreamProxy\<close> and \<^verbatim>\<open>HealthCheck\<close>; \<open>safe_machine\<close> is the contract of the state machines whose handlers
  throw in known circumstances only.
\<close>

text \<open>The error codes the sources distinguish; \<open>no_error\<close> is the one that converts to \<^verbatim>\<open>false\<close>.\<close>

datatype error_code =
    no_error | error_timeout | error_end_of_stream | error_operation_aborted | error_other string

primrec run_events :: "('e \<Rightarrow> 's \<Rightarrow> ('c list \<times> 's) option) \<Rightarrow> 'e list \<Rightarrow> 's \<Rightarrow> ('c list \<times> 's) option" where
  "run_events step [] s = Some ([], s)"
| "run_events step (e # es) s =
     (case step e s of
        None \<Rightarrow> None
      | Some (cs, s1) \<Rightarrow>
          (case run_events step es s1 of None \<Rightarrow> None | Some (ds, s2) \<Rightarrow> Some (cs @ ds, s2)))"

lemma run_events_Cons_eq_Some:
  "run_events step (e # es) s = Some (bs, s2) \<longleftrightarrow>
     (\<exists>cs s1 ds. step e s = Some (cs, s1) \<and> run_events step es s1 = Some (ds, s2) \<and> bs = cs @ ds)"
  by (auto split: option.splits)

lemma run_events_append:
  "run_events step (es @ fs) s =
     (case run_events step es s of
        None \<Rightarrow> None
      | Some (cs, s1) \<Rightarrow>
          (case run_events step fs s1 of None \<Rightarrow> None | Some (ds, s2) \<Rightarrow> Some (cs @ ds, s2)))"
  by (induction es arbitrary: s) (auto split: option.split)

locale one_shot =
  fixes inv :: "'s \<Rightarrow> bool"
    and finished :: "'s \<Rightarrow> bool"
    and outstanding :: "'s \<Rightarrow> nat"
    and step :: "'e \<Rightarrow> 's \<Rightarrow> ('c list \<times> 's) option"
    and reports :: "'c \<Rightarrow> bool"
  assumes inv_step: "inv s \<Longrightarrow> step e s = Some (cs, s') \<Longrightarrow> inv s'"
    and fewer: "inv s \<Longrightarrow> step e s = Some (cs, s') \<Longrightarrow> outstanding s' < outstanding s"
    and report: "inv s \<Longrightarrow> step e s = Some (cs, s') \<Longrightarrow>
      length (filter reports cs) = (if finished s' \<and> \<not> finished s then 1 else 0)"
    and finished_step: "inv s \<Longrightarrow> step e s = Some (cs, s') \<Longrightarrow> finished s \<Longrightarrow> finished s'"
    and idle_finished: "inv s \<Longrightarrow> outstanding s = 0 \<Longrightarrow> finished s"
    and enabled: "inv s \<Longrightarrow> outstanding s > 0 \<Longrightarrow> \<exists>e. step e s \<noteq> None"
begin

lemma run_inv: "inv s \<Longrightarrow> run_events step es s = Some (cs, s') \<Longrightarrow> inv s'"
  by (induction es arbitrary: s cs)
    (auto simp: run_events_Cons_eq_Some simp del: run_events.simps(2) dest: inv_step)

lemma run_length:
  "inv s \<Longrightarrow> run_events step es s = Some (cs, s') \<Longrightarrow> length es + outstanding s' \<le> outstanding s"
proof (induction es arbitrary: s cs)
  case Nil
  then show ?case by simp
next
  case (Cons e es)
  then obtain c1 s1 c2 where s1: "step e s = Some (c1, s1)" "run_events step es s1 = Some (c2, s')"
    by (auto simp: run_events_Cons_eq_Some simp del: run_events.simps)
  then show ?case
    using Cons.IH [of s1 c2] inv_step [OF Cons.prems(1) s1(1)] fewer [OF Cons.prems(1) s1(1)] by simp
qed

lemma run_finished:
  "inv s \<Longrightarrow> finished s \<Longrightarrow> run_events step es s = Some (cs, s') \<Longrightarrow>
   filter reports cs = [] \<and> finished s'"
proof (induction es arbitrary: s cs)
  case Nil
  then show ?case by auto
next
  case (Cons e es)
  then obtain c1 s1 c2 where s1: "step e s = Some (c1, s1)" "run_events step es s1 = Some (c2, s')"
      "cs = c1 @ c2"
    by (auto simp: run_events_Cons_eq_Some simp del: run_events.simps)
  then show ?case
    using Cons.IH [of s1 c2] inv_step [OF Cons.prems(1) s1(1)] report [OF Cons.prems(1) s1(1)]
      finished_step [OF Cons.prems(1) s1(1)] Cons.prems(2) by simp
qed

lemma run_reports:
  assumes "inv s" and "\<not> finished s" and "run_events step es s = Some (cs, s')"
  shows "length (filter reports cs) = (if finished s' then 1 else 0)"
  using assms
proof (induction es arbitrary: s cs)
  case Nil
  then show ?case by simp
next
  case (Cons e es)
  then obtain c1 s1 c2 where s1: "step e s = Some (c1, s1)" "run_events step es s1 = Some (c2, s')"
      "cs = c1 @ c2"
    by (auto simp: run_events_Cons_eq_Some simp del: run_events.simps)
  note inv1 = inv_step [OF Cons.prems(1) s1(1)]
  show ?case
  proof (cases "finished s1")
    case True
    then show ?thesis
      using run_finished [OF inv1 True s1(2)] report [OF Cons.prems(1) s1(1)] Cons.prems(2) s1(3) by simp
  next
    case False
    then show ?thesis
      using Cons.IH [OF inv1 False s1(2)] report [OF Cons.prems(1) s1(1)] s1(3) by simp
  qed
qed

lemma reports_once:
  assumes "inv s" and "\<not> finished s" and "run_events step es s = Some (cs, s')"
  shows "length es \<le> outstanding s \<and> length (filter reports cs) \<le> 1 \<and>
    (length (filter reports cs) = 1 \<or> (\<exists>e. step e s' \<noteq> None))"
  using run_length [OF assms(1,3)] run_reports [OF assms] enabled [OF run_inv [OF assms(1,3)]]
    idle_finished [OF run_inv [OF assms(1,3)]] by (cases "outstanding s'") auto

end

section \<open>Machines that do not throw\<close>

text \<open>
  A machine takes a step on an event that can happen; the step returns the next state or throws. The
  contract \<open>safe_machine\<close>, an invariant that every step keeps and under which a step throws only where
  \<open>may_throw\<close> says so, is what the health monitor and the whole program are shown to satisfy.
\<close>

inductive reach :: "('e \<Rightarrow> 's \<Rightarrow> 's result option) \<Rightarrow> 's \<Rightarrow> 's \<Rightarrow> bool" for step s0 where
  reach_start: "reach step s0 s0"
| reach_step: "reach step s0 s \<Longrightarrow> step e s = Some (Inr s') \<Longrightarrow> reach step s0 s'"

locale safe_machine =
  fixes step :: "'e \<Rightarrow> 's \<Rightarrow> 's result option"
    and inv :: "'s \<Rightarrow> bool"
    and may_throw :: "'e \<Rightarrow> 's \<Rightarrow> bool"
  assumes step_inv: "inv s \<Longrightarrow> step e s = Some (Inr s') \<Longrightarrow> inv s'"
    and step_throws: "inv s \<Longrightarrow> step e s = Some (Inl x) \<Longrightarrow> may_throw e s"
begin

lemma reach_inv: "reach step s0 s \<Longrightarrow> inv s0 \<Longrightarrow> inv s"
  by (induction rule: reach.induct) (auto dest: step_inv)

lemma throws_only: "reach step s0 s \<Longrightarrow> inv s0 \<Longrightarrow> step e s = Some (Inl x) \<Longrightarrow> may_throw e s"
  by (auto dest: reach_inv step_throws)

end

end
