(* ===== verification/Upstream_Proxy.thy ===== *)
theory Upstream_Proxy
  imports Upstream_Pool Http_Handler Async_Io
begin

text \<open>
  \<^verbatim>\<open>include/eventedge/upstream_proxy.hpp\<close> and \<^verbatim>\<open>src/upstream_proxy.cpp\<close>: one request forwarded to one
  upstream. The calls a handler makes on Asio are returned as a list of values in the order the code
  makes them, and what Asio reports back (an error code, resolver results, the message read) is an
  argument of the handler it is reported to.
\<close>

section \<open>Hop-by-hop headers\<close>

lemma sv_find_bounds: "sv_find c start s = Some e \<Longrightarrow> start \<le> e \<and> e < length s"
  by (auto simp: sv_find_def index_of_eq_Some)

function connection_token_loop :: "string \<Rightarrow> nat \<Rightarrow> string list" where
  "connection_token_loop val start =
     (if start < length val then
        let end_pos = sv_find (CHR '','') start val;
            token_end = (case end_pos of None \<Rightarrow> length val | Some e \<Rightarrow> e);
            token = sv_substr start (token_end - start) val;
            here = (case (sv_find_first_not_of [CHR '' '', CHR 0x09] token,
                          sv_find_last_not_of [CHR '' '', CHR 0x09] token) of
                      (Some first, Some final) \<Rightarrow> [sv_substr first (final - first + 1) token]
                    | _ \<Rightarrow> [])
        in case end_pos of None \<Rightarrow> here | Some e \<Rightarrow> here @ connection_token_loop val (e + 1)
      else [])"
  by pat_completeness auto

termination
  by (relation "measure (\<lambda>(val, start). length val - start)") (auto dest!: sv_find_bounds [OF sym])

declare connection_token_loop.simps [simp del]

definition connection_tokens :: "'f beast \<Rightarrow> 'f \<Rightarrow> string list" where
  "connection_tokens B headers =
     concat (map (\<lambda>h. if string_to_field B (fst h) \<noteq> F_connection then []
                      else connection_token_loop (snd h) 0) (fields_list B headers))"

definition remove_hop_by_hop_headers :: "'f beast \<Rightarrow> 'f \<Rightarrow> 'f" where
  "remove_hop_by_hop_headers B headers =
     (let headers = fold (erase_name B) (connection_tokens B headers) headers;
          headers = erase_field B F_connection headers;
          headers = erase_field B F_keep_alive headers;
          headers = erase_field B F_proxy_authenticate headers;
          headers = erase_field B F_proxy_authorization headers;
          headers = erase_field B F_te headers;
          headers = erase_field B F_trailer headers;
          headers = erase_field B F_transfer_encoding headers
      in erase_field B F_upgrade headers)"

definition upstream_host_header :: "UpstreamEndpoint \<Rightarrow> string" where
  "upstream_host_header upstream =
     (if CHR '':'' \<in> set (host upstream)
      then ''['' @ host upstream @ '']:'' @ to_string (unat (port upstream))
      else host upstream @ '':'' @ to_string (unat (port upstream)))"

subsection \<open>What the loops compute\<close>

text \<open>The elements of a comma-separated list, stripped of blanks and tabs, without the empty ones.\<close>

fun split_on :: "char \<Rightarrow> string \<Rightarrow> string list" where
  "split_on c [] = [[]]"
| "split_on c (d # s) =
     (if d = c then [] # split_on c s
      else case split_on c s of [] \<Rightarrow> [[d]] | w # ws \<Rightarrow> (d # w) # ws)"

definition blank :: "char \<Rightarrow> bool" where
  "blank c \<longleftrightarrow> c = CHR '' '' \<or> c = CHR 0x09"

definition trim :: "string \<Rightarrow> string" where
  "trim s = rev (dropWhile blank (rev (dropWhile blank s)))"

definition list_elements :: "string \<Rightarrow> string list" where
  "list_elements s = filter (\<lambda>w. w \<noteq> []) (map trim (split_on (CHR '','') s))"

definition hop_by_hop_fields :: "field list" where
  "hop_by_hop_fields = [F_connection, F_keep_alive, F_proxy_authenticate, F_proxy_authorization,
     F_te, F_trailer, F_transfer_encoding, F_upgrade]"

definition hop_by_hop :: "header list \<Rightarrow> header \<Rightarrow> bool" where
  "hop_by_hop hs h \<longleftrightarrow>
     (\<exists>f \<in> set hop_by_hop_fields. is_field f h) \<or>
     (\<exists>g \<in> set hs. is_field F_connection g \<and> (\<exists>w \<in> set (list_elements (snd g)). is_name w h))"

lemma split_on_nonempty [simp]: "split_on c s \<noteq> []"
  by (cases s) (auto split: list.split)

lemma split_on_takeWhile:
  "split_on c s = takeWhile (\<lambda>d. d \<noteq> c) s #
     (case dropWhile (\<lambda>d. d \<noteq> c) s of [] \<Rightarrow> [] | _ # r \<Rightarrow> split_on c r)"
  by (induction s) (auto split: list.splits)

lemma find_not_blank:
  "sv_find_first_not_of [CHR '' '', CHR 0x09] s = index_of (\<lambda>d. \<not> blank d) s"
  "sv_find_last_not_of [CHR '' '', CHR 0x09] s = last_index_of (\<lambda>d. \<not> blank d) s"
  by (simp_all add: sv_find_first_not_of_def sv_find_last_not_of_def blank_def)

lemma token_trim:
  "(case (sv_find_first_not_of [CHR '' '', CHR 0x09] token, sv_find_last_not_of [CHR '' '', CHR 0x09] token) of
      (Some first, Some final) \<Rightarrow> [sv_substr first (final - first + 1) token] | _ \<Rightarrow> []) =
   filter (\<lambda>w. w \<noteq> []) [trim token]"
proof (cases "index_of (\<lambda>d. \<not> blank d) token")
  case None
  then have "\<forall>x \<in> set token. blank x"
    by (simp add: index_of_None_iff)
  then have "trim token = []"
    by (auto simp: trim_def dropWhile_eq_Nil_conv dest: set_dropWhileD)
  with None show ?thesis
    by (simp add: find_not_blank)
next
  case (Some first)
  define u where "u = dropWhile blank token"
  have first: "first < length token" "\<not> blank (token ! first)" "drop first token = u"
    using Some index_of_takeWhile [OF Some] by (auto simp: index_of_eq_Some u_def)
  then have tok: "token = take first token @ u" and len: "length token = first + length u"
    by (metis append_take_drop_id) (metis add_diff_inverse_nat length_drop less_imp_not_less first(1,3))
  have "u ! 0 = token ! first" "u \<noteq> []"
    using first by auto
  then have "\<exists>x \<in> set (rev u). \<not> blank x"
    using first(2) by (metis length_greater_0_conv nth_mem set_rev)
  then obtain i where i: "index_of (\<lambda>d. \<not> blank d) (rev u) = Some i"
    using index_of_None_iff by (metis option.exhaust)
  have "index_of (\<lambda>d. \<not> blank d) (rev token) = Some i"
    by (subst tok) (simp add: index_of_append i)
  then have last: "sv_find_last_not_of [CHR '' '', CHR 0x09] token = Some (length token - 1 - i)"
    by (simp add: find_not_blank last_index_of_def)
  have "i < length u"
    using i by (simp add: index_of_eq_Some)
  moreover have "trim token = take (length u - i) u"
    using index_of_takeWhile [OF i] by (simp add: trim_def flip: u_def) (metis length_rev rev_drop rev_swap)
  ultimately show ?thesis
    using last Some first len \<open>u \<noteq> []\<close>
    by (simp add: find_not_blank(1) sv_substr_def Suc_diff_Suc)
qed

lemma connection_token_loop_elements:
  "start \<le> length val \<Longrightarrow> connection_token_loop val start = list_elements (drop start val)"
proof (induction val start rule: connection_token_loop.induct)
  case (1 val start)
  let ?c = "\<lambda>d. d = CHR '',''"
  show ?case
  proof (cases "start < length val")
    case False
    then show ?thesis
      by (simp add: connection_token_loop.simps list_elements_def trim_def)
  next
    case start: True
    show ?thesis
    proof (cases "index_of ?c (drop start val)")
      case None
      then have "takeWhile (\<lambda>d. d \<noteq> CHR '','') (drop start val) = drop start val"
        and all: "dropWhile (\<lambda>d. d \<noteq> CHR '','') (drop start val) = []"
        by (auto simp: index_of_None_iff takeWhile_eq_all_conv dropWhile_eq_Nil_conv)
      then have "split_on (CHR '','') (drop start val) = [drop start val]"
        by (subst split_on_takeWhile, unfold all) simp
      with None start show ?thesis
        by (subst connection_token_loop.simps, unfold token_trim)
          (simp add: sv_find_def sv_substr_def list_elements_def Let_def)
    next
      case (Some i)
      then have e: "sv_find (CHR '','') start val = Some (start + i)"
        by (simp add: sv_find_def)
      have i: "take i (drop start val) = takeWhile (\<lambda>d. d \<noteq> CHR '','') (drop start val)"
        "drop i (drop start val) = dropWhile (\<lambda>d. d \<noteq> CHR '','') (drop start val)"
        using index_of_takeWhile [OF Some] by simp_all
      have lt: "start + i < length val"
        using sv_find_bounds [OF e] by simp
      have "dropWhile (\<lambda>d. d \<noteq> CHR '','') (drop start val) = val ! (start + i) # drop (start + i + 1) val"
        using lt by (simp add: i(2) [symmetric] add.commute Cons_nth_drop_Suc)
      then have "split_on (CHR '','') (drop start val) =
          take i (drop start val) # split_on (CHR '','') (drop (start + i + 1) val)"
        by (subst split_on_takeWhile) (simp add: i(1))
      moreover have "connection_token_loop val (start + i + 1) = list_elements (drop (start + i + 1) val)"
        using "1.IH" [OF start refl refl refl refl, of "start + i"] e lt by simp
      ultimately show ?thesis
        using start e
        by (subst connection_token_loop.simps, unfold token_trim)
          (simp add: sv_substr_def list_elements_def)
    qed
  qed
qed

lemma connection_tokens_elements:
  assumes "beast_ok B"
  shows "set (connection_tokens B headers) =
    (\<Union>g \<in> {g \<in> set (fields_list B headers). is_field F_connection g}. set (list_elements (snd g)))"
  using assms
  by (auto simp: connection_tokens_def connection_token_loop_elements beast_ok_def beast_fields_ok_def
      is_name_def split: if_splits)

lemma fields_list_erase_names:
  "beast_ok B \<Longrightarrow> fields_list B (fold (erase_name B) ns headers) =
     filter (\<lambda>h. \<forall>n \<in> set ns. \<not> is_name n h) (fields_list B headers)"
  by (induction ns arbitrary: headers) (auto simp: erase_name_list intro!: filter_cong)

lemma remove_hop_by_hop_filter:
  assumes "beast_ok B"
  shows "fields_list B (remove_hop_by_hop_headers B headers) =
    filter (\<lambda>h. \<not> hop_by_hop (fields_list B headers) h) (fields_list B headers)"
  unfolding remove_hop_by_hop_headers_def Let_def
  by (simp add: assms erase_field_list fields_list_erase_names connection_tokens_elements [OF assms]
      hop_by_hop_def hop_by_hop_fields_def conj_ac)
    (auto intro!: filter_cong)

section \<open>State and handlers\<close>

text \<open>Durations are in milliseconds.\<close>

record ProxyTimeouts =
  connect_timeout :: int
  write_timeout :: int
  read_timeout :: int

definition ProxyTimeouts_default :: ProxyTimeouts where
  "ProxyTimeouts_default = \<lparr>connect_timeout = 2000, write_timeout = 2000, read_timeout = 5000\<rparr>"

text \<open>
  The completion handler is an abstract value; \<^const>\<open>None\<close> is an empty \<^verbatim>\<open>std::function\<close>. Resolver
  results are passed from \<^verbatim>\<open>on_resolve\<close> to \<^verbatim>\<open>async_connect\<close> unread.
\<close>

record ('f, 'h) UpstreamProxy =
  proxy_upstream :: UpstreamEndpoint
  proxy_request :: "'f HttpRequest"
  proxy_response :: "'f HttpResponse"
  completion_handler :: "'h option"
  proxy_timeouts :: ProxyTimeouts
  client_version :: nat
  client_keep_alive :: bool
  completed :: bool

datatype ('f, 'h, 'r) proxy_call =
    Async_resolve string string
  | Expires_after int
  | Async_connect 'r
  | Async_write "'f HttpRequest"
  | Async_read
  | Socket_shutdown
  | Resolver_cancel
  | Socket_close
  | Log_upstream_error string error_code
  | Call_handler 'h "'f HttpResponse"

definition UpstreamProxy_new ::
    "'f beast \<Rightarrow> UpstreamEndpoint \<Rightarrow> 'f HttpRequest \<Rightarrow> 'h option \<Rightarrow> ProxyTimeouts \<Rightarrow> ('f, 'h) UpstreamProxy" where
  "UpstreamProxy_new B upstream request handler timeouts =
     \<lparr>proxy_upstream = upstream, proxy_request = request, proxy_response = response_new B status_ok 11,
      completion_handler = handler, proxy_timeouts = timeouts,
      client_version = req_version request, client_keep_alive = req_keep_alive B request,
      completed = False\<rparr>"

definition rewritten_request :: "'f beast \<Rightarrow> UpstreamEndpoint \<Rightarrow> 'f HttpRequest \<Rightarrow> 'f HttpRequest" where
  "rewritten_request B upstream request =
     (let request = request\<lparr>req_fields := remove_hop_by_hop_headers B (req_fields request)\<rparr>;
          request = req_set B F_host (upstream_host_header upstream) request;
          request = request\<lparr>req_version := 11\<rparr>;
          request = req_set_keep_alive B False request
      in req_set B F_connection ''close'' request)"

definition forwarded_request :: "'f beast \<Rightarrow> UpstreamEndpoint \<Rightarrow> 'f HttpRequest \<Rightarrow> 'f HttpRequest result" where
  "forwarded_request B upstream request = req_prepare_payload B (rewritten_request B upstream request)"

definition proxy_run ::
    "'f beast \<Rightarrow> ('f, 'h) UpstreamProxy \<Rightarrow> (('f, 'h, 'r) proxy_call list \<times> ('f, 'h) UpstreamProxy) result" where
  "proxy_run B p =
     rbind (forwarded_request B (proxy_upstream p) (proxy_request p)) (\<lambda>request.
       Inr ([Async_resolve (host (proxy_upstream p)) (to_string (unat (port (proxy_upstream p))))],
            p\<lparr>proxy_request := request\<rparr>))"

definition proxy_complete ::
    "'f HttpResponse \<Rightarrow> ('f, 'h) UpstreamProxy \<Rightarrow> ('f, 'h, 'r) proxy_call list \<times> ('f, 'h) UpstreamProxy" where
  "proxy_complete response p =
     (if completed p then ([], p)
      else ([Resolver_cancel, Socket_close] @
            (case completion_handler p of None \<Rightarrow> [] | Some h \<Rightarrow> [Call_handler h response]),
            p\<lparr>completed := True, completion_handler := None\<rparr>))"

definition proxy_fail ::
    "'f beast \<Rightarrow> error_code \<Rightarrow> string \<Rightarrow> ('f, 'h) UpstreamProxy \<Rightarrow>
     ('f, 'h, 'r) proxy_call list \<times> ('f, 'h) UpstreamProxy" where
  "proxy_fail B error operation p =
     (if completed p then ([], p)
      else let (cs, p') =
             (if error = error_timeout then proxy_complete (make_gateway_timeout_response B (proxy_request p)) p
              else proxy_complete (make_bad_gateway_response B (proxy_request p)) p)
           in (Log_upstream_error operation error # cs, p'))"

definition on_resolve ::
    "'f beast \<Rightarrow> error_code \<Rightarrow> 'r \<Rightarrow> ('f, 'h) UpstreamProxy \<Rightarrow>
     ('f, 'h, 'r) proxy_call list \<times> ('f, 'h) UpstreamProxy" where
  "on_resolve B error results p =
     (if error \<noteq> no_error then proxy_fail B error ''resolve'' p
      else ([Expires_after (connect_timeout (proxy_timeouts p)), Async_connect results], p))"

definition on_connect ::
    "'f beast \<Rightarrow> error_code \<Rightarrow> ('f, 'h) UpstreamProxy \<Rightarrow>
     ('f, 'h, 'r) proxy_call list \<times> ('f, 'h) UpstreamProxy" where
  "on_connect B error p =
     (if error \<noteq> no_error then proxy_fail B error ''connect'' p
      else ([Expires_after (write_timeout (proxy_timeouts p)), Async_write (proxy_request p)], p))"

definition on_write ::
    "'f beast \<Rightarrow> error_code \<Rightarrow> ('f, 'h) UpstreamProxy \<Rightarrow>
     ('f, 'h, 'r) proxy_call list \<times> ('f, 'h) UpstreamProxy" where
  "on_write B error p =
     (if error \<noteq> no_error then proxy_fail B error ''write'' p
      else ([Expires_after (read_timeout (proxy_timeouts p)), Async_read], p))"

definition on_read ::
    "'f beast \<Rightarrow> error_code \<Rightarrow> ('f, 'h) UpstreamProxy \<Rightarrow>
     (('f, 'h, 'r) proxy_call list \<times> ('f, 'h) UpstreamProxy) result" where
  "on_read B error p =
     (if error \<noteq> no_error then Inr (proxy_fail B error ''read'' p)
      else
        let response = proxy_response p;
            response = response\<lparr>resp_fields := remove_hop_by_hop_headers B (resp_fields response)\<rparr>;
            response = response\<lparr>resp_version := client_version p\<rparr>;
            response = resp_set_keep_alive B (client_keep_alive p) response
        in rbind (resp_prepare_payload B response) (\<lambda>response.
             let (cs, p') = proxy_complete response (p\<lparr>proxy_response := response\<rparr>)
             in Inr (Socket_shutdown # cs, p')))"

subsection \<open>Runs\<close>

text \<open>
  The one operation a proxy waits for is the last asynchronous one it started; \<open>Read_done\<close> carries the
  message \<^verbatim>\<open>http::async_read\<close> left in \<^verbatim>\<open>response_\<close>. Beast's parser reads no body for a status that has none.
\<close>

datatype proxy_wait = Resolving | Connecting | Writing | Reading

datatype ('f, 'r) proxy_event =
    Resolve_done error_code 'r
  | Connect_done error_code
  | Write_done error_code
  | Read_done error_code "'f HttpResponse"

fun event_error :: "('f, 'r) proxy_event \<Rightarrow> error_code" where
  "event_error (Resolve_done e r) = e"
| "event_error (Connect_done e) = e"
| "event_error (Write_done e) = e"
| "event_error (Read_done e m) = e"

fun started :: "('f, 'h, 'r) proxy_call list \<Rightarrow> proxy_wait option" where
  "started [] = None"
| "started (Async_resolve _ _ # _) = Some Resolving"
| "started (Async_connect _ # _) = Some Connecting"
| "started (Async_write _ # _) = Some Writing"
| "started (Async_read # _) = Some Reading"
| "started (_ # cs) = started cs"

type_synonym ('f, 'h) proxy_state = "proxy_wait option \<times> ('f, 'h) UpstreamProxy"

definition readable :: "error_code \<Rightarrow> 'f HttpResponse \<Rightarrow> bool" where
  "readable e m \<longleftrightarrow> e \<noteq> no_error \<or> \<not> bodiless (resp_result m) \<or> resp_body m = []"

fun proxy_handle ::
    "'f beast \<Rightarrow> ('f, 'r) proxy_event \<Rightarrow> ('f, 'h) proxy_state \<Rightarrow>
     (('f, 'h, 'r) proxy_call list \<times> ('f, 'h) UpstreamProxy) result option" where
  "proxy_handle B (Resolve_done e r) (Some Resolving, p) = Some (Inr (on_resolve B e r p))"
| "proxy_handle B (Connect_done e) (Some Connecting, p) = Some (Inr (on_connect B e p))"
| "proxy_handle B (Write_done e) (Some Writing, p) = Some (Inr (on_write B e p))"
| "proxy_handle B (Read_done e m) (Some Reading, p) =
     (if readable e m then Some (on_read B e (p\<lparr>proxy_response := m\<rparr>)) else None)"
| "proxy_handle B _ _ = None"

text \<open>The steps that do not throw; by \<open>proxy_handle_total\<close> below these are all.\<close>

definition proxy_step ::
    "'f beast \<Rightarrow> ('f, 'r) proxy_event \<Rightarrow> ('f, 'h) proxy_state \<Rightarrow>
     (('f, 'h, 'r) proxy_call list \<times> ('f, 'h) proxy_state) option" where
  "proxy_step B e s =
     (case proxy_handle B e s of Some (Inr (cs, p)) \<Rightarrow> Some (cs, (started cs, p)) | _ \<Rightarrow> None)"

definition proxy_exec ::
    "'f beast \<Rightarrow> ('f, 'r) proxy_event list \<Rightarrow> ('f, 'h) UpstreamProxy \<Rightarrow>
     (('f, 'h, 'r) proxy_call list \<times> ('f, 'h) proxy_state) option" where
  "proxy_exec B es p =
     (case proxy_run B p of
        Inl err \<Rightarrow> None
      | Inr (cs0, p0) \<Rightarrow>
          map_option (\<lambda>(cs, s). (cs0 @ cs, s)) (run_events (proxy_step B) es (started cs0, p0)))"

section \<open>A proxy reports once\<close>

fun proxy_outstanding :: "('f, 'h) proxy_state \<Rightarrow> nat" where
  "proxy_outstanding (None, p) = 0"
| "proxy_outstanding (Some Resolving, p) = 4"
| "proxy_outstanding (Some Connecting, p) = 3"
| "proxy_outstanding (Some Writing, p) = 2"
| "proxy_outstanding (Some Reading, p) = 1"

definition proxy_finished :: "('f, 'h) proxy_state \<Rightarrow> bool" where
  "proxy_finished s \<longleftrightarrow> completed (snd s)"

definition proxy_inv :: "('f, 'h) proxy_state \<Rightarrow> bool" where
  "proxy_inv s \<longleftrightarrow> (completed (snd s) \<longleftrightarrow> fst s = None) \<and> (fst s \<noteq> None \<longrightarrow> completion_handler (snd s) \<noteq> None)"

fun is_report :: "('f, 'h, 'r) proxy_call \<Rightarrow> bool" where
  "is_report (Call_handler h r) = True"
| "is_report _ = False"


definition relayed_response :: "'f beast \<Rightarrow> nat \<Rightarrow> bool \<Rightarrow> 'f HttpResponse \<Rightarrow> 'f HttpResponse" where
  "relayed_response B version keep m =
     resp_payload B (resp_set_keep_alive B keep
       (m\<lparr>resp_fields := remove_hop_by_hop_headers B (resp_fields m), resp_version := version\<rparr>))"

definition relay_read ::
    "'f beast \<Rightarrow> error_code \<Rightarrow> ('f, 'h) UpstreamProxy \<Rightarrow> ('f, 'h, 'r) proxy_call list \<times> ('f, 'h) UpstreamProxy" where
  "relay_read B error p =
     (if error \<noteq> no_error then proxy_fail B error ''read'' p
      else let response = relayed_response B (client_version p) (client_keep_alive p) (proxy_response p);
               (cs, p') = proxy_complete response (p\<lparr>proxy_response := response\<rparr>)
           in (Socket_shutdown # cs, p'))"

lemma on_read_Inr: "on_read B error p = Inr x \<Longrightarrow> relay_read B error p = x"
  by (auto simp: on_read_def relay_read_def relayed_response_def resp_prepare_payload_def Let_def
      split: if_splits option.splits prod.splits)

lemma on_read_total:
  "beast_ok B \<Longrightarrow> readable error (proxy_response p) \<Longrightarrow> on_read B error p = Inr (relay_read B error p)"
  by (auto simp: on_read_def relay_read_def relayed_response_def readable_def resp_set_keep_alive_def
      resp_prepare_payload_eq Let_def split: prod.split)

lemma proxy_handle_total [totality]: "beast_ok B \<Longrightarrow> proxy_handle B e s \<noteq> Some (Inl err)"
  by (cases "(B, e, s)" rule: proxy_handle.cases) (auto simp: on_read_total)

lemma proxy_handle_step:
  "proxy_handle B e s = Some (Inr (cs, p)) \<longleftrightarrow> proxy_step B e s = Some (cs, started cs, p)"
  by (auto simp: proxy_step_def split: option.splits sum.splits)

lemma proxy_stepE [consumes 1, case_names resolved connected written received]:
  assumes "proxy_step B e s = Some (cs, s')"
  obtains (resolved) err x p p' where "e = Resolve_done err x" "s = (Some Resolving, p)"
      "on_resolve B err x p = (cs, p')" "s' = (started cs, p')"
    | (connected) err p p' where "e = Connect_done err" "s = (Some Connecting, p)"
      "on_connect B err p = (cs, p')" "s' = (started cs, p')"
    | (written) err p p' where "e = Write_done err" "s = (Some Writing, p)"
      "on_write B err p = (cs, p')" "s' = (started cs, p')"
    | (received) err m p p' where "e = Read_done err m" "s = (Some Reading, p)"
      "relay_read B err (p\<lparr>proxy_response := m\<rparr>) = (cs, p')" "s' = (started cs, p')"
  using assms
  by (cases "(B, e, s)" rule: proxy_handle.cases)
    (auto simp: proxy_step_def split: if_splits sum.splits prod.splits dest!: on_read_Inr)

lemma proxy_step_simps [simp]:
  "proxy_step B (Resolve_done err x) (Some Resolving, p) = (case on_resolve B err x p of (cs, p') \<Rightarrow> Some (cs, (started cs, p')))"
  "proxy_step B (Connect_done err) (Some Connecting, p) = (case on_connect B err p of (cs, p') \<Rightarrow> Some (cs, (started cs, p')))"
  "proxy_step B (Write_done err) (Some Writing, p) = (case on_write B err p of (cs, p') \<Rightarrow> Some (cs, (started cs, p')))"
  "beast_ok B \<Longrightarrow> readable err m \<Longrightarrow> proxy_step B (Read_done err m) (Some Reading, p) =
     (case relay_read B err (p\<lparr>proxy_response := m\<rparr>) of (cs, p') \<Rightarrow> Some (cs, (started cs, p')))"
  by (simp_all add: proxy_step_def on_read_total)

lemmas proxy_defs = on_resolve_def on_connect_def on_write_def relay_read_def proxy_fail_def
  proxy_complete_def Let_def

definition failure_response :: "'f beast \<Rightarrow> error_code \<Rightarrow> 'f HttpRequest \<Rightarrow> 'f HttpResponse" where
  "failure_response B err q =
     (if err = error_timeout then make_gateway_timeout_response B q else make_bad_gateway_response B q)"

lemma proxy_fail_open:
  "\<not> completed p \<Longrightarrow> completion_handler p = Some h \<Longrightarrow>
   proxy_fail B err operation p =
     ([Log_upstream_error operation err, Resolver_cancel, Socket_close,
       Call_handler h (failure_response B err (proxy_request p))],
      p\<lparr>completed := True, completion_handler := None\<rparr>)"
  by (simp add: proxy_fail_def proxy_complete_def failure_response_def)

lemma relay_read_open:
  "\<not> completed p \<Longrightarrow> completion_handler p = Some h \<Longrightarrow>
   relay_read B err p =
     (if err \<noteq> no_error then proxy_fail B err ''read'' p
      else let r = relayed_response B (client_version p) (client_keep_alive p) (proxy_response p)
           in ([Socket_shutdown, Resolver_cancel, Socket_close, Call_handler h r],
               p\<lparr>proxy_response := r, completed := True, completion_handler := None\<rparr>))"
  by (simp add: relay_read_def proxy_complete_def Let_def)

text \<open>What one event does: start the next operation, or finish and report.\<close>

lemma proxy_step_cases:
  assumes "proxy_inv s" and "proxy_step B e s = Some (cs, s')"
  obtains (continue) "fst s' \<noteq> None" "proxy_outstanding s = Suc (proxy_outstanding s')" "proxy_inv s'"
      "filter is_report cs = []"
    | (finish) h r where "fst s' = None" "completed (snd s')" "completion_handler (snd s) = Some h"
      "filter is_report cs = [Call_handler h r]" "fst s \<noteq> None"
proof -
  have "completion_handler (snd s) \<noteq> None" "\<not> completed (snd s)"
    using assms(2,1) by (cases rule: proxy_stepE; simp add: proxy_inv_def)+
  then obtain h where h: "completion_handler (snd s) = Some h" "\<not> completed (snd s)"
    by blast
  note open_defs = on_resolve_def on_connect_def on_write_def relay_read_open proxy_fail_open Let_def proxy_inv_def
  show ?thesis
    using assms(2)
  proof (cases rule: proxy_stepE)
    case (resolved err x p p')
    with h continue finish [of h] show ?thesis
      by (cases "err = no_error") (auto simp: open_defs)
  next
    case (connected err p p')
    with h continue finish [of h] show ?thesis
      by (cases "err = no_error") (auto simp: open_defs)
  next
    case (written err p p')
    with h continue finish [of h] show ?thesis
      by (cases "err = no_error") (auto simp: open_defs)
  next
    case (received err m p p')
    with h finish [of h] show ?thesis
      by (cases "err = no_error") (auto simp: open_defs)
  qed
qed

lemma proxy_step_enabled: "\<exists>e. proxy_step B e (Some w, p) \<noteq> None"
proof -
  have "proxy_step B (case w of Resolving \<Rightarrow> Resolve_done error_timeout undefined | Connecting \<Rightarrow> Connect_done error_timeout
      | Writing \<Rightarrow> Write_done error_timeout | Reading \<Rightarrow> Read_done error_timeout undefined) (Some w, p) \<noteq> None"
    by (cases w) (simp_all add: proxy_step_def readable_def on_read_def split: prod.split)
  then show ?thesis by blast
qed

interpretation proxy: one_shot proxy_inv proxy_finished proxy_outstanding "proxy_step B" is_report
  for B :: "'f beast"
proof
  fix s s' :: "('f, 'h) proxy_state" and e :: "('f, 'r) proxy_event" and cs
  assume inv: "proxy_inv s" and step: "proxy_step B e s = Some (cs, s')"
  show "proxy_inv s'"
    by (rule proxy_step_cases [OF inv step]) (auto simp: proxy_inv_def)
  show "proxy_outstanding s' < proxy_outstanding s"
    by (rule proxy_step_cases [OF inv step]; cases s; cases s'; cases "fst s"; cases "the (fst s)") auto
  show "length (filter is_report cs) = (if proxy_finished s' \<and> \<not> proxy_finished s then 1 else 0)"
    by (rule proxy_step_cases [OF inv step]) (use inv in \<open>auto simp: proxy_inv_def proxy_finished_def\<close>)
  assume "proxy_finished s"
  then show "proxy_finished s'"
    by (cases s; cases e) (use inv step in \<open>auto simp: proxy_inv_def proxy_finished_def proxy_step_def\<close>)
next
  fix s :: "('f, 'h) proxy_state"
  assume inv: "proxy_inv s"
  show "proxy_finished s" if "proxy_outstanding s = 0"
    using that inv by (cases s rule: proxy_outstanding.cases) (auto simp: proxy_inv_def proxy_finished_def)
  show "\<exists>e. proxy_step B e s \<noteq> None" if "proxy_outstanding s > 0"
    using that proxy_step_enabled by (cases s rule: proxy_outstanding.cases) simp_all
qed

section \<open>What is forwarded and what is relayed\<close>

definition end_to_end :: "header list \<Rightarrow> header \<Rightarrow> bool" where
  "end_to_end hs h \<longleftrightarrow> \<not> hop_by_hop hs h \<and> \<not> is_field F_host h \<and> \<not> is_payload_field h"

lemma hop_by_hop_connection: "is_field F_connection h \<Longrightarrow> hop_by_hop hs h"
  by (auto simp: hop_by_hop_def hop_by_hop_fields_def)

lemma filter_hop_by_hop:
  "beast_ok B \<Longrightarrow> (\<And>h. Q h \<Longrightarrow> \<not> hop_by_hop (fields_list B fs) h) \<Longrightarrow>
   filter Q (fields_list B (remove_hop_by_hop_headers B fs)) = filter Q (fields_list B fs)"
  by (auto simp: remove_hop_by_hop_filter intro!: filter_cong)

lemma end_to_end_frame:
  assumes "filter (\<lambda>h. \<not> P h) xs = filter (\<lambda>h. \<not> P h) ys" and "\<And>h. P h \<Longrightarrow> \<not> end_to_end hs h"
  shows "filter (end_to_end hs) xs = filter (end_to_end hs) ys"
  by (rule filter_fields_other [OF assms(1)]) (use assms(2) in blast)

lemma not_end_to_end:
  "is_payload_field h \<Longrightarrow> \<not> end_to_end hs h"
  "f \<in> {F_host, F_connection} \<Longrightarrow> is_field f h \<Longrightarrow> \<not> end_to_end hs h"
  by (auto simp: end_to_end_def hop_by_hop_connection)

lemma end_to_end_frames:
  assumes "beast_ok B"
  shows "filter (end_to_end hs) (fields_list B (payload_fields_req B q)) =
      filter (end_to_end hs) (fields_list B (req_fields q))"
    and "filter (end_to_end hs) (fields_list B (payload_fields_resp B r)) =
      filter (end_to_end hs) (fields_list B (resp_fields r))"
    and "f \<in> {F_host, F_connection} \<Longrightarrow> filter (end_to_end hs) (fields_list B (set_field B f v fs)) =
      filter (end_to_end hs) (fields_list B fs)"
    and "filter (end_to_end hs) (fields_list B (set_keep_alive B n b fs)) =
      filter (end_to_end hs) (fields_list B fs)"
    and "filter (end_to_end (fields_list B fs)) (fields_list B (remove_hop_by_hop_headers B fs)) =
      filter (end_to_end (fields_list B fs)) (fields_list B fs)"
proof -
  show "filter (end_to_end hs) (fields_list B (set_field B f v fs)) =
      filter (end_to_end hs) (fields_list B fs)" if "f \<in> {F_host, F_connection}"
    by (rule end_to_end_frame [OF set_field_frame [OF assms] not_end_to_end(2) [OF that]])
  show "filter (end_to_end hs) (fields_list B (set_keep_alive B n b fs)) = filter (end_to_end hs) (fields_list B fs)"
    by (rule end_to_end_frame [OF set_keep_alive_frame [OF assms] not_end_to_end(2)]) simp_all
  show "filter (end_to_end (fields_list B fs)) (fields_list B (remove_hop_by_hop_headers B fs)) =
      filter (end_to_end (fields_list B fs)) (fields_list B fs)"
    by (rule filter_hop_by_hop [OF assms]) (simp add: end_to_end_def)
qed (rule end_to_end_frame [OF payload_req_frame [OF assms] not_end_to_end(1)], assumption,
    rule end_to_end_frame [OF payload_resp_frame [OF assms] not_end_to_end(1)], assumption)

text \<open>
  Exactly which fields of a rewritten message are the original ones: the proxy sets the fields in \<open>P\<close>
  after the removal, and \<^verbatim>\<open>prepare_payload\<close> comes last.
\<close>

lemma rewritten_fields:
  assumes "filter (\<lambda>h. \<not> P h) xs = filter (\<lambda>h. \<not> P h) (filter (\<lambda>h. \<not> hop_by_hop hs h) hs)"
    and "filter (\<lambda>h. \<not> is_payload_field h) ys = filter (\<lambda>h. \<not> is_payload_field h) xs"
    and "no_field F_transfer_encoding xs \<Longrightarrow> no_field F_transfer_encoding ys"
    and "\<And>h. is_field F_transfer_encoding h \<Longrightarrow> \<not> P h"
  shows "filter (\<lambda>h. \<not> P h \<and> \<not> is_field F_content_length h) ys =
    filter (\<lambda>h. \<not> hop_by_hop hs h \<and> \<not> P h \<and> \<not> is_field F_content_length h) hs"
proof -
  have te: "hop_by_hop hs h" if "is_field F_transfer_encoding h" for h
    using that by (auto simp: hop_by_hop_def hop_by_hop_fields_def)
  have "no_field F_transfer_encoding xs"
    unfolding no_field_def
  proof
    fix h
    assume "h \<in> set xs"
    then have "h \<in> set (filter (\<lambda>h. \<not> P h) xs)" if "is_field F_transfer_encoding h"
      using assms(4) [OF that] by simp
    then show "\<not> is_field F_transfer_encoding h"
      unfolding assms(1) using te by auto
  qed
  from assms(3) [OF this]
  have "filter (\<lambda>h. \<not> P h \<and> \<not> is_field F_content_length h) ys = filter (\<lambda>h. \<not> P h) (filter (\<lambda>h. \<not> is_payload_field h) ys)"
    by (auto simp: no_field_def is_payload_field_def intro!: filter_cong)
  also have "\<dots> = filter (\<lambda>h. \<not> is_payload_field h) (filter (\<lambda>h. \<not> P h) xs)"
    by (simp add: assms(2) conj_commute)
  also have "\<dots> = filter (\<lambda>h. \<not> hop_by_hop hs h \<and> \<not> P h \<and> \<not> is_field F_content_length h) hs"
    unfolding assms(1) using te by (auto simp: is_payload_field_def intro!: filter_cong)
  finally show ?thesis .
qed

definition sent_request :: "'f beast \<Rightarrow> UpstreamEndpoint \<Rightarrow> 'f HttpRequest \<Rightarrow> 'f HttpRequest" where
  "sent_request B u q = req_payload B (rewritten_request B u q)"

lemmas rewritten_defs = rewritten_request_def req_set_def req_set_keep_alive_def Let_def

lemma sent_request_simps [simp]:
  "req_method (sent_request B u q) = req_method q"
  "req_target (sent_request B u q) = req_target q"
  "req_body (sent_request B u q) = req_body q"
  "req_version (sent_request B u q) = 11"
  by (simp_all add: sent_request_def req_payload_def rewritten_defs)

lemma forwarded_request_eq:
  "beast_ok B \<Longrightarrow> forwarded_request B u q =
     (if sendable q then Inr (sent_request B u q) else Inl (Invalid_argument ''invalid request body''))"
  by (simp add: forwarded_request_def req_prepare_payload_eq sent_request_def sendable_def rewritten_defs)

lemma forwarded_request_sent: "forwarded_request B u q = Inr q' \<Longrightarrow> q' = sent_request B u q"
  by (auto simp: forwarded_request_def req_prepare_payload_def sent_request_def split: option.splits)

lemma sent_request_fields:
  assumes "beast_ok B"
  shows "find_field B F_host (req_fields (sent_request B u q)) = Some (upstream_host_header u)"
    and "find_field B F_connection (req_fields (sent_request B u q)) = Some ''close''"
    and "\<not> req_keep_alive B (sent_request B u q)"
    and "filter (end_to_end (fields_list B (req_fields q))) (fields_list B (req_fields (sent_request B u q))) =
      filter (end_to_end (fields_list B (req_fields q))) (fields_list B (req_fields q))"
  using assms
  by (simp_all add: sent_request_def req_payload_def rewritten_defs req_keep_alive_def end_to_end_frames)

lemma sent_request_exact:
  assumes "beast_ok B"
  shows "filter (\<lambda>h. \<not> (is_field F_connection h \<or> is_field F_host h) \<and> \<not> is_field F_content_length h)
      (fields_list B (req_fields (sent_request B u q))) =
    filter (\<lambda>h. \<not> hop_by_hop (fields_list B (req_fields q)) h \<and> \<not> (is_field F_connection h \<or> is_field F_host h) \<and>
      \<not> is_field F_content_length h) (fields_list B (req_fields q))"
proof -
  let ?P = "\<lambda>h. is_field F_connection h \<or> is_field F_host h"
  have set: "filter (\<lambda>h. \<not> ?P h) (fields_list B (set_field B f v fs)) = filter (\<lambda>h. \<not> ?P h) (fields_list B fs)"
    if "f \<in> {F_connection, F_host}" for f v fs
    by (rule filter_fields_other [OF set_field_frame [OF assms, of f]]) (use that in auto)
  have keep: "filter (\<lambda>h. \<not> ?P h) (fields_list B (set_keep_alive B v b fs)) = filter (\<lambda>h. \<not> ?P h) (fields_list B fs)" for v b fs
    by (rule filter_fields_other [OF set_keep_alive_frame [OF assms]]) auto
  have "filter (\<lambda>h. \<not> ?P h) (fields_list B (req_fields (rewritten_request B u q))) =
      filter (\<lambda>h. \<not> ?P h) (filter (\<lambda>h. \<not> hop_by_hop (fields_list B (req_fields q)) h) (fields_list B (req_fields q)))"
    by (simp add: rewritten_defs set keep remove_hop_by_hop_filter [OF assms] del: de_Morgan_disj filter_filter)
  note exact = rewritten_fields [OF this payload_req_frame [OF assms] payload_no_transfer_encoding(1) [OF assms]]
  have "req_fields (sent_request B u q) = payload_fields_req B (rewritten_request B u q)"
    by (simp add: sent_request_def req_payload_def)
  then show ?thesis
    by (simp only:) (rule exact, auto dest: is_field_unique)
qed

lemma relayed_response_exact:
  assumes "beast_ok B"
  shows "filter (\<lambda>h. \<not> is_field F_connection h \<and> \<not> is_field F_content_length h)
      (fields_list B (resp_fields (relayed_response B version keep m))) =
    filter (\<lambda>h. \<not> hop_by_hop (fields_list B (resp_fields m)) h \<and> \<not> is_field F_content_length h)
      (fields_list B (resp_fields m))"
proof -
  let ?hs = "fields_list B (resp_fields m)"
  let ?r = "resp_set_keep_alive B keep
    (m\<lparr>resp_fields := remove_hop_by_hop_headers B (resp_fields m), resp_version := version\<rparr>)"
  have "resp_fields (relayed_response B version keep m) = payload_fields_resp B ?r"
    by (simp add: relayed_response_def resp_payload_def)
  then have "filter (\<lambda>h. \<not> is_field F_connection h \<and> \<not> is_field F_content_length h)
      (fields_list B (resp_fields (relayed_response B version keep m))) =
    filter (\<lambda>h. \<not> hop_by_hop ?hs h \<and> \<not> is_field F_connection h \<and> \<not> is_field F_content_length h) ?hs"
    by (simp only:) (rule rewritten_fields [OF _ payload_resp_frame [OF assms] payload_no_transfer_encoding(2) [OF assms]],
      auto simp: resp_set_keep_alive_def set_keep_alive_frame [OF assms] remove_hop_by_hop_filter [OF assms]
        dest: is_field_unique simp del: filter_filter)
  also have "\<dots> = filter (\<lambda>h. \<not> hop_by_hop ?hs h \<and> \<not> is_field F_content_length h) ?hs"
    using hop_by_hop_connection by (auto intro!: filter_cong)
  finally show ?thesis .
qed

lemma relayed_response_contract:
  fixes m :: "'f HttpResponse" and version :: nat and keep :: bool
  assumes "beast_ok B"
  defines "r \<equiv> relayed_response B version keep m"
  shows "resp_result r = resp_result m" and "resp_body r = resp_body m"
    and "resp_version r = version" and "resp_keep_alive B r = keep" and "need_eof_of B r = (\<not> keep)"
    and "find_field B F_content_length (resp_fields r) \<noteq> None"
proof -
  show keep: "resp_keep_alive B r = keep"
    and len: "find_field B F_content_length (resp_fields r) \<noteq> None"
    using assms(1) content_length_payload [OF assms(1)]
    by (simp_all add: r_def relayed_response_def resp_keep_alive_def resp_set_keep_alive_def
        resp_payload_def del: content_length_payload)
  show "need_eof_of B r = (\<not> keep)"
    using need_eof_prepared [OF assms(1) len] keep by simp
qed (use assms(1) in \<open>simp_all add: r_def relayed_response_def resp_set_keep_alive_def
    resp_payload_def\<close>)

section \<open>Deadlines\<close>

fun deadline_of :: "ProxyTimeouts \<Rightarrow> ('f, 'h, 'r) proxy_call \<Rightarrow> int option" where
  "deadline_of t (Async_connect r) = Some (connect_timeout t)"
| "deadline_of t (Async_write q) = Some (write_timeout t)"
| "deadline_of t Async_read = Some (read_timeout t)"
| "deadline_of t _ = None"

text \<open>Every operation on the stream directly follows the arming of its own deadline.\<close>

primrec guarded :: "ProxyTimeouts \<Rightarrow> ('f, 'h, 'r) proxy_call option \<Rightarrow> ('f, 'h, 'r) proxy_call list \<Rightarrow> bool" where
  "guarded t previous [] \<longleftrightarrow> True"
| "guarded t previous (c # cs) \<longleftrightarrow>
     (case deadline_of t c of None \<Rightarrow> True | Some d \<Rightarrow> previous = Some (Expires_after d)) \<and>
     guarded t (Some c) cs"

lemma guarded_any: "guarded t None cs \<Longrightarrow> guarded t previous cs"
  by (cases cs) (auto split: option.splits)

lemma guarded_append: "guarded t previous cs \<Longrightarrow> guarded t None ds \<Longrightarrow> guarded t previous (cs @ ds)"
  by (induction cs arbitrary: previous) (auto simp: guarded_any)

definition proxy_frame :: "('f, 'h) UpstreamProxy \<Rightarrow> ('f, 'h, 'r) proxy_call list \<times> ('f, 'h) UpstreamProxy \<Rightarrow> bool" where
  "proxy_frame p x \<longleftrightarrow>
     guarded (proxy_timeouts p) None (fst x) \<and> (\<forall>q. Async_write q \<in> set (fst x) \<longrightarrow> q = proxy_request p) \<and>
     proxy_timeouts (snd x) = proxy_timeouts p \<and> proxy_request (snd x) = proxy_request p"

lemma proxy_frame_complete:
  "proxy_frame p (proxy_complete r p)"
  "proxy_frame p (proxy_fail B err operation p)"
  by (simp_all add: proxy_frame_def proxy_complete_def proxy_fail_def Let_def split: option.split)

lemma proxy_frame_handlers:
  "proxy_frame p (on_resolve B err x p)"
  "proxy_frame p (on_connect B err p)"
  "proxy_frame p (on_write B err p)"
  "proxy_frame p (relay_read B err (p\<lparr>proxy_response := m\<rparr>))"
proof -
  show "proxy_frame p (relay_read B err (p\<lparr>proxy_response := m\<rparr>))"
    by (simp add: relay_read_def proxy_frame_def proxy_fail_def proxy_complete_def Let_def split: option.split)
qed (simp_all add: on_resolve_def on_connect_def on_write_def proxy_frame_complete, simp_all add: proxy_frame_def)

lemma proxy_frame_step:
  assumes "proxy_step B e s = Some (cs, s')"
  shows "proxy_frame (snd s) (cs, snd s')"
  using assms by (cases rule: proxy_stepE) (simp; metis proxy_frame_handlers)+

lemma proxy_frame_events:
  assumes "run_events (proxy_step B) es s = Some (cs, s')"
  shows "proxy_frame (snd s) (cs, snd s')"
  using assms
proof (induction es arbitrary: s cs)
  case Nil
  then show ?case by (auto simp: proxy_frame_def)
next
  case (Cons e es)
  then obtain c1 s1 c2 where *: "proxy_step B e s = Some (c1, s1)"
      "run_events (proxy_step B) es s1 = Some (c2, s')" "cs = c1 @ c2"
    by (auto simp: run_events_Cons_eq_Some simp del: run_events.simps)
  then show ?case
    using Cons.IH [OF *(2)] proxy_frame_step [OF *(1)] by (auto simp: proxy_frame_def guarded_append)
qed

section \<open>Properties\<close>

lemma proxy_exec_eq:
  "proxy_exec B es p =
     (case forwarded_request B (proxy_upstream p) (proxy_request p) of
        Inl err \<Rightarrow> None
      | Inr q \<Rightarrow>
          map_option (\<lambda>(cs, s).
              (Async_resolve (host (proxy_upstream p)) (to_string (unat (port (proxy_upstream p)))) # cs, s))
            (run_events (proxy_step B) es (Some Resolving, p\<lparr>proxy_request := q\<rparr>)))"
  by (simp add: proxy_exec_def proxy_run_def split: sum.split)

lemma proxy_execE:
  assumes "proxy_exec B es p = Some (cs, s)"
  obtains ds where "run_events (proxy_step B) es
      (Some Resolving, p\<lparr>proxy_request := sent_request B (proxy_upstream p) (proxy_request p)\<rparr>) = Some (ds, s)"
    and "cs = Async_resolve (host (proxy_upstream p)) (to_string (unat (port (proxy_upstream p)))) # ds"
  using assms by (auto simp: proxy_exec_eq split: sum.splits dest!: forwarded_request_sent)

text \<open>C9. A proxied request reports exactly once: whatever Asio reports for its operations, at most
  four events happen, the completion handler is never called twice, and as long as it has not been
  called an operation is outstanding whose event will continue the run.\<close>

theorem proxy_reports_once:
  fixes B :: "'f beast" and es :: "('f, 'r) proxy_event list" and h :: 'h
  assumes "proxy_exec B es (UpstreamProxy_new B e q (Some h) t) = Some (cs, s)"
  shows "length es \<le> 4 \<and> length (filter is_report cs) \<le> 1 \<and>
    (length (filter is_report cs) = 1 \<or> (\<exists>ev :: ('f, 'r) proxy_event. proxy_step B ev s \<noteq> None))"
proof -
  let ?p = "UpstreamProxy_new B e q (Some h) t"
  let ?s = "(Some Resolving, ?p\<lparr>proxy_request := sent_request B (proxy_upstream ?p) (proxy_request ?p)\<rparr>)"
  have "proxy_inv ?s" "\<not> proxy_finished ?s"
    by (simp_all add: proxy_inv_def proxy_finished_def UpstreamProxy_new_def)
  from assms obtain ds where ds: "run_events (proxy_step B) es ?s = Some (ds, s)"
    and cs: "cs = Async_resolve (host (proxy_upstream ?p)) (to_string (unat (port (proxy_upstream ?p)))) # ds"
    by (rule proxy_execE)
  from proxy.reports_once [OF \<open>proxy_inv ?s\<close> \<open>\<not> proxy_finished ?s\<close> ds] show ?thesis
    by (simp add: cs)
qed

theorem proxy_reports_once_witness:
  "\<exists>cs s. proxy_exec list_beast [Resolve_done no_error (0::nat), Connect_done error_timeout]
      (UpstreamProxy_new list_beast \<lparr>host = ''a'', port = 80\<rparr>
        \<lparr>req_method = verb_get, req_target = ''/x'', req_version = 11, req_fields = [], req_body = []\<rparr>
        (Some (7::nat)) ProxyTimeouts_default) = Some (cs, s) \<and> length (filter is_report cs) \<le> 1"
proof -
  let ?p = "UpstreamProxy_new list_beast \<lparr>host = ''a'', port = 80\<rparr>
        \<lparr>req_method = verb_get, req_target = ''/x'', req_version = 11, req_fields = [], req_body = []\<rparr>
        (Some (7::nat)) ProxyTimeouts_default"
  obtain cs s where "proxy_exec list_beast [Resolve_done no_error (0::nat), Connect_done error_timeout] ?p = Some (cs, s)"
    by (simp add: proxy_exec_eq forwarded_request_eq list_beast_ok sendable_def proxy_defs UpstreamProxy_new_def)
  from proxy_reports_once [OF this] this show ?thesis
    by auto
qed

text \<open>C18. For a request that can be sent (any but a TRACE with a body) and a message a parser can
  produce, the response relayed to the completion handler after four successful operations is the
  upstream's message with its status and body, in the client's HTTP version and keep-alive mode and with a
  Content-Length. Apart from Connection, which the proxy sets for the client, and Content-Length, its
  headers are exactly the upstream's headers that are not hop-by-hop, in their order.\<close>

theorem proxy_relays_response:
  assumes "beast_ok B" and "sendable q" and "readable no_error m"
  shows "\<exists>cs p' r. proxy_exec B [Resolve_done no_error x, Connect_done no_error, Write_done no_error, Read_done no_error m]
        (UpstreamProxy_new B e q (Some h) t) = Some (cs, (None, p')) \<and>
      filter is_report cs = [Call_handler h r] \<and>
      resp_result r = resp_result m \<and> resp_body r = resp_body m \<and>
      resp_version r = req_version q \<and> resp_keep_alive B r = req_keep_alive B q \<and>
      need_eof_of B r = (\<not> req_keep_alive B q) \<and> find_field B F_content_length (resp_fields r) \<noteq> None \<and>
      filter (\<lambda>h. \<not> is_field F_connection h \<and> \<not> is_field F_content_length h) (fields_list B (resp_fields r)) =
        filter (\<lambda>h. \<not> hop_by_hop (fields_list B (resp_fields m)) h \<and> \<not> is_field F_content_length h)
          (fields_list B (resp_fields m))"
proof -
  let ?r = "relayed_response B (req_version q) (req_keep_alive B q) m"
  obtain cs p' where "proxy_exec B [Resolve_done no_error x, Connect_done no_error, Write_done no_error, Read_done no_error m]
      (UpstreamProxy_new B e q (Some h) t) = Some (cs, (None, p'))"
    and "filter is_report cs = [Call_handler h ?r]"
    using assms by (simp add: proxy_exec_eq forwarded_request_eq proxy_defs UpstreamProxy_new_def)
  then show ?thesis
    using relayed_response_contract [OF assms(1), where m = m and version = "req_version q" and keep = "req_keep_alive B q"]
      relayed_response_exact [OF assms(1)] by blast
qed

theorem proxy_relays_response_witness:
  "\<exists>cs p' r. proxy_exec list_beast
      [Resolve_done no_error (0::nat), Connect_done no_error, Write_done no_error,
       Read_done no_error \<lparr>resp_result = 200, resp_version = 10, resp_fields = [(''X'', ''1''), (''TE'', ''gzip'')], resp_body = ''b''\<rparr>]
      (UpstreamProxy_new list_beast \<lparr>host = ''a'', port = 80\<rparr>
        \<lparr>req_method = verb_get, req_target = ''/x'', req_version = 11, req_fields = [], req_body = []\<rparr>
        (Some (7::nat)) ProxyTimeouts_default) = Some (cs, (None, p')) \<and>
      filter is_report cs = [Call_handler 7 r] \<and> resp_body r = ''b'' \<and> resp_version r = 11"
  using proxy_relays_response [OF list_beast_ok, where x = "0::nat" and
      m = "\<lparr>resp_result = 200, resp_version = 10, resp_fields = [(''X'', ''1''), (''TE'', ''gzip'')], resp_body = ''b''\<rparr>" and
      e = "\<lparr>host = ''a'', port = 80\<rparr>" and
      q = "\<lparr>req_method = verb_get, req_target = ''/x'', req_version = 11, req_fields = [], req_body = []\<rparr>" and
      h = "7::nat" and t = ProxyTimeouts_default]
  by (auto simp: sendable_def readable_def bodiless_def)

text \<open>C19. For a request that can be sent: when an operation fails, the handler gets a 504 if the failure is the stream's timeout and
  a 502 otherwise, whichever of the four operations it is, and no later operation is started; the
  response is made for the forwarded request, so it is HTTP/1.1 with keep-alive off.\<close>

theorem proxy_reports_failure:
  assumes "beast_ok B" and "err \<noteq> no_error" and "n < 4" and "sendable q"
  shows "\<exists>cs p' r. proxy_exec B
        (take n [Resolve_done no_error x, Connect_done no_error, Write_done no_error] @
         [[Resolve_done err x, Connect_done err, Write_done err, Read_done err m] ! n])
        (UpstreamProxy_new B e q (Some h) t) = Some (cs, (None, p')) \<and>
      filter is_report cs = [Call_handler h r] \<and>
      resp_result r = (if err = error_timeout then status_gateway_timeout else status_bad_gateway) \<and>
      resp_version r = 11 \<and> \<not> resp_keep_alive B r"
proof -
  let ?p = "UpstreamProxy_new B e q (Some h) t"
  let ?q = "sent_request B e q"
  let ?r = "failure_response B err ?q"
  have "n = 0 \<or> n = 1 \<or> n = 2 \<or> n = 3"
    using assms(3) by auto
  then obtain cs p' where run: "proxy_exec B
      (take n [Resolve_done no_error x, Connect_done no_error, Write_done no_error] @
       [[Resolve_done err x, Connect_done err, Write_done err, Read_done err m] ! n]) ?p = Some (cs, (None, p'))"
      "filter is_report cs = [Call_handler h ?r]"
    using assms(1,2,4)
    by (elim disjE) (simp_all add: proxy_exec_eq forwarded_request_eq proxy_fail_open on_resolve_def
        on_connect_def on_write_def relay_read_def readable_def UpstreamProxy_new_def)
  have "resp_result ?r = (if err = error_timeout then status_gateway_timeout else status_bad_gateway)"
    "resp_version ?r = 11" "\<not> resp_keep_alive B ?r"
    using assms(1) by (simp_all add: failure_response_def make_gateway_timeout_response_def
        make_bad_gateway_response_def sent_request_fields)
  with run show ?thesis
    by blast
qed

theorem proxy_reports_failure_witness:
  "\<exists>cs p' r. proxy_exec list_beast [Resolve_done no_error (0::nat), Connect_done error_timeout]
      (UpstreamProxy_new list_beast \<lparr>host = ''a'', port = 80\<rparr>
        \<lparr>req_method = verb_get, req_target = ''/x'', req_version = 11, req_fields = [], req_body = []\<rparr>
        (Some (7::nat)) ProxyTimeouts_default) = Some (cs, (None, p')) \<and>
      filter is_report cs = [Call_handler 7 r] \<and> resp_result r = status_gateway_timeout"
  using proxy_reports_failure [OF list_beast_ok, where err = error_timeout and n = 1 and x = "0::nat" and
      e = "\<lparr>host = ''a'', port = 80\<rparr>" and
      q = "\<lparr>req_method = verb_get, req_target = ''/x'', req_version = 11, req_fields = [], req_body = []\<rparr>" and
      h = "7::nat" and t = ProxyTimeouts_default]
  by (auto simp: sendable_def)

text \<open>C20. What is written to the upstream is the client's request (method, target, body and every
  end-to-end header in its order) as HTTP/1.1 with the upstream's Host and \<^verbatim>\<open>Connection: close\<close>, and apart
  from Host, Connection and Content-Length no hop-by-hop header and no other field: whatever happens, the
  only message a run writes is this one.\<close>

theorem proxy_forwards_request:
  assumes "beast_ok B"
    and "proxy_exec B es (UpstreamProxy_new B e q (Some h) t) = Some (cs, s)" and "Async_write q' \<in> set cs"
  shows "req_method q' = req_method q \<and> req_target q' = req_target q \<and> req_body q' = req_body q \<and>
    req_version q' = 11 \<and> \<not> req_keep_alive B q' \<and>
    find_field B F_host (req_fields q') = Some (upstream_host_header e) \<and>
    find_field B F_connection (req_fields q') = Some ''close'' \<and>
    filter (end_to_end (fields_list B (req_fields q))) (fields_list B (req_fields q')) =
      filter (end_to_end (fields_list B (req_fields q))) (fields_list B (req_fields q)) \<and>
    filter (\<lambda>h. \<not> (is_field F_connection h \<or> is_field F_host h) \<and> \<not> is_field F_content_length h)
        (fields_list B (req_fields q')) =
      filter (\<lambda>h. \<not> hop_by_hop (fields_list B (req_fields q)) h \<and> \<not> (is_field F_connection h \<or> is_field F_host h) \<and>
        \<not> is_field F_content_length h) (fields_list B (req_fields q))"
proof -
  have "q' = sent_request B e q"
    using assms(2,3) by (auto simp: UpstreamProxy_new_def proxy_frame_def elim!: proxy_execE dest!: proxy_frame_events)
  then show ?thesis
    using sent_request_fields [OF assms(1), where u = e and q = q]
      sent_request_exact [OF assms(1), where u = e and q = q] by simp
qed

theorem proxy_forwards_request_witness:
  "\<exists>cs s q'. proxy_exec list_beast [Resolve_done no_error (0::nat), Connect_done no_error]
      (UpstreamProxy_new list_beast \<lparr>host = ''a'', port = 80\<rparr>
        \<lparr>req_method = verb_get, req_target = ''/x'', req_version = 10, req_fields = [(''TE'', ''gzip'')], req_body = []\<rparr>
        (Some (7::nat)) ProxyTimeouts_default) = Some (cs, s) \<and>
      Async_write q' \<in> set cs \<and> req_target q' = ''/x'' \<and> req_version q' = 11"
proof -
  let ?p = "UpstreamProxy_new list_beast \<lparr>host = ''a'', port = 80\<rparr>
        \<lparr>req_method = verb_get, req_target = ''/x'', req_version = 10, req_fields = [(''TE'', ''gzip'')], req_body = []\<rparr>
        (Some (7::nat)) ProxyTimeouts_default"
  obtain cs s q' where run: "proxy_exec list_beast [Resolve_done no_error (0::nat), Connect_done no_error] ?p = Some (cs, s)"
    and "Async_write q' \<in> set cs"
    by (simp add: proxy_exec_eq forwarded_request_eq list_beast_ok sendable_def proxy_defs UpstreamProxy_new_def)
  with proxy_forwards_request [OF list_beast_ok run this(2)] show ?thesis
    by auto
qed

text \<open>C22. Deadlines: in every run each connect, write and read on the upstream stream is started
  directly after its own configured deadline has been armed, so no operation runs under the deadline
  of an earlier one.\<close>

theorem proxy_deadlines:
  assumes "proxy_exec B es (UpstreamProxy_new B e q (Some h) t) = Some (cs, s)"
  shows "guarded t None cs"
  using assms
  by (auto simp: UpstreamProxy_new_def proxy_frame_def guarded_any elim!: proxy_execE dest!: proxy_frame_events)

theorem proxy_deadlines_witness:
  "\<exists>cs s. proxy_exec list_beast [Resolve_done no_error (0::nat), Connect_done no_error, Write_done no_error]
      (UpstreamProxy_new list_beast \<lparr>host = ''a'', port = 80\<rparr>
        \<lparr>req_method = verb_get, req_target = ''/x'', req_version = 11, req_fields = [], req_body = []\<rparr>
        (Some (7::nat)) ProxyTimeouts_default) = Some (cs, s) \<and> guarded ProxyTimeouts_default None cs \<and> Async_read \<in> set cs"
proof -
  let ?p = "UpstreamProxy_new list_beast \<lparr>host = ''a'', port = 80\<rparr>
        \<lparr>req_method = verb_get, req_target = ''/x'', req_version = 11, req_fields = [], req_body = []\<rparr>
        (Some (7::nat)) ProxyTimeouts_default"
  obtain cs s where run: "proxy_exec list_beast [Resolve_done no_error (0::nat), Connect_done no_error, Write_done no_error] ?p = Some (cs, s)"
    and "Async_read \<in> set cs"
    by (simp add: proxy_exec_eq forwarded_request_eq list_beast_ok sendable_def proxy_defs UpstreamProxy_new_def)
  with proxy_deadlines [OF run] show ?thesis
    by auto
qed

text \<open>C21. \<^verbatim>\<open>remove_hop_by_hop_headers\<close> removes exactly the hop-by-hop headers: the eight fixed ones
  and every header named, in any case and any spacing, by an element of a Connection header of the
  message. All other headers stay, in their order.\<close>

theorem hop_by_hop_removed:
  assumes "beast_ok B"
  shows "fields_list B (remove_hop_by_hop_headers B headers) =
    filter (\<lambda>h. \<not> hop_by_hop (fields_list B headers) h) (fields_list B headers)"
  using assms by (rule remove_hop_by_hop_filter)

theorem hop_by_hop_removed_witness:
  "remove_hop_by_hop_headers list_beast
     [(''connection'', ''close, X-Trace ,''), (''x-trace'', ''1''), (''TE'', ''gzip''), (''Accept'', ''*'')] =
   [(''Accept'', ''*'')]"
proof -
  let ?hs = "[(''connection'', ''close, X-Trace ,''), (''x-trace'', ''1''), (''TE'', ''gzip''), (''Accept'', ''*'')]"
  have "remove_hop_by_hop_headers list_beast ?hs = filter (\<lambda>h. \<not> hop_by_hop ?hs h) ?hs"
    using hop_by_hop_removed [OF list_beast_ok, of ?hs] by (simp add: list_beast_sel)
  also have "\<dots> = [(''Accept'', ''*'')]"
    by code_simp
  finally show ?thesis .
qed

end
