(* ===== verification/Http_Session.thy ===== *)
theory Http_Session
  imports Response_Cache Request_Coalescer Metrics Upstream_Proxy
begin

text \<open>
  \<^verbatim>\<open>include/eventedge/http_session.hpp\<close> and \<^verbatim>\<open>src/http_session.cpp\<close>: one client connection. The handlers
  of a session and of its proxy run on the session's strand, one after the other, but handlers of
  different sessions run concurrently on the worker threads and meet in the cache, the coalescer, the
  pool and the metrics. A handler is therefore written as the sequence of its stages, cut before every
  access to a structure that is shared under a mutex: a stage returns the calls it makes and the next
  phase of the session, which is either the rest of the handler (\<open>Busy\<close>) or what the session waits for
  once the handler has returned. \<open>on_read\<close> and \<open>complete_flight\<close> run their stages to the end.
\<close>

section \<open>State\<close>

record 'f HttpSession =
  sess_request :: "'f HttpRequest"
  request_started :: nanos

text \<open>What the sessions share; the coalescer is reached through a \<^verbatim>\<open>std::weak_ptr\<close>, \<^const>\<open>None\<close> once expired.\<close>

record 'f Edge =
  edge_pool :: UpstreamPool
  edge_cache :: "'f HttpResponse ResponseCache"
  edge_coalescer :: "nat RequestCoalescer option"
  edge_metrics :: MetricsRegistry

text \<open>
  The callbacks a session hands out: to the proxy (lines 106-109 and 123-126) and to the coalescer
  (lines 84-88), where the number of the session stands for the closure that posts to its strand.
\<close>

datatype proxy_handler = Flight_handler string | Plain_handler

datatype 'f work =
    Lookup string
  | Join string
  | Select_flight string
  | Select_plain
  | Finish_flight string "'f HttpResponse" bool
  | Complete_flight string "'f HttpResponse"
  | Respond "'f HttpResponse"
  | Write "'f HttpResponse"

datatype 'f phase =
    Reading
  | Busy "'f work"
  | Proxying "('f, proxy_handler) proxy_state"
  | Awaiting string
  | Writing bool
  | Ended

datatype 'f session_call =
    Stream_expires_after int
  | Read_request
  | Write_response "'f HttpResponse"
  | Log_session_error string error_code
  | Shutdown_send
  | New_proxy UpstreamEndpoint "'f HttpRequest" proxy_handler
  | Post_response nat "'f HttpResponse"

type_synonym 'f session_result = "('f session_call list \<times> 'f HttpSession \<times> 'f Edge \<times> 'f phase) result"

definition empty_request :: "'f beast \<Rightarrow> 'f HttpRequest" where
  "empty_request B =
     \<lparr>req_method = verb_other [], req_target = [], req_version = 11, req_fields = fields_empty B, req_body = []\<rparr>"

definition HttpSession_new :: "'f beast \<Rightarrow> 'f HttpSession" where
  "HttpSession_new B = \<lparr>sess_request = empty_request B, request_started = 0\<rparr>"

section \<open>Reading, writing, closing\<close>

definition do_read :: "'f beast \<Rightarrow> 'f HttpSession \<Rightarrow> 'f session_call list \<times> 'f HttpSession \<times> 'f phase" where
  "do_read B s =
     ([Stream_expires_after 30000, Read_request], s\<lparr>sess_request := empty_request B\<rparr>, Reading)"

definition session_run :: "'f beast \<Rightarrow> 'f HttpSession \<Rightarrow> 'f session_call list \<times> 'f HttpSession \<times> 'f phase" where
  "session_run B s = do_read B s"

definition session_close :: "'f HttpSession \<Rightarrow> 'f session_call list \<times> 'f HttpSession \<times> 'f phase" where
  "session_close s = ([Shutdown_send], s, Ended)"

definition session_on_write ::
    "'f beast \<Rightarrow> bool \<Rightarrow> error_code \<Rightarrow> 'f HttpSession \<Rightarrow> 'f session_call list \<times> 'f HttpSession \<times> 'f phase" where
  "session_on_write B close_after_write error s =
     (if error \<noteq> no_error then
        (if error \<noteq> error_operation_aborted then [Log_session_error ''Write'' error] else [], s, Ended)
      else if close_after_write then session_close s
      else do_read B s)"

definition write_response ::
    "'f beast \<Rightarrow> nanos \<Rightarrow> 'f HttpResponse \<Rightarrow> 'f HttpSession \<Rightarrow> 'f Edge \<Rightarrow> 'f session_result" where
  "write_response B now response s g =
     (let m = record_response_status (resp_result response) (edge_metrics g);
          m = observe_duration (now - request_started s) m
      in Inr ([Write_response response], s, g\<lparr>edge_metrics := m\<rparr>, Writing (need_eof_of B response)))"

definition for_current_request :: "'f beast \<Rightarrow> 'f HttpSession \<Rightarrow> 'f HttpResponse \<Rightarrow> 'f HttpResponse" where
  "for_current_request B s response =
     resp_set_keep_alive B (req_keep_alive B (sess_request s))
       (response\<lparr>resp_version := req_version (sess_request s)\<rparr>)"

definition write_response_for_current_request ::
    "'f beast \<Rightarrow> nanos \<Rightarrow> 'f HttpResponse \<Rightarrow> 'f HttpSession \<Rightarrow> 'f Edge \<Rightarrow> 'f session_result" where
  "write_response_for_current_request B now response s g =
     write_response B now (for_current_request B s response) s g"

section \<open>Eligibility for the cache\<close>

definition cacheable_request :: "'f beast \<Rightarrow> 'f HttpRequest \<Rightarrow> bool" where
  "cacheable_request B q \<longleftrightarrow>
     req_method q = verb_get \<and> find_field B F_authorization (req_fields q) = None \<and> \<not> is_health_request q"

definition cacheable_response :: "'f beast \<Rightarrow> 'f HttpResponse \<Rightarrow> bool" where
  "cacheable_response B r \<longleftrightarrow>
     (if resp_result r \<noteq> status_ok \<or> find_field B F_set_cookie (resp_fields r) \<noteq> None then False
      else let cache_control = (case find_field B F_cache_control (resp_fields r) of None \<Rightarrow> [] | Some v \<Rightarrow> v)
           in \<not> sv_contains ''no-store'' cache_control \<and> \<not> sv_contains ''private'' cache_control)"

text \<open>The two predicates in terms of the header lines.\<close>

lemma cacheable_request_headers:
  assumes "beast_ok B"
  shows "cacheable_request B q \<longleftrightarrow>
    req_method q = verb_get \<and> no_field F_authorization (fields_list B (req_fields q)) \<and> req_target q \<noteq> ''/health''"
  by (auto simp: cacheable_request_def find_field_None [OF assms] is_health_request_def)

lemma cacheable_response_headers:
  assumes "beast_ok B"
  shows "cacheable_response B r \<longleftrightarrow>
    resp_result r = 200 \<and> no_field F_set_cookie (fields_list B (resp_fields r)) \<and>
    (case List.find (is_field F_cache_control) (fields_list B (resp_fields r)) of
       None \<Rightarrow> True
     | Some h \<Rightarrow> \<not> sublist ''no-store'' (snd h) \<and> \<not> sublist ''private'' (snd h))"
proof -
  have "find_field B F_cache_control (resp_fields r) =
      map_option snd (List.find (is_field F_cache_control) (fields_list B (resp_fields r)))"
    using assms by (simp add: beast_ok_def beast_fields_ok_def)
  then show ?thesis
    by (auto simp: cacheable_response_def find_field_None [OF assms, symmetric] sv_contains_sublist split: option.splits)
qed

section \<open>The stages of \<^verbatim>\<open>on_read\<close> and \<^verbatim>\<open>complete_flight\<close>\<close>

text \<open>As in \<open>make_response\<close>, \<^verbatim>\<open>prepare_payload\<close> does not throw here: \<open>metrics_response_prepares\<close> below.\<close>

definition metrics_response :: "'f beast \<Rightarrow> 'f HttpRequest \<Rightarrow> string \<Rightarrow> 'f HttpResponse" where
  "metrics_response B q body =
     (let r = response_new B status_ok (req_version q);
          r = resp_set B F_content_type ''text/plain; version=0.0.4'' r;
          r = resp_set_keep_alive B (req_keep_alive B q) r;
          r = r\<lparr>resp_body := body\<rparr>
      in resp_payload B r)"

text \<open>Lines 40-71: errors, the local routes, and the choice between the cached and the plain path.\<close>

definition stage_route ::
    "'f beast \<Rightarrow> nanos \<Rightarrow> error_code \<Rightarrow> 'f HttpSession \<Rightarrow> 'f Edge \<Rightarrow> 'f session_result" where
  "stage_route B now error s g =
     (if error = error_end_of_stream then
        let (cs, s, ph) = session_close s in Inr (cs, s, g, ph)
      else if error \<noteq> no_error then
        Inr (if error \<noteq> error_operation_aborted then [Log_session_error ''Read'' error] else [], s, g, Ended)
      else
        let s = s\<lparr>request_started := now\<rparr>;
            q = sess_request s;
            m = record_request (edge_metrics g)
        in if is_health_request q then
             Inr ([], s, g\<lparr>edge_metrics := record_health_request m\<rparr>, Busy (Write (handle_request B q)))
           else if req_target q = ''/metrics'' then
             let m = record_metrics_request m
             in if req_method q \<noteq> verb_get then
                  Inr ([], s, g\<lparr>edge_metrics := m\<rparr>, Busy (Write (handle_request B q)))
                else rbind (render (edge_pool g) m) (\<lambda>body.
                  Inr ([], s, g\<lparr>edge_metrics := m\<rparr>, Busy (Write (metrics_response B q body))))
           else if cacheable_request B q then
             Inr ([], s, g\<lparr>edge_metrics := m\<rparr>, Busy (Lookup (req_target q)))
           else Inr ([], s, g\<lparr>edge_metrics := m\<rparr>, Busy Select_plain))"

definition stage_lookup :: "nanos \<Rightarrow> string \<Rightarrow> 'f HttpSession \<Rightarrow> 'f Edge \<Rightarrow> 'f session_result" where
  "stage_lookup now key s g =
     rbind (cache_get now key (edge_cache g)) (\<lambda>(cached, cache).
       case cached of
         Some response \<Rightarrow>
           Inr ([], s, g\<lparr>edge_cache := cache, edge_metrics := record_cache_hit (edge_metrics g)\<rparr>,
                Busy (Respond response))
       | None \<Rightarrow>
           Inr ([], s, g\<lparr>edge_cache := cache, edge_metrics := record_cache_miss (edge_metrics g)\<rparr>,
                Busy (Join key)))"

definition stage_join :: "'f beast \<Rightarrow> nat \<Rightarrow> string \<Rightarrow> 'f HttpSession \<Rightarrow> 'f Edge \<Rightarrow> 'f session_result" where
  "stage_join B self key s g =
     (case edge_coalescer g of
        None \<Rightarrow> Inr ([], s, g, Busy (Respond (make_service_unavailable_response B (sess_request s))))
      | Some coalescer \<Rightarrow>
          let (role, coalescer) = join_or_start key self coalescer;
              g = g\<lparr>edge_coalescer := Some coalescer\<rparr>
          in case role of
               Waiter \<Rightarrow> Inr ([], s, g\<lparr>edge_metrics := record_coalescing_waiter (edge_metrics g)\<rparr>, Awaiting key)
             | Leader \<Rightarrow> Inr ([], s, g\<lparr>edge_metrics := record_coalescing_leader (edge_metrics g)\<rparr>,
                             Busy (Select_flight key)))"

text \<open>Lines 100-110 and 118-127: the metrics of a selection, and the proxy, constructed and run.\<close>

definition start_proxy ::
    "'f beast \<Rightarrow> UpstreamEndpoint \<Rightarrow> proxy_handler \<Rightarrow> 'f HttpSession \<Rightarrow> 'f Edge \<Rightarrow> 'f session_result" where
  "start_proxy B upstream handler s g =
     (let m = record_proxy_request (edge_metrics g);
          m = record_upstream_selection (host upstream @ '':'' @ to_string (unat (port upstream))) m;
          m = proxy_started m;
          p = UpstreamProxy_new B upstream (sess_request s) (Some handler) ProxyTimeouts_default
      in rbind (proxy_run B p) (\<lambda>(cs :: ('f, proxy_handler, unit) proxy_call list, p).
           Inr ([New_proxy upstream (sess_request s) handler], s, g\<lparr>edge_metrics := m\<rparr>, Proxying (started cs, p))))"

definition stage_select_flight ::
    "'f beast \<Rightarrow> string \<Rightarrow> 'f HttpSession \<Rightarrow> 'f Edge \<Rightarrow> 'f session_result" where
  "stage_select_flight B key s g =
     (let (upstream, pool) = select (edge_pool g);
          g = g\<lparr>edge_pool := pool\<rparr>
      in case upstream of
           None \<Rightarrow> Inr ([], s, g, Busy (Finish_flight key (make_service_unavailable_response B (sess_request s)) False))
         | Some u \<Rightarrow> start_proxy B u (Flight_handler key) s g)"

definition stage_select_plain :: "'f beast \<Rightarrow> 'f HttpSession \<Rightarrow> 'f Edge \<Rightarrow> 'f session_result" where
  "stage_select_plain B s g =
     (let (upstream, pool) = select (edge_pool g);
          g = g\<lparr>edge_pool := pool\<rparr>
      in case upstream of
           None \<Rightarrow> Inr ([], s, g, Busy (Write (make_service_unavailable_response B (sess_request s))))
         | Some u \<Rightarrow> start_proxy B u Plain_handler s g)"

definition stage_finish_flight ::
    "'f beast \<Rightarrow> nanos \<Rightarrow> string \<Rightarrow> 'f HttpResponse \<Rightarrow> bool \<Rightarrow> 'f HttpSession \<Rightarrow> 'f Edge \<Rightarrow> 'f session_result" where
  "stage_finish_flight B now key response should_cache s g =
     (if should_cache \<and> cacheable_response B response then
        rbind (cache_put now key response (edge_cache g)) (\<lambda>cache.
          Inr ([], s, g\<lparr>edge_cache := cache\<rparr>, Busy (Complete_flight key response)))
      else Inr ([], s, g, Busy (Complete_flight key response)))"

definition stage_complete_flight ::
    "string \<Rightarrow> 'f HttpResponse \<Rightarrow> 'f HttpSession \<Rightarrow> 'f Edge \<Rightarrow> 'f session_result" where
  "stage_complete_flight key response s g =
     (case edge_coalescer g of
        None \<Rightarrow> Inr ([], s, g, Busy (Respond response))
      | Some coalescer \<Rightarrow>
          let (deliveries, coalescer) = complete key response coalescer
          in Inr (map (\<lambda>(w, r). Post_response w r) deliveries, s,
                  g\<lparr>edge_coalescer := Some coalescer\<rparr>, Busy (Respond response)))"

fun session_stage ::
    "'f beast \<Rightarrow> nanos \<Rightarrow> nat \<Rightarrow> 'f work \<Rightarrow> 'f HttpSession \<Rightarrow> 'f Edge \<Rightarrow> 'f session_result" where
  "session_stage B now self (Lookup key) s g = stage_lookup now key s g"
| "session_stage B now self (Join key) s g = stage_join B self key s g"
| "session_stage B now self (Select_flight key) s g = stage_select_flight B key s g"
| "session_stage B now self Select_plain s g = stage_select_plain B s g"
| "session_stage B now self (Finish_flight key r c) s g = stage_finish_flight B now key r c s g"
| "session_stage B now self (Complete_flight key r) s g = stage_complete_flight key r s g"
| "session_stage B now self (Respond r) s g = write_response_for_current_request B now r s g"
| "session_stage B now self (Write r) s g = write_response B now r s g"

text \<open>
  When the proxy of the session calls its completion handler (lines 106-109 and 123-126).
\<close>

fun proxy_reported :: "proxy_handler \<Rightarrow> 'f HttpResponse \<Rightarrow> 'f work" where
  "proxy_reported (Flight_handler key) r = Finish_flight key r True"
| "proxy_reported Plain_handler r = Respond r"

fun reported :: "('f, 'h, 'r) proxy_call list \<Rightarrow> ('h \<times> 'f HttpResponse) option" where
  "reported [] = None"
| "reported (Call_handler h r # cs) = Some (h, r)"
| "reported (_ # cs) = reported cs"

definition stage_proxy ::
    "'f beast \<Rightarrow> ('f, unit) proxy_event \<Rightarrow> ('f, proxy_handler) proxy_state \<Rightarrow> 'f HttpSession \<Rightarrow> 'f Edge \<Rightarrow>
     'f session_result option" where
  "stage_proxy B ev p s g =
     map_option (\<lambda>outcome. rbind outcome (\<lambda>(cs, p').
       case reported cs of
         None \<Rightarrow> Inr ([], s, g, Proxying (started cs, p'))
       | Some (h, r) \<Rightarrow> Inr ([], s, g\<lparr>edge_metrics := proxy_completed (edge_metrics g)\<rparr>, Busy (proxy_reported h r))))
       (proxy_handle B ev p)"

section \<open>Whole handlers\<close>

text \<open>How many stages can follow; every stage leads to one of a lower rank, so a handler returns.\<close>

fun work_rank :: "'f work \<Rightarrow> nat" where
  "work_rank (Lookup _) = 5"
| "work_rank (Join _) = 4"
| "work_rank (Select_flight _) = 3"
| "work_rank (Finish_flight _ _ _) = 2"
| "work_rank (Complete_flight _ _) = 1"
| "work_rank (Respond _) = 0"
| "work_rank Select_plain = 1"
| "work_rank (Write _) = 0"

lemmas stage_defs = stage_lookup_def stage_join_def stage_select_flight_def stage_select_plain_def
  stage_finish_flight_def stage_complete_flight_def write_response_for_current_request_def write_response_def

lemma stage_rank:
  assumes "session_stage B now self w s g = Inr (cs, s', g', Busy w')"
  shows "work_rank w' < work_rank w"
  using assms
  by (cases w)
    (auto simp: stage_defs start_proxy_def Let_def rbind_eq_Inr split: if_splits option.splits Role.splits prod.splits)

text \<open>\<open>clock n\<close> is the reading of the clock in the stage of rank \<open>n\<close>.\<close>

function run_stages ::
    "'f beast \<Rightarrow> (nat \<Rightarrow> nanos) \<Rightarrow> nat \<Rightarrow> 'f phase \<Rightarrow> 'f HttpSession \<Rightarrow> 'f Edge \<Rightarrow> 'f session_result" where
  "run_stages B clock self ph s g =
     (case ph of
        Busy w \<Rightarrow>
          rbind (session_stage B (clock (work_rank w)) self w s g) (\<lambda>(cs, s', g', ph').
            rbind (run_stages B clock self ph' s' g') (\<lambda>(ds, s'', g'', ph''). Inr (cs @ ds, s'', g'', ph'')))
      | _ \<Rightarrow> Inr ([], s, g, ph))"
  by pat_completeness auto

termination
proof (relation "measure (\<lambda>(B, clock, self, ph, s, g). case ph of Busy w \<Rightarrow> Suc (work_rank w) | _ \<Rightarrow> 0)")
  fix B :: "'f beast" and clock self ph s g w x cs y s' z g' ph'
  assume "ph = Busy w" and "session_stage B (clock (work_rank w)) self w s g = Inr x"
    and "(cs, y) = x" and "(s', z) = y" and "(g', ph') = z"
  then show "((B, clock, self, ph', s', g'), (B, clock, self, ph, s, g)) \<in>
      measure (\<lambda>(B, clock, self, ph, s, g). case ph of Busy w \<Rightarrow> Suc (work_rank w) | _ \<Rightarrow> 0)"
    using stage_rank [of B _ self w s g cs s' g'] by (cases ph') auto
qed simp

declare run_stages.simps [simp del]

definition session_on_read ::
    "'f beast \<Rightarrow> (nat \<Rightarrow> nanos) \<Rightarrow> nat \<Rightarrow> error_code \<Rightarrow> 'f HttpRequest \<Rightarrow> 'f HttpSession \<Rightarrow> 'f Edge \<Rightarrow> 'f session_result" where
  "session_on_read B clock self error request s g =
     rbind (stage_route B (clock 6) error (s\<lparr>sess_request := request\<rparr>) g) (\<lambda>(cs, s', g', ph').
       rbind (run_stages B clock self ph' s' g') (\<lambda>(ds, s'', g'', ph''). Inr (cs @ ds, s'', g'', ph'')))"

definition complete_flight ::
    "'f beast \<Rightarrow> (nat \<Rightarrow> nanos) \<Rightarrow> nat \<Rightarrow> string \<Rightarrow> 'f HttpResponse \<Rightarrow> bool \<Rightarrow> 'f HttpSession \<Rightarrow> 'f Edge \<Rightarrow> 'f session_result" where
  "complete_flight B clock self key response should_cache s g =
     run_stages B clock self (Busy (Finish_flight key response should_cache)) s g"

section \<open>Well-formedness of the shared state and of a session\<close>

text \<open>A response whose end the client can find without the connection being closed.\<close>

definition framed :: "'f beast \<Rightarrow> 'f HttpResponse \<Rightarrow> bool" where
  "framed B r \<longleftrightarrow> find_field B F_content_length (resp_fields r) \<noteq> None"

definition storable :: "'f beast \<Rightarrow> 'f HttpResponse \<Rightarrow> bool" where
  "storable B r \<longleftrightarrow> framed B r \<and> cacheable_response B r"

definition edge_ok :: "'f beast \<Rightarrow> 'f Edge \<Rightarrow> bool" where
  "edge_ok B g \<longleftrightarrow>
     pool_wf (edge_pool g) \<and> cache_wf (edge_cache g) \<and>
     length (upstreams (edge_metrics g)) = pool_size (edge_pool g) \<and>
     (\<forall>p \<in> set (contents (edge_cache g)). storable B (fst (snd p)))"

text \<open>What a session has established when it reaches a stage.\<close>

definition fetches :: "'f beast \<Rightarrow> 'f HttpSession \<Rightarrow> string \<Rightarrow> bool" where
  "fetches B s key \<longleftrightarrow> cacheable_request B (sess_request s) \<and> req_target (sess_request s) = key"

fun work_ok :: "'f beast \<Rightarrow> 'f HttpSession \<Rightarrow> 'f work \<Rightarrow> bool" where
  "work_ok B s (Lookup key) \<longleftrightarrow> fetches B s key"
| "work_ok B s (Join key) \<longleftrightarrow> fetches B s key"
| "work_ok B s (Select_flight key) \<longleftrightarrow> fetches B s key"
| "work_ok B s Select_plain \<longleftrightarrow> True"
| "work_ok B s (Finish_flight key r c) \<longleftrightarrow> fetches B s key \<and> framed B r"
| "work_ok B s (Complete_flight key r) \<longleftrightarrow> fetches B s key \<and> framed B r"
| "work_ok B s (Respond r) \<longleftrightarrow> framed B r"
| "work_ok B s (Write r) \<longleftrightarrow> framed B r \<and> resp_version r = req_version (sess_request s) \<and>
     resp_keep_alive B r = req_keep_alive B (sess_request s)"

fun phase_ok :: "'f beast \<Rightarrow> 'f HttpSession \<Rightarrow> 'f phase \<Rightarrow> bool" where
  "phase_ok B s (Busy w) \<longleftrightarrow> work_ok B s w"
| "phase_ok B s (Proxying p) \<longleftrightarrow> proxy_inv p \<and> fst p \<noteq> None \<and>
     (\<forall>key. completion_handler (snd p) = Some (Flight_handler key) \<longrightarrow> fetches B s key)"
| "phase_ok B s (Awaiting key) \<longleftrightarrow> fetches B s key"
| "phase_ok B s (Writing c) \<longleftrightarrow> c = (\<not> req_keep_alive B (sess_request s))"
| "phase_ok B s _ \<longleftrightarrow> True"

lemma framed_set_keep_alive [simp]:
  "beast_ok B \<Longrightarrow> framed B (resp_set_keep_alive B b r) \<longleftrightarrow> framed B r"
  by (simp add: framed_def resp_set_keep_alive_def)

lemma framed_version [simp]: "framed B (r\<lparr>resp_version := v\<rparr>) \<longleftrightarrow> framed B r"
  by (simp add: framed_def)

lemma framed_prepared [simp]: "beast_ok B \<Longrightarrow> framed B (resp_payload B r)"
  using content_length_payload by (auto simp: framed_def resp_payload_def)

lemma local_response_work: "local_response B (sess_request s) r \<Longrightarrow> work_ok B s (Write r)"
  by (simp add: local_response_def framed_def)

lemma framed_make_response [simp]: "beast_ok B \<Longrightarrow> framed B (make_response B q st ct body)"
  using make_response_fields(3) by (simp add: framed_def)

lemma metrics_response_work:
  assumes "beast_ok B"
  shows "work_ok B s (Write (metrics_response B (sess_request s) body))"
  using assms framed_prepared [OF assms]
  by (simp add: metrics_response_def Let_def)
    (simp add: response_new_def resp_set_def resp_set_keep_alive_def resp_payload_def resp_keep_alive_def)

lemma metrics_response_prepares:
  assumes "beast_ok B"
  shows "\<exists>r. metrics_response B q body = resp_payload B r \<and> resp_body r = body \<and>
    resp_prepare_payload B r = Inr (metrics_response B q body)"
  using assms
  by (auto simp: metrics_response_def Let_def resp_prepare_payload_eq bodiless_def response_new_def resp_set_def
      resp_set_keep_alive_def)

lemma for_current_request_work:
  assumes "beast_ok B" and "framed B r"
  shows "work_ok B s (Write (for_current_request B s r))"
  using assms
  by (simp add: for_current_request_def) (simp add: resp_set_keep_alive_def resp_keep_alive_def)

lemma write_phase:
  assumes "beast_ok B" and "work_ok B s (Write r)" and "write_response B now r s g = Inr (cs, s', g', ph)"
  shows "phase_ok B s' ph"
  using assms need_eof_prepared [OF assms(1), of r] by (auto simp: write_response_def Let_def framed_def)

lemma cache_get_edge:
  assumes "edge_ok B g"
  obtains r c where "cache_get now key (edge_cache g) = Inr (r, c)" and "edge_ok B (g\<lparr>edge_cache := c\<rparr>)"
    and "\<forall>x. r = Some x \<longrightarrow> storable B x"
    and "set (contents c) \<subseteq> set (contents (edge_cache g))"
proof -
  let ?xs = "contents (edge_cache g)"
  obtain c where c: "cache_get now key (edge_cache g) = Inr (fst (spec_get now key ?xs), c)"
      "contents c = snd (spec_get now key ?xs)" "cache_wf c"
    using cache_get_refines [of "edge_cache g" now key] assms by (auto simp: edge_ok_def)
  have sub: "set (contents c) \<subseteq> set ?xs"
    using c(2) by (auto simp: spec_get_def set_without dest: map_of_SomeD split: option.splits if_splits)
  then have "edge_ok B (g\<lparr>edge_cache := c\<rparr>)"
    using assms c(3) by (auto simp: edge_ok_def)
  moreover have "storable B x" if "fst (spec_get now key ?xs) = Some x" for x
    using that assms
    by (force simp: edge_ok_def spec_get_def dest!: map_of_SomeD split: option.splits if_splits)
  ultimately show thesis
    using c(1) sub by (intro that) auto
qed

lemma cache_put_edge:
  assumes "edge_ok B g" and "storable B r"
  obtains c where "cache_put now key r (edge_cache g) = Inr c" and "edge_ok B (g\<lparr>edge_cache := c\<rparr>)"
    and "set (contents c) \<subseteq> set (contents (edge_cache g)) \<union> {key} \<times> {r} \<times> UNIV"
proof -
  let ?xs = "contents (edge_cache g)"
  obtain c where c: "cache_put now key r (edge_cache g) = Inr c" "cache_wf c"
      "contents c = spec_put (capacity (options (edge_cache g))) (ms (ttl (options (edge_cache g)))) now key r ?xs"
    using cache_put_refines [of "edge_cache g" now key r] assms(1) by (auto simp: edge_ok_def)
  have sub: "set (contents c) \<subseteq> set ?xs \<union> {key} \<times> {r} \<times> UNIV"
    using c(3) by (auto simp: spec_put_def set_without dest: in_set_butlastD split: if_splits)
  then have "\<forall>p \<in> set (contents c). storable B (fst (snd p))"
    using assms by (fastforce simp: edge_ok_def)
  then have "edge_ok B (g\<lparr>edge_cache := c\<rparr>)"
    using assms(1) c(2) by (simp add: edge_ok_def)
  with c(1) sub show thesis
    by (intro that) auto
qed

section \<open>What a stage does\<close>

text \<open>
  The books the metrics keep: running proxies, requests without a response, and misses that have not
  joined a flight. Every stage moves them by what the phases before and after it count for.
\<close>

definition open_requests :: "MetricsRegistry \<Rightarrow> u64" where
  "open_requests m = requests m - duration_count m"

definition unjoined_misses :: "MetricsRegistry \<Rightarrow> u64" where
  "unjoined_misses m = cache_misses m - coalescing_leaders m - coalescing_waiters m"

fun is_proxying :: "'f phase \<Rightarrow> bool" where
  "is_proxying (Proxying p) \<longleftrightarrow> True"
| "is_proxying _ \<longleftrightarrow> False"

fun serving :: "'f phase \<Rightarrow> bool" where
  "serving (Busy w) \<longleftrightarrow> True"
| "serving (Proxying p) \<longleftrightarrow> True"
| "serving (Awaiting key) \<longleftrightarrow> True"
| "serving _ \<longleftrightarrow> False"

fun joining :: "'f phase \<Rightarrow> bool" where
  "joining (Busy (Join key)) \<longleftrightarrow> True"
| "joining _ \<longleftrightarrow> False"

definition booked :: "MetricsRegistry \<Rightarrow> 'f phase \<Rightarrow> MetricsRegistry \<Rightarrow> 'f phase \<Rightarrow> bool" where
  "booked m ph m' ph' \<longleftrightarrow>
     proxy_in_flight m' + of_bool (is_proxying ph) = proxy_in_flight m + of_bool (is_proxying ph') \<and>
     open_requests m' + of_bool (serving ph) = open_requests m + of_bool (serving ph') \<and>
     unjoined_misses m' + of_bool (joining ph) = unjoined_misses m + of_bool (joining ph')"

lemmas book_defs = booked_def open_requests_def unjoined_misses_def

lemma length_bump [simp]: "length (bump_selection l us) = length us"
  by (induction us) auto

lemma edge_ok_metrics:
  "edge_ok B g \<Longrightarrow> length (upstreams m) = length (upstreams (edge_metrics g)) \<Longrightarrow> edge_ok B (g\<lparr>edge_metrics := m\<rparr>)"
  by (simp add: edge_ok_def)

lemma edge_ok_coalescer [simp]: "edge_ok B (g\<lparr>edge_coalescer := q\<rparr>) \<longleftrightarrow> edge_ok B g"
  by (simp add: edge_ok_def)

lemma edge_ok_select:
  "edge_ok B g \<Longrightarrow> select (edge_pool g) = (u, pool) \<Longrightarrow> edge_ok B (g\<lparr>edge_pool := pool\<rparr>)"
  using select_frame [of "edge_pool g"] pool_wf_select [of "edge_pool g"]
  by (simp add: edge_ok_def pool_size_def)

lemma write_effect:
  assumes "beast_ok B" and "edge_ok B g" and "work_ok B s (Write r)"
    and "write_response B now r s g = Inr (cs, s', g', ph)" and "serving ph0" "\<not> is_proxying ph0" "\<not> joining ph0"
  shows "edge_ok B g' \<and> phase_ok B s' ph \<and> sess_request s' = sess_request s \<and>
    edge_coalescer g' = edge_coalescer g \<and> edge_pool g' = edge_pool g \<and> edge_cache g' = edge_cache g \<and>
    booked (edge_metrics g) ph0 (edge_metrics g') ph \<and>
    ph = Writing (\<not> req_keep_alive B (sess_request s)) \<and> cs = [Write_response r]"
  using assms write_phase [OF assms(1,3,4)]
  by (auto simp: write_response_def Let_def metrics_defs book_defs intro!: edge_ok_metrics)

lemma start_proxy_effect:
  assumes "edge_ok B g" and "start_proxy B u h s g = Inr (cs, s', g', ph)"
    and "\<And>key. h = Flight_handler key \<Longrightarrow> fetches B s key" and "serving ph0" "\<not> is_proxying ph0" "\<not> joining ph0"
  shows "edge_ok B g' \<and> phase_ok B s' ph \<and> s' = s \<and>
    edge_coalescer g' = edge_coalescer g \<and> edge_cache g' = edge_cache g \<and>
    booked (edge_metrics g) ph0 (edge_metrics g') ph \<and>
    (\<exists>p. ph = Proxying p \<and> completion_handler (snd p) = Some h)"
  using assms
  by (auto simp: start_proxy_def Let_def proxy_run_def rbind_eq_Inr UpstreamProxy_new_def proxy_inv_def metrics_defs
      book_defs intro!: edge_ok_metrics)

lemma start_proxy_eq:
  assumes "beast_ok B"
  shows "sendable (sess_request s) \<Longrightarrow> \<exists>r. start_proxy B u h s g = Inr r"
    and "\<not> sendable (sess_request s) \<Longrightarrow> start_proxy B u h s g = Inl (Invalid_argument ''invalid request body'')"
  using assms by (auto simp: start_proxy_def Let_def proxy_run_def forwarded_request_eq UpstreamProxy_new_def)

text \<open>
  The one stage that can throw: a TRACE request with a body that is forwarded. Only \<open>Select_plain\<close>
  forwards a request that is no GET.
\<close>

definition unsendable_stage :: "'f work \<Rightarrow> 'f HttpSession \<Rightarrow> 'f Edge \<Rightarrow> bool" where
  "unsendable_stage w s g \<longleftrightarrow>
     (case w of Select_plain \<Rightarrow> \<not> sendable (sess_request s) \<and> fst (select (edge_pool g)) \<noteq> None | _ \<Rightarrow> False)"

lemma sendable_unsendable_stage: "sendable (sess_request s) \<Longrightarrow> \<not> unsendable_stage w s g"
  by (simp add: unsendable_stage_def split: work.split)

lemma fetches_sendable: "fetches B s key \<Longrightarrow> sendable (sess_request s)"
  by (simp add: fetches_def cacheable_request_def sendable_def)

lemma stage_throws:
  assumes "beast_ok B" and "unsendable_stage w s g"
  shows "session_stage B now self w s g = Inl (Invalid_argument ''invalid request body'')"
  using assms start_proxy_eq(2) [OF assms(1)]
  by (cases w) (auto simp: unsendable_stage_def stage_select_plain_def split: prod.splits)

lemma stage_total [totality]:
  assumes "beast_ok B" and "edge_ok B g" and "work_ok B s w" and "\<not> unsendable_stage w s g"
  shows "\<exists>r. session_stage B now self w s g = Inr r"
proof (cases w)
  case (Lookup key)
  obtain r c where "cache_get now key (edge_cache g) = Inr (r, c)"
    by (rule cache_get_edge [OF assms(2)])
  with Lookup show ?thesis
    by (auto simp: stage_lookup_def split: option.split)
next
  case (Finish_flight key r c)
  show ?thesis
  proof (cases "c \<and> cacheable_response B r")
    case True
    then have "storable B r"
      using assms(3) Finish_flight by (simp add: storable_def)
    then obtain cache where "cache_put now key r (edge_cache g) = Inr cache"
      by (rule cache_put_edge [OF assms(2)])
    with Finish_flight show ?thesis
      by (simp add: stage_finish_flight_def)
  next
    case False
    with Finish_flight show ?thesis
      by (auto simp: stage_finish_flight_def)
  qed
next
  case (Select_flight key)
  then have "sendable (sess_request s)"
    using assms(3) by (simp add: fetches_sendable)
  with Select_flight show ?thesis
    using start_proxy_eq(1) [OF assms(1)] by (auto simp: stage_select_flight_def Let_def split: prod.split option.split)
next
  case Select_plain
  with assms(4) show ?thesis
    using start_proxy_eq(1) [OF assms(1)]
    by (auto simp: unsendable_stage_def stage_select_plain_def Let_def split: prod.split option.split)
qed (auto simp: stage_defs Let_def split: option.split Role.split prod.split)

text \<open>Which flight a session leads, and the stages that do not touch the coalescer.\<close>

fun leads :: "string \<Rightarrow> 'f phase \<Rightarrow> bool" where
  "leads k (Busy (Select_flight key)) \<longleftrightarrow> key = k"
| "leads k (Busy (Finish_flight key r c)) \<longleftrightarrow> key = k"
| "leads k (Busy (Complete_flight key r)) \<longleftrightarrow> key = k"
| "leads k (Proxying p) \<longleftrightarrow> completion_handler (snd p) = Some (Flight_handler k)"
| "leads k _ \<longleftrightarrow> False"

fun posts :: "'f session_call list \<Rightarrow> (nat \<times> 'f HttpResponse) list" where
  "posts [] = []"
| "posts (Post_response w r # cs) = (w, r) # posts cs"
| "posts (_ # cs) = posts cs"

definition quiet :: "'f Edge \<Rightarrow> 'f phase \<Rightarrow> 'f session_call list \<Rightarrow> 'f Edge \<Rightarrow> 'f phase \<Rightarrow> bool" where
  "quiet g ph cs g' ph' \<longleftrightarrow>
     edge_coalescer g' = edge_coalescer g \<and> (\<forall>k. leads k ph' = leads k ph) \<and> posts cs = [] \<and>
     (\<forall>k. ph' \<noteq> Awaiting k)"

lemma make_service_unavailable_framed [simp]: "beast_ok B \<Longrightarrow> framed B (make_service_unavailable_response B q)"
  by (simp add: make_service_unavailable_response_def)

lemma service_unavailable_work:
  "beast_ok B \<Longrightarrow> work_ok B s (Write (make_service_unavailable_response B (sess_request s)))"
  by (intro local_response_work) (simp add: make_service_unavailable_response_def make_response_local)

lemma select_plain_effect:
  assumes "beast_ok B" and "edge_ok B g" and "stage_select_plain B s g = Inr (cs, s', g', ph)"
  shows "edge_ok B g' \<and> phase_ok B s' ph \<and> sess_request s' = sess_request s \<and> edge_cache g' = edge_cache g \<and>
    booked (edge_metrics g) (Busy Select_plain) (edge_metrics g') ph \<and> quiet g (Busy Select_plain) cs g' ph"
proof -
  obtain u pool where sel: "select (edge_pool g) = (u, pool)"
    by (cases "select (edge_pool g)")
  note ok = edge_ok_select [OF assms(2) sel]
  show ?thesis
  proof (cases u)
    case None
    with assms(3) sel ok show ?thesis
      using service_unavailable_work [OF assms(1), of s]
      by (auto simp: stage_select_plain_def booked_def quiet_def)
  next
    case (Some e)
    then have p: "start_proxy B e Plain_handler s (g\<lparr>edge_pool := pool\<rparr>) = Inr (cs, s', g', ph)"
      using assms(3) sel by (simp add: stage_select_plain_def)
    have "posts cs = []"
      using p by (auto simp: start_proxy_def Let_def rbind_eq_Inr split: prod.splits)
    with start_proxy_effect [OF ok p, of "Busy Select_plain"] show ?thesis
      by (auto simp: quiet_def)
  qed
qed

lemma select_flight_effect:
  assumes "beast_ok B" and "edge_ok B g" and "fetches B s key" and "stage_select_flight B key s g = Inr (cs, s', g', ph)"
  shows "edge_ok B g' \<and> phase_ok B s' ph \<and> sess_request s' = sess_request s \<and> edge_cache g' = edge_cache g \<and>
    booked (edge_metrics g) (Busy (Select_flight key)) (edge_metrics g') ph \<and> quiet g (Busy (Select_flight key)) cs g' ph"
proof -
  obtain u pool where sel: "select (edge_pool g) = (u, pool)"
    by (cases "select (edge_pool g)")
  note ok = edge_ok_select [OF assms(2) sel]
  show ?thesis
  proof (cases u)
    case None
    with assms sel ok show ?thesis
      by (auto simp: stage_select_flight_def booked_def quiet_def)
  next
    case (Some e)
    then have p: "start_proxy B e (Flight_handler key) s (g\<lparr>edge_pool := pool\<rparr>) = Inr (cs, s', g', ph)"
      using assms(4) sel by (simp add: stage_select_flight_def)
    have "posts cs = []"
      using p by (auto simp: start_proxy_def Let_def rbind_eq_Inr split: prod.splits)
    with start_proxy_effect [OF ok p, of "Busy (Select_flight key)"] assms(3) show ?thesis
      by (auto simp: quiet_def)
  qed
qed

lemma booked_same: "(is_proxying ph \<longleftrightarrow> is_proxying ph') \<Longrightarrow> (serving ph \<longleftrightarrow> serving ph') \<Longrightarrow>
    (joining ph \<longleftrightarrow> joining ph') \<Longrightarrow> booked m ph m ph'"
  by (simp add: booked_def)

lemma lookup_effect:
  assumes "edge_ok B g" and "fetches B s key" and "stage_lookup now key s g = Inr (cs, s', g', ph)"
  shows "edge_ok B g' \<and> phase_ok B s' ph \<and> sess_request s' = sess_request s \<and>
    set (contents (edge_cache g')) \<subseteq> set (contents (edge_cache g)) \<and>
    booked (edge_metrics g) (Busy (Lookup key)) (edge_metrics g') ph \<and> quiet g (Busy (Lookup key)) cs g' ph"
proof -
  obtain r c where get: "cache_get now key (edge_cache g) = Inr (r, c)" and ok: "edge_ok B (g\<lparr>edge_cache := c\<rparr>)"
    and hit: "\<forall>x. r = Some x \<longrightarrow> storable B x" and sub: "set (contents c) \<subseteq> set (contents (edge_cache g))"
    by (rule cache_get_edge [OF assms(1), of now key]) blast
  have "edge_ok B (g\<lparr>edge_cache := c, edge_metrics := m\<rparr>)"
    if "length (upstreams m) = length (upstreams (edge_metrics g))" for m
    using edge_ok_metrics [OF ok, of m] that by simp
  with get hit sub assms(2,3) show ?thesis
    by (cases r) (auto simp: stage_lookup_def metrics_defs book_defs quiet_def storable_def)
qed

lemma finish_flight_effect:
  assumes "edge_ok B g" and "fetches B s key" and "framed B r"
    and "stage_finish_flight B now key r c s g = Inr (cs, s', g', ph)"
  shows "edge_ok B g' \<and> phase_ok B s' ph \<and> sess_request s' = sess_request s \<and>
    set (contents (edge_cache g')) \<subseteq> set (contents (edge_cache g)) \<union> (if c then {key} \<times> {r} \<times> UNIV else {}) \<and>
    booked (edge_metrics g) (Busy (Finish_flight key r c)) (edge_metrics g') ph \<and>
    quiet g (Busy (Finish_flight key r c)) cs g' ph"
proof (cases "c \<and> cacheable_response B r")
  case True
  then obtain cache where put: "cache_put now key r (edge_cache g) = Inr cache"
    and "edge_ok B (g\<lparr>edge_cache := cache\<rparr>)"
    and "set (contents cache) \<subseteq> set (contents (edge_cache g)) \<union> {key} \<times> {r} \<times> UNIV"
    using cache_put_edge [OF assms(1), of r now key] assms(3) unfolding storable_def by metis
  with True assms(2-4) show ?thesis
    by (auto simp: stage_finish_flight_def booked_def quiet_def)
next
  case False
  with assms show ?thesis
    by (auto simp: stage_finish_flight_def booked_def quiet_def)
qed

lemma join_effect:
  assumes "edge_ok B g" and "fetches B s key" and "edge_coalescer g = Some q"
    and "stage_join B self key s g = Inr (cs, s', g', ph)"
  shows "edge_ok B g' \<and> phase_ok B s' ph \<and> s' = s \<and> edge_cache g' = edge_cache g \<and> posts cs = [] \<and>
    booked (edge_metrics g) (Busy (Join key)) (edge_metrics g') ph \<and>
    edge_coalescer g' = Some (snd (join_or_start key self q)) \<and>
    ph = (case pending q key of None \<Rightarrow> Busy (Select_flight key) | Some _ \<Rightarrow> Awaiting key)"
proof -
  have role: "fst (join_or_start key self q) = (case pending q key of None \<Rightarrow> Leader | Some _ \<Rightarrow> Waiter)"
    using coalescer.join_leads [of q key self] coalescer.join_waits [of q key _ self] by (auto split: option.split)
  have ok: "edge_ok B (g\<lparr>edge_coalescer := x, edge_metrics := m\<rparr>)"
    if "length (upstreams m) = length (upstreams (edge_metrics g))" for m x
    using edge_ok_metrics [of B "g\<lparr>edge_coalescer := x\<rparr>" m] assms(1) that by simp
  show ?thesis
  proof (cases "pending q key")
    case None
    with role assms ok show ?thesis
      by (cases "join_or_start key self q") (auto simp: stage_join_def metrics_defs book_defs)
  next
    case (Some ws)
    with role assms ok show ?thesis
      by (cases "join_or_start key self q") (auto simp: stage_join_def metrics_defs book_defs)
  qed
qed

lemma posts_map [simp]: "posts (map (\<lambda>(w, r). Post_response w r) xs) = xs"
  by (induction xs) auto

lemma complete_flight_effect:
  assumes "edge_ok B g" and "framed B r" and "edge_coalescer g = Some q"
    and "stage_complete_flight key r s g = Inr (cs, s', g', ph)"
  shows "edge_ok B g' \<and> phase_ok B s' ph \<and> s' = s \<and> edge_cache g' = edge_cache g \<and>
    posts cs = fst (complete key r q) \<and>
    booked (edge_metrics g) (Busy (Complete_flight key r)) (edge_metrics g') ph \<and>
    edge_coalescer g' = Some (snd (complete key r q)) \<and> ph = Busy (Respond r)"
  using assms by (cases "complete key r q") (auto simp: stage_complete_flight_def booked_def)

lemma stage_effect:
  assumes "beast_ok B" and "edge_ok B g" and "work_ok B s w"
    and "session_stage B now self w s g = Inr (cs, s', g', ph)"
  shows "edge_ok B g' \<and> phase_ok B s' ph \<and> sess_request s' = sess_request s \<and>
    (edge_coalescer g \<noteq> None \<longrightarrow> booked (edge_metrics g) (Busy w) (edge_metrics g') ph)"
proof (cases w)
  case (Lookup key)
  with assms lookup_effect [of B g s key now cs s' g' ph] show ?thesis by simp
next
  case (Join key)
  then have stage: "stage_join B self key s g = Inr (cs, s', g', ph)" "fetches B s key"
    using assms(3,4) by simp_all
  show ?thesis
  proof (cases "edge_coalescer g")
    case None
    with stage assms(1,2) show ?thesis by (auto simp: stage_join_def)
  next
    case (Some q)
    from join_effect [OF assms(2) stage(2) Some stage(1)] Join show ?thesis by blast
  qed
next
  case (Select_flight key)
  with assms select_flight_effect [of B g s key cs s' g' ph] show ?thesis by simp
next
  case Select_plain
  with assms select_plain_effect [of B g s cs s' g' ph] show ?thesis by simp
next
  case (Finish_flight key r c)
  with assms finish_flight_effect [of B g s key r now c cs s' g' ph] show ?thesis by simp
next
  case (Complete_flight key r)
  then have stage: "stage_complete_flight key r s g = Inr (cs, s', g', ph)" "framed B r"
    using assms(3,4) by simp_all
  show ?thesis
  proof (cases "edge_coalescer g")
    case None
    with stage assms(1,2) show ?thesis by (auto simp: stage_complete_flight_def)
  next
    case (Some q)
    from complete_flight_effect [OF assms(2) stage(2) Some stage(1)] Complete_flight show ?thesis by blast
  qed
next
  case (Respond r)
  then have "work_ok B s (Write (for_current_request B s r))"
      "write_response B now (for_current_request B s r) s g = Inr (cs, s', g', ph)"
      "serving (Busy w)" "\<not> is_proxying (Busy w)" "\<not> joining (Busy w)"
    using assms(1,3,4) for_current_request_work [of B r s] by (simp_all add: write_response_for_current_request_def)
  from write_effect [OF assms(1,2) this] show ?thesis by blast
next
  case (Write r)
  then have "work_ok B s (Write r)" "write_response B now r s g = Inr (cs, s', g', ph)"
      "serving (Busy w)" "\<not> is_proxying (Busy w)" "\<not> joining (Busy w)"
    using assms(3,4) by simp_all
  from write_effect [OF assms(1,2) this] show ?thesis by blast
qed

fun touches_flight :: "'f work \<Rightarrow> bool" where
  "touches_flight (Join key) \<longleftrightarrow> True"
| "touches_flight (Complete_flight key r) \<longleftrightarrow> True"
| "touches_flight _ \<longleftrightarrow> False"

lemma stage_quiet:
  assumes "beast_ok B" and "edge_ok B g" and "work_ok B s w" and "\<not> touches_flight w"
    and "session_stage B now self w s g = Inr (cs, s', g', ph)"
  shows "quiet g (Busy w) cs g' ph"
proof (cases w)
  case (Lookup key)
  with assms lookup_effect [of B g s key now cs s' g' ph] show ?thesis by simp
next
  case (Select_flight key)
  with assms select_flight_effect [of B g s key cs s' g' ph] show ?thesis by simp
next
  case Select_plain
  with assms select_plain_effect [of B g s cs s' g' ph] show ?thesis by simp
next
  case (Finish_flight key r c)
  with assms finish_flight_effect [of B g s key r now c cs s' g' ph] show ?thesis by simp
qed (use assms in \<open>auto simp: quiet_def write_response_for_current_request_def write_response_def Let_def\<close>)

lemma stage_cache:
  assumes "beast_ok B" and "edge_ok B g" and "edge_coalescer g = Some q" and "work_ok B s w"
    and "session_stage B now self w s g = Inr (cs, s', g', ph)"
    and "p \<in> set (contents (edge_cache g'))" and "p \<notin> set (contents (edge_cache g))"
  shows "w = Finish_flight (fst p) (fst (snd p)) True \<and> fetches B s (fst p)"
proof (cases w)
  case (Lookup key)
  with assms lookup_effect [of B g s key now cs s' g' ph] show ?thesis by auto
next
  case (Join key)
  with assms join_effect [of B g s key q self cs s' g' ph] show ?thesis by auto
next
  case (Select_flight key)
  with assms select_flight_effect [of B g s key cs s' g' ph] show ?thesis by auto
next
  case Select_plain
  with assms select_plain_effect [of B g s cs s' g' ph] show ?thesis by auto
next
  case (Finish_flight key r c)
  with assms finish_flight_effect [of B g s key r now c cs s' g' ph] show ?thesis
    by (auto split: if_splits)
next
  case (Complete_flight key r)
  with assms complete_flight_effect [of B g r q key s cs s' g' ph] show ?thesis by auto
qed (use assms in \<open>auto simp: write_response_for_current_request_def write_response_def Let_def\<close>)

lemma record_lengths [simp]:
  "length (upstreams (record_request m)) = length (upstreams m)"
  "length (upstreams (record_health_request m)) = length (upstreams m)"
  "length (upstreams (record_metrics_request m)) = length (upstreams m)"
  "length (upstreams (proxy_completed m)) = length (upstreams m)"
  by (simp_all add: metrics_defs)

lemma route_total [totality]:
  assumes "edge_ok B g"
  shows "\<exists>r. stage_route B now error s g = Inr r"
proof -
  have "render (edge_pool g) (record_metrics_request (record_request (edge_metrics g))) =
      Inr (concat (map sample_line (samples (edge_pool g) (record_metrics_request (record_request (edge_metrics g))))))"
    using assms by (intro render_samples) (simp add: edge_ok_def)
  then show ?thesis
    by (simp add: stage_route_def session_close_def Let_def)
qed

lemma route_effect:
  assumes "beast_ok B" and "edge_ok B g" and "stage_route B now error s g = Inr (cs, s', g', ph)"
  shows "edge_ok B g' \<and> phase_ok B s' ph \<and> sess_request s' = sess_request s \<and> edge_cache g' = edge_cache g \<and>
    booked (edge_metrics g) Reading (edge_metrics g') ph \<and> quiet g Reading cs g' ph"
proof (cases "error = no_error")
  case False
  with assms(2,3) show ?thesis
    by (auto simp: stage_route_def session_close_def booked_def quiet_def split: if_splits)
next
  case True
  let ?q = "sess_request s"
  let ?m = "record_request (edge_metrics g)"
  have work: "work_ok B (s\<lparr>request_started := now\<rparr>) (Write (handle_request B ?q))"
    "work_ok B (s\<lparr>request_started := now\<rparr>) (Write (metrics_response B ?q body))" for body
    using local_response_work [of B "s\<lparr>request_started := now\<rparr>" "handle_request B ?q"] handle_request_local [OF assms(1), of ?q]
      metrics_response_work [OF assms(1), of "s\<lparr>request_started := now\<rparr>" body] by simp_all
  have ok: "edge_ok B (g\<lparr>edge_metrics := record_health_request ?m\<rparr>)"
    "edge_ok B (g\<lparr>edge_metrics := record_metrics_request ?m\<rparr>)" "edge_ok B (g\<lparr>edge_metrics := ?m\<rparr>)"
    by (rule edge_ok_metrics [OF assms(2)]; simp)+
  have "booked (edge_metrics g) Reading m (Busy w)" if "m \<in> {?m, record_health_request ?m, record_metrics_request ?m}"
    and "\<forall>key. w \<noteq> Join key" for m and w :: "'a work"
    using that by (cases w) (auto simp: book_defs metrics_defs)
  then show ?thesis
    using assms(3) True work ok
    by (auto simp: stage_route_def Let_def quiet_def fetches_def rbind_eq_Inr split: if_splits)
qed

subsection \<open>Events of the proxy\<close>

lemma reported_filter:
  "reported cs = (case filter is_report cs of Call_handler h r # _ \<Rightarrow> Some (h, r) | _ \<Rightarrow> None)"
  by (induction cs rule: reported.induct) auto

lemma proxy_step_framed:
  assumes "beast_ok B" and "proxy_step B e p = Some (cs, p')" and "Call_handler h r \<in> set cs"
  shows "framed B r"
proof -
  have "framed B (make_gateway_timeout_response B q)" "framed B (make_bad_gateway_response B q)" for q
    using assms(1) by (simp_all add: make_gateway_timeout_response_def make_bad_gateway_response_def)
  moreover have "framed B (relayed_response B v k m)" for v k m
    using assms(1) by (simp add: relayed_response_def)
  ultimately have "proxy_step B e p = Some (cs, p') \<Longrightarrow> ?thesis"
    using assms(3) by (elim proxy_stepE) (auto simp: proxy_defs split: if_splits option.splits)
  with assms(2) show ?thesis by blast
qed

lemma proxy_step_handler:
  assumes "proxy_step B e p = Some (cs, p')" and "fst p' \<noteq> None"
  shows "completion_handler (snd p') = completion_handler (snd p)"
  using assms by (cases rule: proxy_stepE) (auto simp: proxy_defs split: if_splits option.splits)

lemma proxy_effect:
  assumes "beast_ok B" and "edge_ok B g" and "phase_ok B s (Proxying p)" and "stage_proxy B e p s g = Some r"
  obtains cs g' ph where "r = Inr (cs, s, g', ph)" and "edge_ok B g'" and "phase_ok B s ph"
    and "edge_cache g' = edge_cache g" and "booked (edge_metrics g) (Proxying p) (edge_metrics g') ph"
    and "quiet g (Proxying p) cs g' ph"
proof -
  obtain cs q where handle: "proxy_handle B e p = Some (Inr (cs, q))"
    using assms(4) proxy_handle_total [OF assms(1), of e p]
    by (auto simp: stage_proxy_def) (metis obj_sumE surj_pair)
  let ?p = "(started cs, q)"
  have step: "proxy_step B e p = Some (cs, ?p)"
    using handle by (simp add: proxy_handle_step)
  have inv: "proxy_inv p"
    using assms(3) by simp
  from inv step show thesis
  proof (cases rule: proxy_step_cases)
    case continue
    then have "reported cs = None"
      by (simp add: reported_filter)
    then have r: "r = Inr ([], s, g, Proxying ?p)"
      using assms(4) handle by (simp add: stage_proxy_def)
    show thesis
      by (rule that [OF r assms(2)])
        (use continue proxy_step_handler [OF step] assms(3) in \<open>auto simp: booked_def quiet_def\<close>)
  next
    case (finish h x)
    then have "reported cs = Some (h, x)"
      by (simp add: reported_filter)
    then have r: "r = Inr ([], s, g\<lparr>edge_metrics := proxy_completed (edge_metrics g)\<rparr>, Busy (proxy_reported h x))"
      using assms(4) handle by (simp add: stage_proxy_def)
    have "Call_handler h x \<in> set (filter is_report cs)"
      using finish by simp
    then have "framed B x"
      using proxy_step_framed [OF assms(1) step] by simp
    moreover have "edge_ok B (g\<lparr>edge_metrics := proxy_completed (edge_metrics g)\<rparr>)"
      by (rule edge_ok_metrics [OF assms(2)]) simp
    ultimately show thesis
      using finish assms(3)
      by (intro that [OF r]; cases h) (auto simp: book_defs metrics_defs quiet_def)
  qed
qed

subsection \<open>Whole handlers\<close>

lemma run_stages_Busy:
  "run_stages B clock self (Busy w) s g =
     rbind (session_stage B (clock (work_rank w)) self w s g) (\<lambda>(cs, s', g', ph').
       rbind (run_stages B clock self ph' s' g') (\<lambda>(ds, s'', g'', ph''). Inr (cs @ ds, s'', g'', ph'')))"
  by (subst run_stages.simps) simp

lemma run_stages_done: "\<forall>w. ph \<noteq> Busy w \<Longrightarrow> run_stages B clock self ph s g = Inr ([], s, g, ph)"
  by (subst run_stages.simps) (simp split: phase.split)

fun starts_operation :: "'f session_call \<Rightarrow> bool" where
  "starts_operation Read_request \<longleftrightarrow> True"
| "starts_operation (Write_response r) \<longleftrightarrow> True"
| "starts_operation (New_proxy u q h) \<longleftrightarrow> True"
| "starts_operation _ \<longleftrightarrow> False"

definition operation_outstanding :: "'f phase \<Rightarrow> bool" where
  "operation_outstanding ph \<longleftrightarrow> ph = Reading \<or> is_proxying ph \<or> (\<exists>c. ph = Writing c)"

lemma stage_starts:
  assumes "session_stage B now self w s g = Inr (cs, s', g', ph)"
  shows "length (filter starts_operation cs) = of_bool (operation_outstanding ph)"
proof -
  have "filter starts_operation (map (\<lambda>(w, r). Post_response w r) xs) = []" for xs :: "(nat \<times> 'a HttpResponse) list"
    by (induction xs) auto
  then show ?thesis
    using assms
    by (cases w)
      (auto simp: stage_defs start_proxy_def operation_outstanding_def Let_def rbind_eq_Inr
        split: if_splits option.splits Role.splits prod.splits)
qed

text \<open>
  Only \<^verbatim>\<open>do_read\<close> arms the deadline of the client's stream, so a response is written under what the read
  of its request has left of the 30 seconds.
\<close>

lemma stage_keeps_deadline:
  assumes "session_stage B now self w s g = Inr (cs, s', g', ph)"
  shows "Stream_expires_after d \<notin> set cs"
  using assms
  by (cases w)
    (auto simp: stage_defs start_proxy_def Let_def rbind_eq_Inr split: if_splits option.splits Role.splits prod.splits)

lemma stage_not_ended:
  assumes "session_stage B now self w s g = Inr (cs, s', g', ph)"
  shows "ph \<noteq> Ended \<and> ph \<noteq> Reading"
  using assms
  by (cases w)
    (auto simp: stage_defs start_proxy_def Let_def rbind_eq_Inr split: if_splits option.splits Role.splits prod.splits)

lemma run_stages_not_reading:
  assumes "run_stages B clock self ph s g = Inr (cs, s', g', ph')" and "ph \<noteq> Reading"
  shows "ph' \<noteq> Reading"
  using assms
proof (induction B clock self ph s g arbitrary: cs rule: run_stages.induct)
  case (1 B clock self ph s g)
  show ?case
  proof (cases "\<exists>w. ph = Busy w")
    case False
    then show ?thesis
      using 1(2,3) run_stages_done [of ph B clock self s g] by simp
  next
    case True
    then obtain w where ph: "ph = Busy w" ..
    with 1(2) obtain c1 s1 g1 ph1 c2 where stage: "session_stage B (clock (work_rank w)) self w s g = Inr (c1, s1, g1, ph1)"
      and run: "run_stages B clock self ph1 s1 g1 = Inr (c2, s', g', ph')"
      by (auto simp: run_stages_Busy rbind_eq_Inr)
    show ?thesis
      by (rule 1(1) [OF ph stage refl refl refl run]) (use stage_not_ended [OF stage] in simp)
  qed
qed

lemma run_stages_effect:
  assumes "beast_ok B" and "edge_ok B g" and "phase_ok B s ph" and "sendable (sess_request s)"
  shows "\<exists>cs s' g' ph'. run_stages B clock self ph s g = Inr (cs, s', g', ph') \<and>
    edge_ok B g' \<and> phase_ok B s' ph' \<and> sess_request s' = sess_request s \<and> (\<forall>w. ph' \<noteq> Busy w) \<and>
    (ph' = Ended \<longleftrightarrow> ph = Ended) \<and>
    length (filter starts_operation cs) = of_bool ((\<exists>w. ph = Busy w) \<and> operation_outstanding ph')"
  using assms
proof (induction B clock self ph s g rule: run_stages.induct)
  case (1 B clock self ph s g)
  show ?case
  proof (cases "\<exists>w. ph = Busy w")
    case False
    then show ?thesis
      using 1(3,4) run_stages_done [of ph B clock self s g] by simp
  next
    case True
    then obtain w where ph: "ph = Busy w" ..
    then obtain cs s' g' ph' where stage: "session_stage B (clock (work_rank w)) self w s g = Inr (cs, s', g', ph')"
      using stage_total [OF 1(2,3), of s w "clock (work_rank w)" self] 1(4,5) by (auto simp: sendable_unsendable_stage)
    have ok: "edge_ok B g'" "phase_ok B s' ph'" "sess_request s' = sess_request s"
      using stage_effect [OF 1(2,3) _ stage] 1(4) ph by simp_all
    from 1(1) [OF ph stage refl refl refl 1(2) ok(1,2)] ok(3) 1(5) obtain ds t h ph2
      where run: "run_stages B clock self ph' s' g' = Inr (ds, t, h, ph2)"
        "edge_ok B h" "phase_ok B t ph2" "sess_request t = sess_request s'" "\<forall>w. ph2 \<noteq> Busy w" "ph2 = Ended \<longleftrightarrow> ph' = Ended"
        "length (filter starts_operation ds) = of_bool ((\<exists>w. ph' = Busy w) \<and> operation_outstanding ph2)"
      by auto
    have "run_stages B clock self ph s g = Inr (cs @ ds, t, h, ph2)"
      using ph stage run(1) by (simp add: run_stages_Busy)
    moreover have "ph2 \<noteq> Ended"
      using run(6) stage_not_ended [OF stage] by simp
    moreover have "length (filter starts_operation (cs @ ds)) = of_bool (operation_outstanding ph2)"
      using run(1,7) stage_starts [OF stage] run_stages_done [of ph' B clock self s' g']
      by (cases "\<exists>w. ph' = Busy w") (auto simp: operation_outstanding_def)
    ultimately show ?thesis
      using run ok ph by simp
  qed
qed

subsection \<open>Failed fetches\<close>






section \<open>Properties\<close>



text \<open>C23. \<^verbatim>\<open>on_read\<close> returns, whatever was read except a TRACE request with a body, whatever the clock says and whether or not the
  coalescer is alive: it throws nothing, keeps the shared state well-formed and leaves the session with
  exactly one reason to go on. Either the session has ended, exactly when the read failed, or it has
  joined the flight of another session, or it has started exactly one asynchronous operation.\<close>

theorem on_read_returns:
  assumes "beast_ok B" and "edge_ok B g" and "sendable request"
  shows "\<exists>cs s' g' ph. session_on_read B clock self error request s g = Inr (cs, s', g', ph) \<and>
    edge_ok B g' \<and> sess_request s' = request \<and>
    (ph = Ended \<longleftrightarrow> error \<noteq> no_error) \<and>
    (ph = Ended \<or> ph = Awaiting (req_target request) \<or> is_proxying ph \<or> ph = Writing (\<not> req_keep_alive B request)) \<and>
    length (filter starts_operation cs) = of_bool (is_proxying ph \<or> (\<exists>c. ph = Writing c))"
proof -
  let ?s = "s\<lparr>sess_request := request\<rparr>"
  obtain cs s' g' ph where route: "stage_route B (clock 6) error ?s g = Inr (cs, s', g', ph)"
    using route_total [OF assms(2), of "clock 6" error ?s] by auto
  note ok = route_effect [OF assms(1,2) route]
  obtain ds t h ph2 where run: "run_stages B clock self ph s' g' = Inr (ds, t, h, ph2)"
      "edge_ok B h" "phase_ok B t ph2" "sess_request t = sess_request s'" "\<forall>w. ph2 \<noteq> Busy w" "ph2 = Ended \<longleftrightarrow> ph = Ended"
      "length (filter starts_operation ds) = of_bool ((\<exists>w. ph = Busy w) \<and> operation_outstanding ph2)"
    using run_stages_effect [OF assms(1), of g' s' ph clock self] ok assms(3) by auto
  have start: "filter starts_operation cs = []" "ph = Ended \<longleftrightarrow> error \<noteq> no_error" "ph = Ended \<or> (\<exists>w. ph = Busy w)"
    using route by (auto simp: stage_route_def session_close_def Let_def rbind_eq_Inr split: if_splits)
  have "ph2 \<noteq> Reading"
    using run_stages_not_reading [OF run(1)] start(3) by auto
  then show ?thesis
    using route run ok start
    by (cases ph2) (auto simp: session_on_read_def fetches_def operation_outstanding_def)
qed

theorem on_read_returns_witness:
  "let pool = \<lparr>backends = [\<lparr>backend_endpoint = \<lparr>host = ''a'', port = 80\<rparr>, backend_healthy = True\<rparr>], next_index = 0\<rparr>;
       q = (empty_request list_beast)\<lparr>req_method := verb_get, req_target := ''/x''\<rparr>
   in \<exists>m c. MetricsRegistry_new pool = Inr m \<and> ResponseCache_new \<lparr>capacity = 2, ttl = 1\<rparr> = Inr c \<and>
      (\<exists>cs s' g' ph. session_on_read list_beast (\<lambda>n. 0) 0 no_error q (HttpSession_new list_beast)
          \<lparr>edge_pool = pool, edge_cache = c, edge_coalescer = None, edge_metrics = m\<rparr> = Inr (cs, s', g', ph) \<and>
        ph \<noteq> Ended \<and> sess_request s' = q)"
proof -
  let ?pool = "\<lparr>backends = [\<lparr>backend_endpoint = \<lparr>host = ''a'', port = 80\<rparr>, backend_healthy = True\<rparr>], next_index = 0\<rparr>"
  let ?q = "(empty_request list_beast)\<lparr>req_method := verb_get, req_target := ''/x''\<rparr>"
  obtain m where m: "MetricsRegistry_new ?pool = Inr m" "length (upstreams m) = 1"
    by (simp add: MetricsRegistry_new_tally tally_def)
  obtain c :: "header list HttpResponse ResponseCache" where c: "ResponseCache_new \<lparr>capacity = 2, ttl = 1\<rparr> = Inr c"
    by (simp add: ResponseCache_new_def)
  have "edge_ok list_beast \<lparr>edge_pool = ?pool, edge_cache = c, edge_coalescer = None, edge_metrics = m\<rparr>"
    using cache_wf_new [OF c] m(2) by (simp add: edge_ok_def pool_wf_def pool_size_def)
  moreover have "sendable ?q"
    by (simp add: sendable_def)
  ultimately have "\<exists>cs s' g' ph. session_on_read list_beast (\<lambda>n. 0) 0 no_error ?q (HttpSession_new list_beast)
        \<lparr>edge_pool = ?pool, edge_cache = c, edge_coalescer = None, edge_metrics = m\<rparr> = Inr (cs, s', g', ph) \<and>
      ph \<noteq> Ended \<and> sess_request s' = ?q"
    using on_read_returns [OF list_beast_ok, where clock = "\<lambda>n. 0" and self = 0 and error = no_error and
      request = ?q and s = "HttpSession_new list_beast"] by blast
  with m(1) c
  show ?thesis
    unfolding Let_def by blast
qed

end
