(* ===== verification/Http_Server.thy ===== *)
theory Http_Server
  imports Metrics Async_Io
begin

text \<open>
  \<^verbatim>\<open>include/eventedge/http_server.hpp\<close> and \<^verbatim>\<open>src/http_server.cpp\<close>: the listening socket and the accept
  loop. The four system calls of the constructor are given by the error codes they report; the
  acceptor keeps, beside whether it is open, how many \<^verbatim>\<open>async_accept\<close> operations are outstanding.
\<close>

section \<open>The server\<close>

record HttpServer =
  acceptor_open :: bool
  accepts :: nat

record acceptor_errors =
  open_error :: error_code
  set_option_error :: error_code
  bind_error :: error_code
  listen_error :: error_code

datatype server_call = New_session | Log_accept_error error_code

definition throw_if_error :: "error_code \<Rightarrow> string \<Rightarrow> unit result" where
  "throw_if_error error operation = (if error \<noteq> no_error then Inl (System_error operation) else Inr ())"

definition HttpServer_new ::
    "acceptor_errors \<Rightarrow> UpstreamPool \<Rightarrow> MetricsRegistry option \<Rightarrow> (HttpServer \<times> MetricsRegistry) result" where
  "HttpServer_new errors pool metrics =
     rbind (case metrics of None \<Rightarrow> MetricsRegistry_new pool | Some m \<Rightarrow> Inr m) (\<lambda>m.
     rbind (throw_if_error (open_error errors) ''opening acceptor'') (\<lambda>_.
     rbind (throw_if_error (set_option_error errors) ''setting reuse address'') (\<lambda>_.
     rbind (throw_if_error (bind_error errors) ''binding acceptor'') (\<lambda>_.
     rbind (throw_if_error (listen_error errors) ''listening on acceptor'') (\<lambda>_.
       Inr (\<lparr>acceptor_open = True, accepts = 0\<rparr>, m))))))"

definition do_accept :: "HttpServer \<Rightarrow> HttpServer" where
  "do_accept v = v\<lparr>accepts := Suc (accepts v)\<rparr>"

definition server_run :: "HttpServer \<Rightarrow> HttpServer" where
  "server_run v = do_accept v"

definition server_stop :: "HttpServer \<Rightarrow> HttpServer" where
  "server_stop v = v\<lparr>acceptor_open := False\<rparr>"

definition on_accept :: "error_code \<Rightarrow> HttpServer \<Rightarrow> server_call list \<times> HttpServer" where
  "on_accept error v =
     ((if error = no_error then [New_session]
       else if error \<noteq> error_operation_aborted then [Log_accept_error error] else []),
      if acceptor_open v then do_accept v else v)"

datatype server_event = Accept_done error_code | Server_stop

fun server_step :: "server_event \<Rightarrow> HttpServer \<Rightarrow> (server_call list \<times> HttpServer) option" where
  "server_step (Accept_done error) v =
     (if accepts v > 0 then Some (on_accept error (v\<lparr>accepts := accepts v - 1\<rparr>)) else None)"
| "server_step Server_stop v = Some ([], server_stop v)"

definition server_inv :: "HttpServer \<Rightarrow> bool" where
  "server_inv v \<longleftrightarrow> accepts v \<le> 1 \<and> (acceptor_open v \<longrightarrow> accepts v = 1)"

lemmas server_defs = on_accept_def do_accept_def server_stop_def server_run_def

lemma server_inv_step [invariants]:
  "server_inv v \<Longrightarrow> server_step e v = Some (cs, v') \<Longrightarrow> server_inv v'"
  by (cases e) (auto simp: server_inv_def server_defs split: if_splits)

lemma server_step_sessions:
  "server_step e v = Some (cs, v') \<Longrightarrow> count_list cs New_session = of_bool (e = Accept_done no_error)"
  by (cases e) (auto simp: server_defs split: if_splits)

lemma server_step_closed:
  "server_inv v \<Longrightarrow> \<not> acceptor_open v \<Longrightarrow> server_step e v = Some (cs, v') \<Longrightarrow>
   \<not> acceptor_open v' \<and> of_bool (e \<noteq> Server_stop) + accepts v' = accepts v"
  by (cases e) (auto simp: server_inv_def server_defs split: if_splits)

lemma server_run_closed:
  assumes "server_inv v" and "\<not> acceptor_open v" and "run_events server_step es v = Some (cs, v')"
  shows "length (filter (\<lambda>e. e \<noteq> Server_stop) es) + accepts v' = accepts v"
  using assms
proof (induction es arbitrary: v cs)
  case Nil
  then show ?case by simp
next
  case (Cons e es)
  then obtain c1 v1 c2 where step: "server_step e v = Some (c1, v1)" "run_events server_step es v1 = Some (c2, v')"
    by (auto simp: run_events_Cons_eq_Some simp del: run_events.simps)
  show ?case
    using Cons.IH [OF _ _ step(2)] server_inv_step [OF Cons.prems(1) step(1)]
      server_step_closed [OF Cons.prems(1,2) step(1)] by auto
qed

lemma server_run_inv:
  assumes "server_inv v" and "run_events server_step es v = Some (cs, v')"
  shows "server_inv v' \<and> (acceptor_open v' \<longleftrightarrow> acceptor_open v \<and> Server_stop \<notin> set es) \<and>
    count_list cs New_session = count_list es (Accept_done no_error)"
  using assms
proof (induction es arbitrary: v cs)
  case Nil
  then show ?case by simp
next
  case (Cons e es)
  then obtain c1 v1 c2 where step: "server_step e v = Some (c1, v1)" "run_events server_step es v1 = Some (c2, v')"
      "cs = c1 @ c2"
    by (auto simp: run_events_Cons_eq_Some simp del: run_events.simps)
  have "acceptor_open v1 \<longleftrightarrow> acceptor_open v \<and> e \<noteq> Server_stop"
    using step(1) by (cases e) (auto simp: server_defs split: if_splits)
  then show ?case
    using Cons.IH [OF _ step(2)] server_inv_step [OF Cons.prems(1) step(1)] server_step_sessions [OF step(1)] step(3)
    by auto
qed

section \<open>Properties\<close>

text \<open>C24. The accept loop: after any sequence of accept completions, successful or not, and stops, every
  successful accept has started one session. As long as the server was not stopped exactly one accept
  is outstanding, so a failed accept does not end the loop; once it was stopped at most one more
  completion arrives and none is started after it.\<close>

theorem server_accept_loop:
  assumes "HttpServer_new errors pool metrics = Inr (v0, m)"
    and "run_events server_step es (server_run v0) = Some (cs, v)"
    and "run_events server_step fs v = Some (ds, v')"
  shows "count_list cs New_session = count_list es (Accept_done no_error) \<and>
    accepts v \<le> 1 \<and>
    (if Server_stop \<in> set es then length (filter (\<lambda>e. e \<noteq> Server_stop) fs) \<le> 1
     else accepts v = 1 \<and> (\<forall>error. server_step (Accept_done error) v \<noteq> None))"
proof -
  have v0: "server_inv (server_run v0)" "acceptor_open (server_run v0)"
    using assms(1)
    by (auto simp: HttpServer_new_def server_inv_def server_defs throw_if_error_def rbind_eq_Inr split: if_splits)
  note v = server_run_inv [OF v0(1) assms(2)]
  have "length (filter (\<lambda>e. e \<noteq> Server_stop) fs) \<le> 1" if "Server_stop \<in> set es"
    using server_run_closed [OF _ _ assms(3)] v that by (simp add: server_inv_def)
  then show ?thesis
    using v v0(2) by (simp add: server_inv_def)
qed

theorem server_accept_loop_witness:
  "let errors = \<lparr>open_error = no_error, set_option_error = no_error, bind_error = no_error, listen_error = no_error\<rparr>;
       pool = \<lparr>backends = [\<lparr>backend_endpoint = \<lparr>host = ''a'', port = 80\<rparr>, backend_healthy = True\<rparr>], next_index = 0\<rparr>;
       es = [Accept_done no_error, Accept_done (error_other ''x''), Accept_done no_error]
   in \<exists>v0 m cs v. HttpServer_new errors pool None = Inr (v0, m) \<and>
      run_events server_step es (server_run v0) = Some (cs, v) \<and> count_list cs New_session = 2 \<and> accepts v = 1"
proof -
  let ?errors = "\<lparr>open_error = no_error, set_option_error = no_error, bind_error = no_error, listen_error = no_error\<rparr>"
  let ?pool = "\<lparr>backends = [\<lparr>backend_endpoint = \<lparr>host = ''a'', port = 80\<rparr>, backend_healthy = True\<rparr>], next_index = 0\<rparr>"
  let ?es = "[Accept_done no_error, Accept_done (error_other ''x''), Accept_done no_error]"
  obtain v0 m where new: "HttpServer_new ?errors ?pool None = Inr (v0, m)" and v0: "v0 = \<lparr>acceptor_open = True, accepts = 0\<rparr>"
    by (simp add: HttpServer_new_def throw_if_error_def MetricsRegistry_new_tally)
  obtain cs v where run: "run_events server_step ?es (server_run v0) = Some (cs, v)"
    by (simp add: v0 server_defs)
  have "run_events server_step [] v = Some ([], v)"
    by simp
  from server_accept_loop [OF new run this] new run show ?thesis
    unfolding Let_def by (intro exI [of _ v0] exI [of _ m] exI [of _ cs] exI [of _ v]) simp
qed

end
