(* ===== verification/Health_Monitor.thy ===== *)
theory Health_Monitor
  imports Metrics Async_Io
begin

text \<open>
  \<^verbatim>\<open>include/eventedge/upstream_health_monitor.hpp\<close> and \<^verbatim>\<open>src/upstream_health_monitor.cpp\<close>: a round of TCP
  probes, one \<^verbatim>\<open>HealthCheck\<close> per upstream, repeated after the interval. All handlers run on one strand,
  so each is one step. A check and the monitor keep, beside their members, which of their asynchronous
  operations are outstanding. Asio may report any outcome for a resolve or a connect; a timer wait
  ends with an error only when it was cancelled, and a cancelled wait may still end without one.
\<close>

section \<open>One check\<close>

datatype check_wait = Check_resolving | Check_connecting

record HealthCheck =
  check_index :: nat
  check_timeout :: int
  check_completed :: bool
  check_timer :: bool
  check_timer_cancelled :: bool
  check_io :: "check_wait option"

datatype check_call =
    Timer_expires_after int
  | Timer_async_wait
  | Check_resolve string string
  | Check_connect
  | Cancel_resolver
  | Close_socket
  | Cancel_timer
  | Log_transition string u16 bool
  | Call_on_check_complete

type_synonym check_world = "HealthCheck \<times> UpstreamPool \<times> MetricsRegistry option"

definition HealthCheck_new :: "nat \<Rightarrow> int \<Rightarrow> HealthCheck" where
  "HealthCheck_new index timeout =
     \<lparr>check_index = index, check_timeout = timeout, check_completed = False, check_timer = False,
      check_timer_cancelled = False, check_io = None\<rparr>"

definition check_run :: "check_world \<Rightarrow> (check_call list \<times> check_world) result" where
  "check_run w =
     (let (c, pool, metrics) = w;
          c = c\<lparr>check_timer := True, check_timer_cancelled := False\<rparr>
      in rbind (pool_endpoint pool (check_index c)) (\<lambda>endpoint.
           Inr ([Timer_expires_after (check_timeout c), Timer_async_wait,
                 Check_resolve (host endpoint) (to_string (unat (port endpoint)))],
                (c\<lparr>check_io := Some Check_resolving\<rparr>, pool, metrics))))"

definition check_complete :: "bool \<Rightarrow> check_world \<Rightarrow> (check_call list \<times> check_world) result" where
  "check_complete healthy w =
     (let (c, pool, metrics) = w
      in if check_completed c then Inr ([], w)
         else
           let c = c\<lparr>check_completed := True, check_timer_cancelled := True\<rparr>
           in rbind (set_healthy pool (check_index c) healthy) (\<lambda>(changed, pool).
                if changed then
                  let metrics = map_option record_health_transition metrics
                  in rbind (pool_endpoint pool (check_index c)) (\<lambda>endpoint.
                       Inr ([Cancel_timer, Close_socket, Log_transition (host endpoint) (port endpoint) healthy,
                             Call_on_check_complete], (c, pool, metrics)))
                else Inr ([Cancel_timer, Close_socket, Call_on_check_complete], (c, pool, metrics))))"

definition check_on_timer :: "error_code \<Rightarrow> check_world \<Rightarrow> (check_call list \<times> check_world) result" where
  "check_on_timer error w =
     (if error = no_error then
        rbind (check_complete False w) (\<lambda>(cs, w). Inr ([Cancel_resolver, Close_socket] @ cs, w))
      else Inr ([], w))"

definition check_on_resolve :: "error_code \<Rightarrow> check_world \<Rightarrow> (check_call list \<times> check_world) result" where
  "check_on_resolve error w =
     (let (c, pool, metrics) = w
      in if check_completed c then Inr ([], w)
         else if error \<noteq> no_error then check_complete False w
         else Inr ([Check_connect], (c\<lparr>check_io := Some Check_connecting\<rparr>, pool, metrics)))"

definition check_on_connect :: "error_code \<Rightarrow> check_world \<Rightarrow> (check_call list \<times> check_world) result" where
  "check_on_connect error w = check_complete (error = no_error) w"

datatype check_event = Check_timer_done error_code | Check_resolve_done error_code | Check_connect_done error_code

fun check_step :: "check_event \<Rightarrow> check_world \<Rightarrow> (check_call list \<times> check_world) result option" where
  "check_step (Check_timer_done error) (c, pm) =
     (if check_timer c \<and> (error = no_error \<or> check_timer_cancelled c)
      then Some (check_on_timer error (c\<lparr>check_timer := False\<rparr>, pm)) else None)"
| "check_step (Check_resolve_done error) (c, pm) =
     (if check_io c = Some Check_resolving
      then Some (check_on_resolve error (c\<lparr>check_io := None\<rparr>, pm)) else None)"
| "check_step (Check_connect_done error) (c, pm) =
     (if check_io c = Some Check_connecting
      then Some (check_on_connect error (c\<lparr>check_io := None\<rparr>, pm)) else None)"

section \<open>The monitor\<close>

record HealthCheckOptions =
  check_interval :: int
  probe_timeout :: int

definition HealthCheckOptions_default :: HealthCheckOptions where
  "HealthCheckOptions_default = \<lparr>check_interval = 2000, probe_timeout = 1000\<rparr>"

text \<open>
  \<open>timer_waits\<close> lists the outstanding waits on \<^verbatim>\<open>timer_\<close> and whether they have been cancelled;
  \<open>timer_delay\<close> is the delay of the last \<^verbatim>\<open>expires_after\<close>, which cancels the waits before it;
  \<open>mon_checks\<close> are the checks of this and earlier rounds.
\<close>

record UpstreamHealthMonitor =
  mon_pool :: UpstreamPool
  mon_metrics :: "MetricsRegistry option"
  mon_options :: HealthCheckOptions
  timer_waits :: "bool list"
  timer_delay :: int
  checks_remaining :: nat
  stopped :: bool
  mon_checks :: "HealthCheck list"

definition UpstreamHealthMonitor_new ::
    "UpstreamPool \<Rightarrow> HealthCheckOptions \<Rightarrow> MetricsRegistry option \<Rightarrow> UpstreamHealthMonitor" where
  "UpstreamHealthMonitor_new pool opts metrics =
     \<lparr>mon_pool = pool, mon_metrics = metrics, mon_options = opts, timer_waits = [], timer_delay = 0,
      checks_remaining = 0, stopped = False, mon_checks = []\<rparr>"

definition schedule_next_check :: "int \<Rightarrow> UpstreamHealthMonitor \<Rightarrow> UpstreamHealthMonitor" where
  "schedule_next_check delay m =
     (if stopped m then m
      else m\<lparr>timer_delay := delay, timer_waits := map (\<lambda>_. True) (timer_waits m) @ [False]\<rparr>)"

definition monitor_start :: "UpstreamHealthMonitor \<Rightarrow> UpstreamHealthMonitor" where
  "monitor_start m = schedule_next_check 0 m"

definition monitor_stop :: "UpstreamHealthMonitor \<Rightarrow> UpstreamHealthMonitor" where
  "monitor_stop m = m\<lparr>stopped := True, timer_waits := map (\<lambda>_. True) (timer_waits m)\<rparr>"

function run_checks_loop :: "nat \<Rightarrow> UpstreamHealthMonitor \<Rightarrow> UpstreamHealthMonitor result" where
  "run_checks_loop index m =
     (if index < checks_remaining m then
        rbind (check_run (HealthCheck_new index (probe_timeout (mon_options m)), mon_pool m, mon_metrics m))
          (\<lambda>(_, c, _). run_checks_loop (index + 1) (m\<lparr>mon_checks := mon_checks m @ [c]\<rparr>))
      else Inr m)"
  by pat_completeness auto

termination
  by (relation "measure (\<lambda>(index, m). checks_remaining m - index)") auto

declare run_checks_loop.simps [simp del]

definition run_checks :: "UpstreamHealthMonitor \<Rightarrow> UpstreamHealthMonitor result" where
  "run_checks m =
     (if stopped m then Inr m
      else run_checks_loop 0 (m\<lparr>checks_remaining := pool_size (mon_pool m)\<rparr>))"

definition on_check_complete :: "UpstreamHealthMonitor \<Rightarrow> UpstreamHealthMonitor" where
  "on_check_complete m =
     (let m = (if checks_remaining m > 0 then m\<lparr>checks_remaining := checks_remaining m - 1\<rparr> else m)
      in if checks_remaining m = 0 \<and> \<not> stopped m then schedule_next_check (check_interval (mon_options m)) m
         else m)"

text \<open>
  The events of the strand: \<open>Wait_done i\<close> ends the \<open>i\<close>-th outstanding wait on the timer, \<open>Check i e\<close> is
  event \<open>e\<close> of the \<open>i\<close>-th check, and \<open>Session_select\<close> is a selection a session makes on the shared pool in
  between.
\<close>

datatype monitor_event = Stop | Wait_done nat error_code | Check nat check_event | Session_select

definition remove_nth :: "nat \<Rightarrow> 'a list \<Rightarrow> 'a list" where
  "remove_nth i xs = take i xs @ drop (Suc i) xs"

fun monitor_step :: "monitor_event \<Rightarrow> UpstreamHealthMonitor \<Rightarrow> UpstreamHealthMonitor result option" where
  "monitor_step Stop m = Some (Inr (monitor_stop m))"
| "monitor_step (Wait_done i error) m =
     (if i < length (timer_waits m) \<and> (error = no_error \<or> timer_waits m ! i)
      then let m = m\<lparr>timer_waits := remove_nth i (timer_waits m)\<rparr>
           in Some (if error = no_error then run_checks m else Inr m)
      else None)"
| "monitor_step (Check i e) m =
     (if i < length (mon_checks m)
      then map_option (\<lambda>r. rbind r (\<lambda>(cs, c, pool, metrics).
             Inr (fold (\<lambda>call m. if call = Call_on_check_complete then on_check_complete m else m) cs
               (m\<lparr>mon_pool := pool, mon_metrics := metrics, mon_checks := (mon_checks m)[i := c]\<rparr>))))
             (check_step e (mon_checks m ! i, mon_pool m, mon_metrics m))
      else None)"
| "monitor_step Session_select m = Some (Inr (m\<lparr>mon_pool := snd (select (mon_pool m))\<rparr>))"

text \<open>The monitor as \<^verbatim>\<open>main\<close> uses it: started once.\<close>

abbreviation monitor_reachable :: "UpstreamHealthMonitor \<Rightarrow> UpstreamHealthMonitor \<Rightarrow> bool" where
  "monitor_reachable m0 \<equiv> reach monitor_step (monitor_start m0)"

lemma monitor_reach_step:
  "monitor_reachable m0 m \<Longrightarrow> monitor_step e m = Some (Inr m') \<Longrightarrow> monitor_reachable m0 m'"
  by (rule reach_step)

section \<open>A check reports once\<close>

definition set_flag :: "UpstreamPool \<Rightarrow> nat \<Rightarrow> bool \<Rightarrow> UpstreamPool" where
  "set_flag pool i b = pool\<lparr>backends := (backends pool)[i := (backends pool ! i)\<lparr>backend_healthy := b\<rparr>]\<rparr>"

lemma set_flag_simps [simp]:
  "length (backends (set_flag pool i b)) = length (backends pool)"
  "pool_size (set_flag pool i b) = pool_size pool"
  "pool_wf (set_flag pool i b) \<longleftrightarrow> pool_wf pool"
  by (simp_all add: set_flag_def pool_size_def pool_wf_def)

lemma healthy_at_set_flag:
  "i < length (backends pool) \<Longrightarrow> healthy_at (set_flag pool i b) = (healthy_at pool)(i := b)"
  by (auto simp: set_flag_def healthy_at_def fun_eq_iff nth_list_update)

lemma endpoint_at_set_flag [simp]: "endpoint_at (set_flag pool i b) = endpoint_at pool"
proof
  fix j
  show "endpoint_at (set_flag pool i b) j = endpoint_at pool j"
    by (cases "i < length (backends pool)")
      (auto simp: set_flag_def endpoint_at_def nth_list_update list_update_beyond)
qed

lemma set_healthy_total [totality]:
  assumes "i < length (backends pool)"
  shows "set_healthy pool i b = Inr (healthy_at pool i \<noteq> b, set_flag pool i b)"
proof -
  obtain r where "set_healthy pool i b = Inr r"
    using assms by (cases "backend_healthy (backends pool ! i) = b") (simp_all add: set_healthy_def backend_at_def)
  moreover obtain changed p' where "r = (changed, p')"
    by (cases r)
  ultimately show ?thesis
    using set_healthy_cases [of pool i b changed p'] by (simp add: set_flag_def)
qed

lemma pool_endpoint_total [totality]:
  "i < length (backends pool) \<Longrightarrow> pool_endpoint pool i = Inr (endpoint_at pool i)"
  by (simp add: pool_endpoint_def backend_at_def endpoint_at_def)

lemma check_complete_open:
  assumes "\<not> check_completed c" and "check_index c < length (backends pool)"
  defines "i \<equiv> check_index c"
  shows "check_complete b (c, pool, metrics) =
    Inr ([Cancel_timer, Close_socket] @
         (if healthy_at pool i \<noteq> b
          then [Log_transition (host (endpoint_at pool i)) (port (endpoint_at pool i)) b] else []) @
         [Call_on_check_complete],
         (c\<lparr>check_completed := True, check_timer_cancelled := True\<rparr>, set_flag pool i b,
          if healthy_at pool i \<noteq> b then map_option record_health_transition metrics else metrics))"
  using assms by (simp add: check_complete_def set_healthy_total pool_endpoint_total Let_def)

lemma check_complete_again [simp]:
  "check_completed c \<Longrightarrow> check_complete b (c, pm) = Inr ([], (c, pm))"
  by (simp add: check_complete_def split: prod.split)

definition check_inv :: "check_world \<Rightarrow> bool" where
  "check_inv w \<longleftrightarrow> (case w of (c, pool, metrics) \<Rightarrow>
     check_index c < length (backends pool) \<and> (check_completed c \<longleftrightarrow> check_timer_cancelled c) \<and>
     (\<not> check_completed c \<longrightarrow> check_timer c))"

fun check_outstanding :: "check_world \<Rightarrow> nat" where
  "check_outstanding (c, pm) =
     (if check_timer c then 1 else 0) +
     (case check_io c of None \<Rightarrow> 0 | Some Check_connecting \<Rightarrow> 1 | Some Check_resolving \<Rightarrow> 2)"

definition check_finished :: "check_world \<Rightarrow> bool" where
  "check_finished w \<longleftrightarrow> check_completed (fst w)"

definition is_check_report :: "check_call \<Rightarrow> bool" where
  "is_check_report call \<longleftrightarrow> call = Call_on_check_complete"

text \<open>Under the invariant a step does not throw; this is the step without the exception.\<close>

definition check_steps :: "check_event \<Rightarrow> check_world \<Rightarrow> (check_call list \<times> check_world) option" where
  "check_steps e w = (case check_step e w of Some (Inr r) \<Rightarrow> Some r | _ \<Rightarrow> None)"

text \<open>
  What an event does to a check: it reports the outcome, or it only changes which operations are
  outstanding. \<open>outcome\<close> is what the event says about the upstream, if anything.
\<close>

fun check_outcome :: "check_event \<Rightarrow> bool option" where
  "check_outcome (Check_timer_done e) = (if e = no_error then Some False else None)"
| "check_outcome (Check_resolve_done e) = (if e = no_error then None else Some False)"
| "check_outcome (Check_connect_done e) = Some (e = no_error)"

definition check_reports :: "HealthCheck \<Rightarrow> check_event \<Rightarrow> bool" where
  "check_reports c e \<longleftrightarrow> \<not> check_completed c \<and> check_outcome e \<noteq> None"

definition flag_after :: "HealthCheck \<Rightarrow> check_event \<Rightarrow> UpstreamPool \<Rightarrow> UpstreamPool" where
  "flag_after c e pool = (if check_reports c e then set_flag pool (check_index c) (the (check_outcome e)) else pool)"

definition transitions_after ::
    "HealthCheck \<Rightarrow> check_event \<Rightarrow> UpstreamPool \<Rightarrow> MetricsRegistry option \<Rightarrow> MetricsRegistry option" where
  "transitions_after c e pool metrics =
     (if check_reports c e \<and> healthy_at pool (check_index c) \<noteq> the (check_outcome e)
      then map_option record_health_transition metrics else metrics)"

lemmas check_handler_defs = check_on_timer_def check_on_resolve_def check_on_connect_def

lemma check_step_total [totality]:
  "check_inv w \<Longrightarrow> check_step e w \<noteq> Some (Inl x)"
proof -
  assume inv: "check_inv w"
  obtain c pool metrics where w: "w = (c, pool, metrics)"
    by (cases w)
  have "check_complete b (d, pool, metrics) \<noteq> Inl x" if "check_index d = check_index c" for b d
    using inv that check_complete_open [of d pool b metrics]
    by (cases "check_completed d") (auto simp: check_inv_def w)
  then show ?thesis
    unfolding w by (cases e) (auto simp: check_handler_defs rbind_def split: if_splits sum.splits)
qed

lemma check_step_effect:
  assumes "check_inv (c, pool, metrics)"
    and "check_step e (c, pool, metrics) = Some (Inr (cs, c', pool', metrics'))"
  shows "pool' = flag_after c e pool \<and> metrics' = transitions_after c e pool metrics \<and>
    check_index c' = check_index c \<and>
    check_completed c' = (check_completed c \<or> check_reports c e) \<and>
    check_timer_cancelled c' = (check_timer_cancelled c \<or> check_reports c e) \<and>
    (check_completed c' \<or> check_timer c') \<and>
    check_outstanding (c', pool', metrics') < check_outstanding (c, pool, metrics) \<and>
    filter is_check_report cs = (if check_reports c e then [Call_on_check_complete] else [])"
proof -
  note effects = check_handler_defs flag_after_def transitions_after_def is_check_report_def check_reports_def
  show ?thesis
  proof (cases "check_completed c")
    case True
    then show ?thesis
      using assms(2) by (cases e) (auto simp: effects split: if_splits)
  next
    case False
    then have c: "check_timer c" "\<not> check_timer_cancelled c" "check_index c < length (backends pool)"
      using assms(1) by (auto simp: check_inv_def)
    then show ?thesis
      using assms(2) False check_complete_open [of "c\<lparr>check_timer := False\<rparr>" pool False metrics]
        check_complete_open [of "c\<lparr>check_io := None\<rparr>" pool _ metrics]
      by (cases e) (auto simp: effects split: if_splits)
  qed
qed

lemma check_inv_step [invariants]:
  assumes "check_inv (c, pool, metrics)"
    and "check_step e (c, pool, metrics) = Some (Inr (cs, c', pool', metrics'))"
  shows "check_inv (c', pool', metrics')"
  using check_step_effect [OF assms] assms(1) by (auto simp: check_inv_def flag_after_def)

interpretation check: one_shot check_inv check_finished check_outstanding check_steps is_check_report
proof
  fix s s' e cs
  assume inv: "check_inv s" and step: "check_steps e s = Some (cs, s')"
  obtain c pool metrics c' pool' metrics' where s: "s = (c, pool, metrics)" "s' = (c', pool', metrics')"
    by (cases s; cases s')
  have step': "check_step e (c, pool, metrics) = Some (Inr (cs, c', pool', metrics'))"
    using step by (auto simp: check_steps_def s split: option.splits sum.splits)
  note inv' = inv [unfolded s]
  note effect = check_step_effect [OF inv' step']
  show "check_inv s'"
    unfolding s by (rule check_inv_step [OF inv' step'])
  show "check_outstanding s' < check_outstanding s"
    unfolding s using effect by (elim conjE)
  show "length (filter is_check_report cs) = (if check_finished s' \<and> \<not> check_finished s then 1 else 0)"
    using effect by (auto simp: s check_finished_def check_reports_def)
  assume "check_finished s"
  then show "check_finished s'"
    using effect by (simp add: s check_finished_def)
next
  fix s
  assume inv: "check_inv s"
  obtain c pool metrics where s: "s = (c, pool, metrics)"
    by (cases s)
  show "check_finished s" if "check_outstanding s = 0"
    using that inv by (auto simp: s check_finished_def check_inv_def split: if_splits)
  show "\<exists>e. check_steps e s \<noteq> None" if "check_outstanding s > 0"
  proof -
    have "\<exists>e. check_step e s \<noteq> None"
      using that unfolding s
      by (auto split: if_splits option.splits check_wait.splits intro: exI [of _ "Check_timer_done no_error"]
          exI [of _ "Check_resolve_done no_error"] exI [of _ "Check_connect_done no_error"])
    then obtain e r where e: "check_step e s = Some r"
      by blast
    then obtain x where "r = Inr x"
      using check_step_total [OF inv] by (cases r) auto
    with e have "check_steps e s \<noteq> None"
      by (simp add: check_steps_def)
    then show ?thesis ..
  qed
qed

section \<open>The monitor's invariant\<close>

definition running_check :: "int \<Rightarrow> nat \<Rightarrow> HealthCheck" where
  "running_check timeout i =
     \<lparr>check_index = i, check_timeout = timeout, check_completed = False, check_timer = True,
      check_timer_cancelled = False, check_io = Some Check_resolving\<rparr>"

definition incomplete :: "UpstreamHealthMonitor \<Rightarrow> nat" where
  "incomplete m = length (filter (\<lambda>c. \<not> check_completed c) (mon_checks m))"

definition monitor_inv :: "UpstreamHealthMonitor \<Rightarrow> bool" where
  "monitor_inv m \<longleftrightarrow>
     pool_wf (mon_pool m) \<and>
     (\<forall>c \<in> set (mon_checks m). check_inv (c, mon_pool m, mon_metrics m)) \<and>
     checks_remaining m = incomplete m \<and>
     (if stopped m then list_all id (timer_waits m)
      else timer_waits m = (if checks_remaining m = 0 then [False] else []))"

lemma incomplete_simps [simp]:
  "incomplete (m\<lparr>checks_remaining := n\<rparr>) = incomplete m"
  "incomplete (m\<lparr>timer_delay := d\<rparr>) = incomplete m"
  "incomplete (m\<lparr>timer_waits := ws\<rparr>) = incomplete m"
  "incomplete (m\<lparr>stopped := b\<rparr>) = incomplete m"
  "incomplete (m\<lparr>mon_pool := pool\<rparr>) = incomplete m"
  by (simp_all add: incomplete_def)

lemma check_inv_cong:
  "length (backends pool) = length (backends pool') \<Longrightarrow>
   check_inv (c, pool, metrics) \<longleftrightarrow> check_inv (c, pool', metrics')"
  by (simp add: check_inv_def)

lemma run_checks_loop_eq:
  assumes "checks_remaining m \<le> length (backends (mon_pool m))"
  shows "run_checks_loop index m =
    Inr (m\<lparr>mon_checks := mon_checks m @ map (running_check (probe_timeout (mon_options m))) [index..<checks_remaining m]\<rparr>)"
  using assms
proof (induction index m rule: run_checks_loop.induct)
  case (1 index m)
  show ?case
  proof (cases "index < checks_remaining m")
    case False
    then show ?thesis
      by (simp add: run_checks_loop.simps)
  next
    case True
    let ?c = "running_check (probe_timeout (mon_options m)) index"
    have run: "check_run (HealthCheck_new index (probe_timeout (mon_options m)), mon_pool m, mon_metrics m) =
        Inr ([Timer_expires_after (probe_timeout (mon_options m)), Timer_async_wait,
          Check_resolve (host (endpoint_at (mon_pool m) index)) (to_string (unat (port (endpoint_at (mon_pool m) index))))],
          ?c, mon_pool m, mon_metrics m)"
      using True "1.prems" by (simp add: check_run_def HealthCheck_new_def pool_endpoint_total running_check_def)
    have "run_checks_loop index m = run_checks_loop (index + 1) (m\<lparr>mon_checks := mon_checks m @ [?c]\<rparr>)"
      using True by (subst run_checks_loop.simps) (simp add: run)
    also have "\<dots> = Inr (m\<lparr>mon_checks := mon_checks m @ [?c] @
        map (running_check (probe_timeout (mon_options m))) [index + 1..<checks_remaining m]\<rparr>)"
      using "1.IH" [OF True run refl refl] "1.prems" by simp
    finally show ?thesis
      using True by (simp add: upt_conv_Cons)
  qed
qed

lemma run_checks_eq [totality]:
  "run_checks m =
     Inr (if stopped m then m
          else m\<lparr>checks_remaining := pool_size (mon_pool m),
                 mon_checks := mon_checks m @
                   map (running_check (probe_timeout (mon_options m))) [0..<pool_size (mon_pool m)]\<rparr>)"
  by (simp add: run_checks_def run_checks_loop_eq pool_size_def)

lemma monitor_inv_start [invariants]:
  assumes "pool_wf pool"
  shows "monitor_inv (monitor_start (UpstreamHealthMonitor_new pool opts metrics))"
  using assms
  by (simp add: monitor_inv_def monitor_start_def schedule_next_check_def UpstreamHealthMonitor_new_def incomplete_def)

lemma monitor_inv_run_checks:
  assumes "pool_wf (mon_pool m)" and "\<forall>c \<in> set (mon_checks m). check_inv (c, mon_pool m, mon_metrics m)"
    and "incomplete m = 0" and "\<not> stopped m" and "timer_waits m = []" and "run_checks m = Inr m'"
  shows "monitor_inv m'"
  using assms
  by (auto simp: run_checks_eq monitor_inv_def incomplete_def running_check_def check_inv_def pool_size_def
      pool_wf_def filter_map comp_def)

lemma remove_nth_subset: "list_all P xs \<Longrightarrow> list_all P (remove_nth i xs)"
  by (auto simp: list_all_iff remove_nth_def dest: in_set_takeD in_set_dropD)

lemma monitor_inv_wait:
  assumes "monitor_inv m" and "monitor_step (Wait_done i error) m = Some (Inr m')"
  shows "monitor_inv m'"
proof (cases "stopped m")
  case True
  then have "m' = m\<lparr>timer_waits := remove_nth i (timer_waits m)\<rparr>"
    using assms(2) by (auto simp: run_checks_eq Let_def split: if_splits)
  with True assms(1) show ?thesis
    by (simp add: monitor_inv_def incomplete_def remove_nth_subset)
next
  case False
  then have waits: "timer_waits m = [False]" "i = 0" "error = no_error" and zero: "incomplete m = 0"
    using assms by (auto simp: monitor_inv_def split: if_splits)
  then have "run_checks (m\<lparr>timer_waits := []\<rparr>) = Inr m'"
    using assms(2) by (simp add: remove_nth_def)
  then show ?thesis
    by (rule monitor_inv_run_checks [rotated 5])
      (use assms(1) False zero in \<open>simp_all add: monitor_inv_def incomplete_def\<close>)
qed

lemma fold_reports:
  "fold (\<lambda>call m. if call = Call_on_check_complete then f m else m) cs m = (f ^^ length (filter is_check_report cs)) m"
  by (induction cs arbitrary: m) (auto simp: is_check_report_def funpow_swap1)

lemma monitor_check_effect:
  assumes "monitor_inv m" and "monitor_step (Check i e) m = Some (Inr m')"
  defines "c \<equiv> mon_checks m ! i"
  obtains c' where "i < length (mon_checks m)" "check_step e (c, mon_pool m, mon_metrics m) \<noteq> None"
    "check_index c' = check_index c" "check_completed c' = (check_completed c \<or> check_reports c e)"
    "check_inv (c', flag_after c e (mon_pool m), transitions_after c e (mon_pool m) (mon_metrics m))"
    "m' = (if check_reports c e then on_check_complete else id)
      (m\<lparr>mon_pool := flag_after c e (mon_pool m), mon_metrics := transitions_after c e (mon_pool m) (mon_metrics m),
         mon_checks := (mon_checks m)[i := c']\<rparr>)"
proof -
  obtain cs c' pool' metrics' where i: "i < length (mon_checks m)"
    and step: "check_step e (c, mon_pool m, mon_metrics m) = Some (Inr (cs, c', pool', metrics'))"
    and m': "m' = (on_check_complete ^^ length (filter is_check_report cs))
      (m\<lparr>mon_pool := pool', mon_metrics := metrics', mon_checks := (mon_checks m)[i := c']\<rparr>)"
    using assms(2) by (auto simp: c_def fold_reports rbind_eq_Inr split: if_splits)
  have inv: "check_inv (c, mon_pool m, mon_metrics m)"
    using assms(1) i by (simp add: monitor_inv_def c_def)
  from check_step_effect [OF inv step] check_inv_step [OF inv step] step i m' show thesis
    by (intro that [of c']) (auto split: if_splits)
qed

lemma flag_after_length [simp]: "length (backends (flag_after c e pool)) = length (backends pool)"
  by (simp add: flag_after_def)

lemma flag_after_wf [simp]: "pool_wf (flag_after c e pool) = pool_wf pool"
  by (simp add: flag_after_def)

lemma monitor_inv_check:
  assumes "monitor_inv m" and "monitor_step (Check i e) m = Some (Inr m')"
  shows "monitor_inv m'"
proof -
  let ?c = "mon_checks m ! i"
  let ?pool = "flag_after ?c e (mon_pool m)" and ?metrics = "transitions_after ?c e (mon_pool m) (mon_metrics m)"
  obtain c' where i: "i < length (mon_checks m)"
    and fin: "check_completed c' = (check_completed ?c \<or> check_reports ?c e)"
    and inv: "check_inv (c', ?pool, ?metrics)"
    and m': "m' = (if check_reports ?c e then on_check_complete else id)
      (m\<lparr>mon_pool := ?pool, mon_metrics := ?metrics, mon_checks := (mon_checks m)[i := c']\<rparr>)"
    using monitor_check_effect [OF assms] by metis
  let ?m = "m\<lparr>mon_pool := ?pool, mon_metrics := ?metrics, mon_checks := (mon_checks m)[i := c']\<rparr>"
  have checks: "\<forall>c \<in> set (mon_checks ?m). check_inv (c, ?pool, ?metrics)"
    using assms(1) inv check_inv_cong [of "mon_pool m" ?pool]
    by (auto simp: monitor_inv_def dest!: set_update_subset_insert [THEN subsetD])
  have count: "incomplete ?m + of_bool (\<not> check_completed ?c) = incomplete m + of_bool (\<not> check_completed c')"
    using length_filter_update [OF i, of "\<lambda>c. \<not> check_completed c" c'] by (simp add: incomplete_def)
  show ?thesis
  proof (cases "check_reports ?c e")
    case True
    then have "Suc (incomplete ?m) = incomplete m"
      using count fin by (simp add: check_reports_def)
    moreover have "pool_wf (mon_pool m)" "checks_remaining m = incomplete m" "checks_remaining ?m = checks_remaining m"
      "stopped m \<longrightarrow> list_all id (timer_waits m)" "\<not> stopped m \<and> checks_remaining m > 0 \<longrightarrow> timer_waits m = []"
      using assms(1) by (auto simp: monitor_inv_def)
    ultimately show ?thesis
      using True m' checks
      by (auto simp: monitor_inv_def on_check_complete_def schedule_next_check_def Let_def)
  next
    case False
    then have "incomplete ?m = incomplete m"
      using count fin by simp
    with False m' checks assms(1) show ?thesis
      by (simp add: monitor_inv_def)
  qed
qed

lemma monitor_inv_step [invariants]:
  assumes "monitor_inv m" and "monitor_step e m = Some (Inr m')"
  shows "monitor_inv m'"
proof (cases e)
  case Stop
  with assms show ?thesis
    by (auto simp: monitor_inv_def monitor_stop_def incomplete_def list_all_iff)
next
  case (Wait_done i error)
  with assms show ?thesis
    by (blast intro: monitor_inv_wait)
next
  case (Check i e)
  with assms show ?thesis
    by (blast intro: monitor_inv_check)
next
  case Session_select
  then have m': "m' = m\<lparr>mon_pool := snd (select (mon_pool m))\<rparr>"
    using assms(2) by simp
  have "check_inv (c, mon_pool m, mon_metrics m) \<longleftrightarrow> check_inv (c, snd (select (mon_pool m)), mon_metrics m)" for c
    by (rule check_inv_cong) simp
  then show ?thesis
    using assms(1) by (simp add: m' monitor_inv_def pool_wf_select)
qed

lemma monitor_step_total [totality]:
  assumes "monitor_inv m"
  shows "monitor_step e m \<noteq> Some (Inl x)"
proof (cases e)
  case (Check i ev)
  have "check_step ev (mon_checks m ! i, mon_pool m, mon_metrics m) \<noteq> Some (Inl y)" if "i < length (mon_checks m)" for y
    using assms that by (intro check_step_total) (simp add: monitor_inv_def)
  with Check show ?thesis
    by (auto simp: rbind_def split: sum.splits)
qed (auto simp: run_checks_eq Let_def)

interpretation monitor: safe_machine monitor_step monitor_inv "\<lambda>e m. False"
proof
  fix m m' e and x :: cpp_error
  assume inv: "monitor_inv m"
  show "monitor_inv m'" if "monitor_step e m = Some (Inr m')"
    using monitor_inv_step [OF inv that] .
  show False if "monitor_step e m = Some (Inl x)"
    using monitor_step_total [OF inv, of e] that by (auto simp del: monitor_step.simps)
qed

lemma monitor_reachable_inv:
  "monitor_reachable (UpstreamHealthMonitor_new pool opts metrics) m \<Longrightarrow> pool_wf pool \<Longrightarrow> monitor_inv m"
  by (blast intro: monitor.reach_inv monitor_inv_start)

lemma on_check_complete_frame [simp]:
  "mon_pool (on_check_complete m) = mon_pool m"
  "mon_metrics (on_check_complete m) = mon_metrics m"
  "mon_checks (on_check_complete m) = mon_checks m"
  "stopped (on_check_complete m) = stopped m"
  by (simp_all add: on_check_complete_def schedule_next_check_def Let_def)

lemma schedule_stopped [simp]: "stopped m \<Longrightarrow> timer_waits (on_check_complete m) = timer_waits m"
  by (simp add: on_check_complete_def schedule_next_check_def Let_def)

lemma overdue_check:
  assumes "monitor_inv m" and "incomplete m > 0"
  shows "\<exists>i m'. i < length (mon_checks m) \<and> \<not> check_completed (mon_checks m ! i) \<and>
    monitor_step (Check i (Check_timer_done no_error)) m = Some (Inr m') \<and> incomplete m' = incomplete m - 1"
proof -
  have "filter (\<lambda>c. \<not> check_completed c) (mon_checks m) \<noteq> []"
    using assms(2) by (auto simp: incomplete_def)
  then obtain i where i: "i < length (mon_checks m)" "\<not> check_completed (mon_checks m ! i)"
    by (auto simp: filter_empty_conv in_set_conv_nth)
  let ?c = "mon_checks m ! i" and ?e = "Check_timer_done no_error"
  have "check_timer ?c"
    using assms(1) i by (auto simp: monitor_inv_def check_inv_def)
  then obtain r where "monitor_step (Check i ?e) m = Some r"
    using i(1) by simp
  moreover from this obtain m' where r: "r = Inr m'"
    using monitor_step_total [OF assms(1)] by (cases r) (auto simp del: monitor_step.simps)
  ultimately have step: "monitor_step (Check i ?e) m = Some (Inr m')"
    by simp
  have reports: "check_reports ?c ?e"
    using i(2) by (simp add: check_reports_def)
  obtain c' where "mon_checks m' = (mon_checks m)[i := c']" "check_completed c'"
    by (rule monitor_check_effect [OF assms(1) step]) (use reports in auto)
  then have "incomplete m' = incomplete m - 1"
    using length_filter_update [OF i(1), of "\<lambda>c. \<not> check_completed c" c'] i(2) by (simp add: incomplete_def)
  with i step show ?thesis
    by blast
qed

section \<open>Properties\<close>

text \<open>C32. In every state the started monitor can reach, whatever the probes report and however sessions
  use the pool in between, no handler throws, the counter of remaining checks is the number of checks
  that have not completed, and until it is stopped exactly one of two things holds: a round is running
  or one wait for the next round is scheduled. Rounds never overlap and the monitor never dies.\<close>

theorem monitor_rounds:
  assumes "pool_wf pool" and "monitor_reachable (UpstreamHealthMonitor_new pool opts metrics) m"
  shows "(\<forall>e x. monitor_step e m \<noteq> Some (Inl x)) \<and> checks_remaining m = incomplete m \<and>
    (\<not> stopped m \<longrightarrow> length (timer_waits m) = (if incomplete m = 0 then 1 else 0))"
proof -
  have "monitor_inv m"
    using assms by (rule monitor_reachable_inv [rotated])
  then show ?thesis
    using monitor_step_total by (auto simp: monitor_inv_def)
qed

theorem monitor_rounds_witness:
  "\<exists>m. monitor_reachable (UpstreamHealthMonitor_new
      \<lparr>backends = [\<lparr>backend_endpoint = \<lparr>host = ''a'', port = 80\<rparr>, backend_healthy = True\<rparr>], next_index = 0\<rparr>
      HealthCheckOptions_default None) m \<and> checks_remaining m = 1 \<and> incomplete m = 1 \<and> timer_waits m = []"
proof -
  let ?pool = "\<lparr>backends = [\<lparr>backend_endpoint = \<lparr>host = ''a'', port = 80\<rparr>, backend_healthy = True\<rparr>], next_index = 0\<rparr>"
  let ?m = "UpstreamHealthMonitor_new ?pool HealthCheckOptions_default None"
  obtain m where m: "monitor_step (Wait_done 0 no_error) (monitor_start ?m) = Some (Inr m)" "checks_remaining m = 1"
    by (simp add: monitor_start_def schedule_next_check_def UpstreamHealthMonitor_new_def run_checks_eq pool_size_def)
  have reach: "monitor_reachable ?m m"
    by (rule monitor_reach_step [OF reach_start m(1)])
  have "\<not> stopped m"
    using m(1) by (auto simp: monitor_start_def schedule_next_check_def UpstreamHealthMonitor_new_def run_checks_eq)
  moreover have "pool_wf ?pool"
    by (simp add: pool_wf_def)
  ultimately show ?thesis
    using monitor_rounds [OF _ reach] reach m(2) by auto
qed

text \<open>C33. Until it is stopped the monitor makes progress: when no check is running, the wait that is
  scheduled can end and starts one check for every upstream of the pool; when some are running, the
  timeout of one of them can fire, and it completes that check.\<close>

theorem monitor_progress:
  assumes "pool_wf pool" and "monitor_reachable (UpstreamHealthMonitor_new pool opts metrics) m" and "\<not> stopped m"
  shows "if incomplete m = 0
    then \<exists>m'. monitor_step (Wait_done 0 no_error) m = Some (Inr m') \<and>
      mon_checks m' = mon_checks m @ map (running_check (probe_timeout (mon_options m))) [0..<pool_size (mon_pool m)]
    else \<exists>i m'. monitor_step (Check i (Check_timer_done no_error)) m = Some (Inr m') \<and> incomplete m' = incomplete m - 1"
proof -
  have inv: "monitor_inv m"
    using assms(1,2) by (rule monitor_reachable_inv [rotated])
  show ?thesis
  proof (cases "incomplete m = 0")
    case True
    then have "timer_waits m = [False]"
      using inv assms(3) by (simp add: monitor_inv_def)
    with True assms(3) show ?thesis
      by (simp add: run_checks_eq)
  next
    case False
    then show ?thesis
      using overdue_check [OF inv] by (auto simp del: monitor_step.simps)
  qed
qed

theorem monitor_progress_witness:
  "\<exists>m'. monitor_step (Wait_done 0 no_error) (monitor_start (UpstreamHealthMonitor_new
      \<lparr>backends = [\<lparr>backend_endpoint = \<lparr>host = ''a'', port = 80\<rparr>, backend_healthy = True\<rparr>], next_index = 0\<rparr>
      HealthCheckOptions_default None)) = Some (Inr m') \<and> mon_checks m' = [running_check 1000 0]"
proof -
  let ?pool = "\<lparr>backends = [\<lparr>backend_endpoint = \<lparr>host = ''a'', port = 80\<rparr>, backend_healthy = True\<rparr>], next_index = 0\<rparr>"
  let ?m = "UpstreamHealthMonitor_new ?pool HealthCheckOptions_default None"
  have m: "incomplete (monitor_start ?m) = 0" "\<not> stopped (monitor_start ?m)" "mon_checks (monitor_start ?m) = []"
    "pool_size (mon_pool (monitor_start ?m)) = 1" "probe_timeout (mon_options (monitor_start ?m)) = 1000"
    and wf: "pool_wf ?pool"
    by (simp_all add: incomplete_def monitor_start_def schedule_next_check_def UpstreamHealthMonitor_new_def
        pool_size_def HealthCheckOptions_default_def pool_wf_def)
  from monitor_progress [OF wf reach_start m(2)] m show ?thesis
    by simp
qed

text \<open>C34. A check records exactly what it found: the event that completes it sets the health flag of its
  own upstream to the outcome (a timeout or a failed resolve is unhealthy, a connect is its success),
  every other flag and every endpoint stays, the transition counter grows by one exactly when the flag
  changes, and events of a completed check change nothing.\<close>

theorem check_records_outcome:
  assumes "pool_wf pool" and "monitor_reachable (UpstreamHealthMonitor_new pool opts metrics) m"
    and "monitor_step (Check i e) m = Some (Inr m')"
  shows "let c = mon_checks m ! i; reports = (\<not> check_completed c \<and> check_outcome e \<noteq> None) in
    healthy_at (mon_pool m') =
      (if reports then (healthy_at (mon_pool m))(check_index c := the (check_outcome e)) else healthy_at (mon_pool m)) \<and>
    endpoint_at (mon_pool m') = endpoint_at (mon_pool m) \<and>
    mon_metrics m' =
      (if reports \<and> healthy_at (mon_pool m) (check_index c) \<noteq> the (check_outcome e)
       then map_option record_health_transition (mon_metrics m) else mon_metrics m)"
proof -
  have inv: "monitor_inv m"
    using assms(1,2) by (rule monitor_reachable_inv [rotated])
  let ?c = "mon_checks m ! i"
  have i: "i < length (mon_checks m)" and "mon_pool m' = flag_after ?c e (mon_pool m)"
    and "mon_metrics m' = transitions_after ?c e (mon_pool m) (mon_metrics m)"
    by (rule monitor_check_effect [OF inv assms(3)]; simp)+
  moreover have "check_index ?c < length (backends (mon_pool m))"
    using inv i by (auto simp: monitor_inv_def check_inv_def)
  ultimately show ?thesis
    by (simp add: Let_def flag_after_def transitions_after_def check_reports_def healthy_at_set_flag)
qed

theorem check_records_outcome_witness:
  "\<exists>m m'. monitor_step (Wait_done 0 no_error) (monitor_start (UpstreamHealthMonitor_new
      \<lparr>backends = [\<lparr>backend_endpoint = \<lparr>host = ''a'', port = 80\<rparr>, backend_healthy = True\<rparr>], next_index = 0\<rparr>
      HealthCheckOptions_default None)) = Some (Inr m) \<and>
    monitor_step (Check 0 (Check_timer_done no_error)) m = Some (Inr m') \<and> \<not> healthy_at (mon_pool m') 0"
proof -
  let ?pool = "\<lparr>backends = [\<lparr>backend_endpoint = \<lparr>host = ''a'', port = 80\<rparr>, backend_healthy = True\<rparr>], next_index = 0\<rparr>"
  let ?m = "UpstreamHealthMonitor_new ?pool HealthCheckOptions_default None"
  have wf: "pool_wf ?pool"
    by (simp add: pool_wf_def)
  obtain m where m: "monitor_step (Wait_done 0 no_error) (monitor_start ?m) = Some (Inr m)"
      "mon_checks m = [running_check 1000 0]" "mon_pool m = ?pool"
    by (simp add: monitor_start_def schedule_next_check_def UpstreamHealthMonitor_new_def run_checks_eq pool_size_def
        HealthCheckOptions_default_def)
  have reach: "monitor_reachable ?m m"
    by (rule monitor_reach_step [OF reach_start m(1)])
  obtain m' where m': "monitor_step (Check 0 (Check_timer_done no_error)) m = Some (Inr m')"
    by (simp add: m(2,3) running_check_def check_on_timer_def check_complete_def set_healthy_def backend_at_def
        pool_endpoint_def)
  from check_records_outcome [OF wf reach m'] m m' show ?thesis
    by (auto simp: Let_def running_check_def)
qed

text \<open>C35. A started check reports to the monitor exactly once: at most three events happen, none of them
  makes a second report, and while it has not reported an operation of it is outstanding.\<close>

theorem check_reports_once:
  assumes "i < length (backends pool)"
    and "run_events check_steps es (running_check timeout i, pool, metrics) = Some (cs, w)"
  shows "length es \<le> 3 \<and> length (filter is_check_report cs) \<le> 1 \<and>
    (length (filter is_check_report cs) = 1 \<or> (\<exists>e. check_steps e w \<noteq> None))"
proof -
  let ?w = "(running_check timeout i, pool, metrics)"
  have "check_inv ?w" "\<not> check_finished ?w" "check_outstanding ?w = 3"
    using assms(1) by (simp_all add: check_inv_def check_finished_def running_check_def)
  then show ?thesis
    using check.reports_once [OF _ _ assms(2)] by metis
qed

theorem check_reports_once_witness:
  "\<exists>cs w. run_events check_steps [Check_resolve_done no_error, Check_timer_done no_error, Check_connect_done no_error]
      (running_check 1000 0,
       \<lparr>backends = [\<lparr>backend_endpoint = \<lparr>host = ''a'', port = 80\<rparr>, backend_healthy = True\<rparr>], next_index = 0\<rparr>, None) =
      Some (cs, w) \<and> length (filter is_check_report cs) = 1 \<and> (\<forall>e. check_steps e w = None)"
proof -
  let ?pool = "\<lparr>backends = [\<lparr>backend_endpoint = \<lparr>host = ''a'', port = 80\<rparr>, backend_healthy = True\<rparr>], next_index = 0\<rparr>"
  let ?es = "[Check_resolve_done no_error, Check_timer_done no_error, Check_connect_done no_error]"
  obtain cs w where run: "run_events check_steps ?es (running_check 1000 0, ?pool, None) = Some (cs, w)"
    and idle: "\<not> check_timer (fst w)" "check_io (fst w) = None"
    by (simp add: check_steps_def running_check_def check_handler_defs check_complete_def set_healthy_def
        backend_at_def pool_endpoint_def)
  have "check_steps e w = None" for e
    using idle by (cases w; cases e) (auto simp: check_steps_def)
  then show ?thesis
    using check_reports_once [OF _ run] run by auto
qed

text \<open>C36. After \<^verbatim>\<open>stop\<close> the monitor starts nothing: it stays stopped, no event adds a check or a timer
  wait, and a wait that had already expired starts no round.\<close>

theorem monitor_stays_stopped:
  assumes "pool_wf pool" and "monitor_reachable (UpstreamHealthMonitor_new pool opts metrics) m"
    and "stopped m" and "monitor_step e m = Some (Inr m')"
  shows "stopped m' \<and> length (mon_checks m') = length (mon_checks m) \<and>
    length (timer_waits m') \<le> length (timer_waits m) \<and> checks_remaining m' \<le> checks_remaining m"
proof -
  have inv: "monitor_inv m"
    using assms(1,2) by (rule monitor_reachable_inv [rotated])
  show ?thesis
  proof (cases e)
    case (Check i ev)
    let ?c = "mon_checks m ! i"
    obtain c' where "m' = (if check_reports ?c ev then on_check_complete else id)
        (m\<lparr>mon_pool := flag_after ?c ev (mon_pool m), mon_metrics := transitions_after ?c ev (mon_pool m) (mon_metrics m),
           mon_checks := (mon_checks m)[i := c']\<rparr>)"
      using monitor_check_effect [OF inv assms(4) [unfolded Check]] by metis
    then show ?thesis
      using assms(3) by (simp add: on_check_complete_def schedule_next_check_def Let_def)
  qed (use assms(3,4) in \<open>auto simp: monitor_stop_def run_checks_eq remove_nth_def Let_def split: if_splits\<close>)
qed

theorem monitor_stays_stopped_witness:
  "\<exists>m m'. monitor_step Stop (monitor_start (UpstreamHealthMonitor_new
      \<lparr>backends = [\<lparr>backend_endpoint = \<lparr>host = ''a'', port = 80\<rparr>, backend_healthy = True\<rparr>], next_index = 0\<rparr>
      HealthCheckOptions_default None)) = Some (Inr m) \<and>
    monitor_step (Wait_done 0 no_error) m = Some (Inr m') \<and> mon_checks m' = [] \<and> stopped m'"
proof -
  let ?pool = "\<lparr>backends = [\<lparr>backend_endpoint = \<lparr>host = ''a'', port = 80\<rparr>, backend_healthy = True\<rparr>], next_index = 0\<rparr>"
  let ?m = "UpstreamHealthMonitor_new ?pool HealthCheckOptions_default None"
  have wf: "pool_wf ?pool"
    by (simp add: pool_wf_def)
  obtain m where m: "monitor_step Stop (monitor_start ?m) = Some (Inr m)" "stopped m" "mon_checks m = []" "timer_waits m = [True]"
    by (simp add: monitor_stop_def monitor_start_def schedule_next_check_def UpstreamHealthMonitor_new_def)
  have reach: "monitor_reachable ?m m"
    by (rule monitor_reach_step [OF reach_start m(1)])
  obtain m' where m': "monitor_step (Wait_done 0 no_error) m = Some (Inr m')"
    using m by (simp add: run_checks_eq)
  from monitor_stays_stopped [OF wf reach m(2) m'] m m' show ?thesis
    by auto
qed

end
