(* ===== verification/Edge_System.thy ===== *)
theory Edge_System
  imports Http_Session Http_Server Health_Monitor
begin

text \<open>
  The running program: the server, the health monitor and any number of sessions, interleaved on the
  worker threads. A step is the completion of one asynchronous operation up to the first access to a
  structure under a mutex, or one further stage of a handler that has begun (\<open>Stage_event\<close>), so steps
  of different sessions interleave as they do on several threads. A strand runs one handler at a time:
  a handler of a session begins only when no other handler of that session is in progress. The
  monitor shares the pool and the metrics with the sessions.
\<close>

section \<open>State\<close>

text \<open>
  A session with its phase and the responses posted to its strand by the coalescer that have not been
  delivered yet.
\<close>

record 'f slot =
  slot_session :: "'f HttpSession"
  slot_phase :: "'f phase"
  slot_posted :: "'f HttpResponse list"

record 'f system =
  sys_edge :: "'f Edge"
  sys_slots :: "'f slot list"
  sys_server :: HttpServer
  sys_monitor :: UpstreamHealthMonitor
  signal_wait :: bool
  io_stopped :: bool

datatype 'f sys_event =
    Accept_event error_code
  | Read_event nat nanos error_code "'f HttpRequest"
  | Stage_event nat nanos
  | Proxy_event nat "('f, unit) proxy_event"
  | Posted_event nat nanos
  | Write_event nat error_code
  | Monitor_event monitor_event
  | Signal_event error_code

section \<open>Steps\<close>

text \<open>\<^verbatim>\<open>net::post\<close> to the strand of a session (lines 84-88 of \<^verbatim>\<open>http_session.cpp\<close>).\<close>

fun deliver :: "(nat \<times> 'f HttpResponse) list \<Rightarrow> 'f slot list \<Rightarrow> 'f slot list" where
  "deliver [] xs = xs"
| "deliver ((i, r) # ps) xs = deliver ps (xs[i := (xs ! i)\<lparr>slot_posted := slot_posted (xs ! i) @ [r]\<rparr>])"

definition accept_session :: "'f beast \<Rightarrow> 'f system \<Rightarrow> 'f session_call list \<times> 'f system" where
  "accept_session B x =
     (let (cs, s, ph) = session_run B (HttpSession_new B)
      in (cs, x\<lparr>sys_slots := sys_slots x @ [\<lparr>slot_session = s, slot_phase = ph, slot_posted = []\<rparr>]\<rparr>))"

definition advance ::
    "nat \<Rightarrow> 'f HttpResponse list \<Rightarrow> 'f session_result \<Rightarrow> 'f system \<Rightarrow> ('f session_call list \<times> 'f system) result" where
  "advance i posted r x =
     rbind r (\<lambda>(cs, s, g, ph).
       Inr (cs, x\<lparr>sys_edge := g,
                  sys_slots := deliver (posts cs)
                    ((sys_slots x)[i := \<lparr>slot_session = s, slot_phase = ph, slot_posted = posted\<rparr>])\<rparr>))"

text \<open>The monitor works on the pool and the metrics it shares with the sessions.\<close>

definition lend :: "'f Edge \<Rightarrow> UpstreamHealthMonitor \<Rightarrow> UpstreamHealthMonitor" where
  "lend g m = m\<lparr>mon_pool := edge_pool g, mon_metrics := Some (edge_metrics g)\<rparr>"

definition monitor_returns :: "UpstreamHealthMonitor \<Rightarrow> 'f system \<Rightarrow> 'f system" where
  "monitor_returns m x =
     x\<lparr>sys_monitor := m,
       sys_edge := (sys_edge x)\<lparr>edge_pool := mon_pool m,
         edge_metrics := (case mon_metrics m of None \<Rightarrow> edge_metrics (sys_edge x) | Some mt \<Rightarrow> mt)\<rparr>\<rparr>"

fun monitor_own :: "monitor_event \<Rightarrow> bool" where
  "monitor_own Stop \<longleftrightarrow> False"
| "monitor_own Session_select \<longleftrightarrow> False"
| "monitor_own _ \<longleftrightarrow> True"

text \<open>A handler of the session is in progress on some thread.\<close>

fun in_handler :: "'f phase \<Rightarrow> bool" where
  "in_handler (Busy w) \<longleftrightarrow> True"
| "in_handler _ \<longleftrightarrow> False"

text \<open>The handler of SIGINT and SIGTERM.\<close>

definition on_signal :: "error_code \<Rightarrow> 'f system \<Rightarrow> 'f system" where
  "on_signal error x =
     (if error = no_error then
        x\<lparr>sys_monitor := monitor_stop (sys_monitor x), sys_server := server_stop (sys_server x), io_stopped := True\<rparr>
      else x)"

text \<open>
  \<open>begin_event\<close>: a handler the event loop starts, so none once the loop is stopped; a handler that is in
  progress on another thread is then still run to its end by \<open>Stage_event\<close>.
\<close>

fun begin_event :: "'f beast \<Rightarrow> 'f sys_event \<Rightarrow> 'f system \<Rightarrow> ('f session_call list \<times> 'f system) result option" where
  "begin_event B (Accept_event error) x =
     map_option (\<lambda>(cs, v).
       Inr (if New_session \<in> set cs then accept_session B (x\<lparr>sys_server := v\<rparr>) else ([], x\<lparr>sys_server := v\<rparr>)))
       (server_step (Accept_done error) (sys_server x))"
| "begin_event B (Read_event i now error q) x =
     (if i < length (sys_slots x) \<and> slot_phase (sys_slots x ! i) = Reading
      then Some (advance i (slot_posted (sys_slots x ! i))
             (stage_route B now error ((slot_session (sys_slots x ! i))\<lparr>sess_request := q\<rparr>) (sys_edge x)) x)
      else None)"
| "begin_event B (Proxy_event i e) x =
     (if i < length (sys_slots x)
      then case slot_phase (sys_slots x ! i) of
             Proxying p \<Rightarrow>
               map_option (\<lambda>r. advance i (slot_posted (sys_slots x ! i)) r x)
                 (stage_proxy B e p (slot_session (sys_slots x ! i)) (sys_edge x))
           | _ \<Rightarrow> None
      else None)"
| "begin_event B (Posted_event i now) x =
     (if i < length (sys_slots x) \<and> \<not> in_handler (slot_phase (sys_slots x ! i))
      then case slot_posted (sys_slots x ! i) of
             r # rs \<Rightarrow> Some (advance i rs
               (session_stage B now i (Respond r) (slot_session (sys_slots x ! i)) (sys_edge x)) x)
           | [] \<Rightarrow> None
      else None)"
| "begin_event B (Write_event i error) x =
     (if i < length (sys_slots x)
      then case slot_phase (sys_slots x ! i) of
             Writing c \<Rightarrow>
               let (cs, s, ph) = session_on_write B c error (slot_session (sys_slots x ! i))
               in Some (advance i (slot_posted (sys_slots x ! i)) (Inr (cs, s, sys_edge x, ph)) x)
           | _ \<Rightarrow> None
      else None)"
| "begin_event B (Monitor_event e) x =
     (if monitor_own e
      then map_option (\<lambda>r. rbind r (\<lambda>m. Inr ([], monitor_returns m x)))
             (monitor_step e (lend (sys_edge x) (sys_monitor x)))
      else None)"
| "begin_event B (Signal_event error) x =
     (if signal_wait x then Some (Inr ([], on_signal error (x\<lparr>signal_wait := False\<rparr>))) else None)"
| "begin_event B (Stage_event i now) x = None"

fun sys_step :: "'f beast \<Rightarrow> 'f sys_event \<Rightarrow> 'f system \<Rightarrow> ('f session_call list \<times> 'f system) result option" where
  "sys_step B (Stage_event i now) x =
     (if i < length (sys_slots x)
      then case slot_phase (sys_slots x ! i) of
             Busy w \<Rightarrow> Some (advance i (slot_posted (sys_slots x ! i))
               (session_stage B now i w (slot_session (sys_slots x ! i)) (sys_edge x)) x)
           | _ \<Rightarrow> None
      else None)"
| "sys_step B e x = (if io_stopped x then None else begin_event B e x)"

text \<open>
  The steps that throw: a session forwards a TRACE request with a body, and \<^verbatim>\<open>prepare_payload\<close> refuses it.
\<close>

fun forwards_unsendable :: "'f sys_event \<Rightarrow> 'f system \<Rightarrow> bool" where
  "forwards_unsendable (Stage_event i now) x \<longleftrightarrow>
     i < length (sys_slots x) \<and> slot_phase (sys_slots x ! i) = Busy Select_plain \<and>
     unsendable_stage Select_plain (slot_session (sys_slots x ! i)) (sys_edge x)"
| "forwards_unsendable e x \<longleftrightarrow> False"

text \<open>
  What a worker thread makes of a step: an exception that leaves a handler is caught and stops the
  event loop.
\<close>

definition worker_step :: "'f beast \<Rightarrow> 'f sys_event \<Rightarrow> 'f system \<Rightarrow> 'f system option" where
  "worker_step B e x =
     map_option (\<lambda>r. case r of Inl err \<Rightarrow> x\<lparr>io_stopped := True\<rparr> | Inr (cs, y) \<Rightarrow> y) (sys_step B e x)"

definition sys_next :: "'f beast \<Rightarrow> 'f sys_event \<Rightarrow> 'f system \<Rightarrow> 'f system result option" where
  "sys_next B e x = map_option (\<lambda>r. rbind r (\<lambda>(cs, y). Inr y)) (sys_step B e x)"

abbreviation reachable :: "'f beast \<Rightarrow> 'f system \<Rightarrow> 'f system \<Rightarrow> bool" where
  "reachable B \<equiv> reach (sys_next B)"

lemma reachable_step: "reachable B x0 x \<Longrightarrow> sys_step B e x = Some (Inr (cs, y)) \<Longrightarrow> reachable B x0 y"
  by (erule reach_step [of _ _ _ e]) (simp add: sys_next_def)

primrec sys_run :: "'f beast \<Rightarrow> 'f sys_event list \<Rightarrow> 'f system \<Rightarrow> 'f system option" where
  "sys_run B [] x = Some x"
| "sys_run B (e # es) x = (case sys_step B e x of Some (Inr (cs, y)) \<Rightarrow> sys_run B es y | _ \<Rightarrow> None)"

lemma sys_run_reachable: "reachable B x0 x \<Longrightarrow> sys_run B es x = Some y \<Longrightarrow> reachable B x0 y"
  by (induction es arbitrary: x) (auto split: option.splits sum.splits intro: reachable_step)

section \<open>Invariants\<close>

definition slot_ok :: "'f beast \<Rightarrow> 'f slot \<Rightarrow> bool" where
  "slot_ok B x \<longleftrightarrow> phase_ok B (slot_session x) (slot_phase x) \<and> (\<forall>r \<in> set (slot_posted x). framed B r)"

text \<open>A session that waits for a flight and has not been sent its response.\<close>

definition waiting :: "string \<Rightarrow> 'f slot \<Rightarrow> bool" where
  "waiting k x \<longleftrightarrow> slot_phase x = Awaiting k \<and> slot_posted x = []"

definition phase_count :: "('f phase \<Rightarrow> bool) \<Rightarrow> 'f slot list \<Rightarrow> nat" where
  "phase_count P xs = length (filter P (map slot_phase xs))"

definition waiters_of :: "nat RequestCoalescer \<Rightarrow> string \<Rightarrow> nat list" where
  "waiters_of q k = (case pending q k of None \<Rightarrow> [] | Some ws \<Rightarrow> ws)"

definition flights_ok :: "nat RequestCoalescer \<Rightarrow> 'f slot list \<Rightarrow> bool" where
  "flights_ok q xs \<longleftrightarrow>
     (\<forall>k. phase_count (leads k) xs = of_bool (pending q k \<noteq> None)) \<and>
     (\<forall>k. distinct (waiters_of q k) \<and> set (waiters_of q k) = {i. i < length xs \<and> waiting k (xs ! i)}) \<and>
     (\<forall>x \<in> set xs. slot_posted x = [] \<or> (\<exists>k r. slot_phase x = Awaiting k \<and> slot_posted x = [r]))"

definition books_ok :: "MetricsRegistry \<Rightarrow> 'f slot list \<Rightarrow> bool" where
  "books_ok m xs \<longleftrightarrow>
     proxy_in_flight m = of_nat (phase_count is_proxying xs) \<and>
     open_requests m = of_nat (phase_count serving xs) \<and>
     unjoined_misses m = of_nat (phase_count joining xs)"

definition sys_inv :: "'f beast \<Rightarrow> 'f system \<Rightarrow> bool" where
  "sys_inv B x \<longleftrightarrow>
     edge_ok B (sys_edge x) \<and> (\<forall>s \<in> set (sys_slots x). slot_ok B s) \<and>
     (\<exists>q. edge_coalescer (sys_edge x) = Some q \<and> flights_ok q (sys_slots x)) \<and>
     books_ok (edge_metrics (sys_edge x)) (sys_slots x) \<and>
     monitor_inv (lend (sys_edge x) (sys_monitor x)) \<and> server_inv (sys_server x)"

section \<open>Updating one session\<close>

lemma phase_count_update:
  "i < length xs \<Longrightarrow>
   phase_count P (xs[i := y]) + of_bool (P (slot_phase (xs ! i))) = phase_count P xs + of_bool (P (slot_phase y))"
  using length_filter_update [of i "map slot_phase xs" P "slot_phase y"] by (simp add: phase_count_def map_update)

lemma phase_count_append [simp]: "phase_count P (xs @ [y]) = phase_count P xs + of_bool (P (slot_phase y))"
  by (simp add: phase_count_def)

lemma books_update:
  assumes "books_ok m xs" and "i < length xs" and "booked m (slot_phase (xs ! i)) m' (slot_phase y)"
  shows "books_ok m' (xs[i := y])"
  using assms unfolding books_ok_def booked_def
  by (intro conjI; elim conjE)
    (auto intro!: word_count_shift [OF _ phase_count_update [OF assms(2)]])

lemma deliver_simps [simp]:
  "length (deliver ps xs) = length xs"
  "map slot_phase (deliver ps xs) = map slot_phase xs"
  "map slot_session (deliver ps xs) = map slot_session xs"
  by (induction ps xs rule: deliver.induct) (auto simp: map_update_same)

lemma phase_count_deliver [simp]: "phase_count P (deliver ps xs) = phase_count P xs"
  by (simp add: phase_count_def)

lemma deliver_nth:
  assumes "i < length xs"
  shows "deliver ps xs ! i = (xs ! i)\<lparr>slot_posted := slot_posted (xs ! i) @ map snd (filter (\<lambda>p. fst p = i) ps)\<rparr>"
  using assms by (induction ps xs rule: deliver.induct) (auto simp: nth_list_update)

subsection \<open>Flights\<close>

lemma flights_okD:
  assumes "flights_ok q xs"
  shows "phase_count (leads k) xs = of_bool (pending q k \<noteq> None)" and "distinct (waiters_of q k)"
    and "set (waiters_of q k) = {i. i < length xs \<and> waiting k (xs ! i)}"
    and "i < length xs \<Longrightarrow> slot_posted (xs ! i) = [] \<or> (\<exists>k r. slot_phase (xs ! i) = Awaiting k \<and> slot_posted (xs ! i) = [r])"
  using assms by (auto simp: flights_ok_def)

lemma flights_okI:
  assumes "\<And>k. phase_count (leads k) xs = of_bool (pending q k \<noteq> None)"
    and "\<And>k. distinct (waiters_of q k)"
    and "\<And>k. set (waiters_of q k) = {i. i < length xs \<and> waiting k (xs ! i)}"
    and "\<And>i. i < length xs \<Longrightarrow>
      slot_posted (xs ! i) = [] \<or> (\<exists>k r. slot_phase (xs ! i) = Awaiting k \<and> slot_posted (xs ! i) = [r])"
  shows "flights_ok q xs"
  using assms by (auto simp: flights_ok_def all_set_conv_all_nth)

lemma leader_pending:
  assumes "flights_ok q xs" and "i < length xs" and "leads k (slot_phase (xs ! i))"
  shows "pending q k \<noteq> None"
proof -
  have "slot_phase (xs ! i) \<in> set (filter (leads k) (map slot_phase xs))"
    using assms(2,3) by simp
  then have "phase_count (leads k) xs \<noteq> 0"
    unfolding phase_count_def by (metis length_0_conv empty_iff list.set(1))
  then show ?thesis
    using flights_okD(1) [OF assms(1), of k] by auto
qed

lemma flights_quiet:
  assumes "flights_ok q xs" and "i < length xs" and "\<And>k. \<not> waiting k (xs ! i)"
    and "\<And>k. leads k (slot_phase y) = leads k (slot_phase (xs ! i))"
    and "\<And>k. slot_phase y \<noteq> Awaiting k" and "slot_posted y = []"
  shows "flights_ok q (xs[i := y])"
proof (rule flights_okI)
  fix k
  show "phase_count (leads k) (xs[i := y]) = of_bool (pending q k \<noteq> None)"
    using phase_count_update [OF assms(2), of "leads k" y] flights_okD(1) [OF assms(1), of k] assms(4) by simp
  show "distinct (waiters_of q k)"
    by (rule flights_okD [OF assms(1)])
  show "set (waiters_of q k) = {j. j < length (xs[i := y]) \<and> waiting k (xs[i := y] ! j)}"
    using flights_okD(3) [OF assms(1), of k] assms(2,3,5) by (auto simp: nth_list_update waiting_def)
next
  fix j
  assume "j < length (xs[i := y])"
  then show "slot_posted (xs[i := y] ! j) = [] \<or>
      (\<exists>k r. slot_phase (xs[i := y] ! j) = Awaiting k \<and> slot_posted (xs[i := y] ! j) = [r])"
    using flights_okD(4) [OF assms(1), of j] assms(2,6) by (auto simp: nth_list_update)
qed

lemma flights_append:
  assumes "flights_ok q xs" and "\<And>k. \<not> leads k (slot_phase y)" and "\<And>k. \<not> waiting k y" and "slot_posted y = []"
  shows "flights_ok q (xs @ [y])"
  using assms flights_okD [OF assms(1)]
  by (intro flights_okI) (auto simp: nth_append less_Suc_eq)

lemma waiters_of_join:
  "waiters_of (snd (join_or_start key i q)) k =
     (if k = key \<and> pending q key \<noteq> None then waiters_of q key @ [i] else waiters_of q k)"
  by (auto simp: waiters_of_def pending_join split: option.split)

lemma flights_join:
  assumes "flights_ok q xs" and "i < length xs" and "slot_phase (xs ! i) = Busy (Join key)"
    and "slot_phase y = (case pending q key of None \<Rightarrow> Busy (Select_flight key) | Some _ \<Rightarrow> Awaiting key)"
    and "slot_posted y = []"
  shows "flights_ok (snd (join_or_start key i q)) (xs[i := y])"
proof (rule flights_okI)
  have i: "\<not> waiting k (xs ! i)" for k
    using assms(3) by (simp add: waiting_def)
  fix k
  show "phase_count (leads k) (xs[i := y]) = of_bool (pending (snd (join_or_start key i q)) k \<noteq> None)"
    using phase_count_update [OF assms(2), of "leads k" y] flights_okD(1) [OF assms(1), of k] assms(3,4)
    by (auto simp: pending_join split: option.splits)
  show "distinct (waiters_of (snd (join_or_start key i q)) k)"
    using flights_okD(2,3) [OF assms(1), of key] flights_okD(2) [OF assms(1), of k] i by (auto simp: waiters_of_join)
  show "set (waiters_of (snd (join_or_start key i q)) k) = {j. j < length (xs[i := y]) \<and> waiting k (xs[i := y] ! j)}"
    using flights_okD(3) [OF assms(1), of key] flights_okD(3) [OF assms(1), of k] i assms(2,4,5)
    by (auto simp: waiters_of_join waiting_def nth_list_update split: option.splits)
next
  fix j
  assume "j < length (xs[i := y])"
  then show "slot_posted (xs[i := y] ! j) = [] \<or>
      (\<exists>k r. slot_phase (xs[i := y] ! j) = Awaiting k \<and> slot_posted (xs[i := y] ! j) = [r])"
    using flights_okD(4) [OF assms(1), of j] assms(2,5) by (auto simp: nth_list_update)
qed

lemma complete_pending:
  assumes "pending q key \<noteq> None"
  shows "fst (complete key r q) = map (\<lambda>w. (w, r)) (waiters_of q key)"
    and "pending (snd (complete key r q)) = (pending q)(key := None)"
  using coalescer.finish_flight [of q key _ r] assms by (auto simp: waiters_of_def)

lemma complete_slots:
  assumes "flights_ok q xs" and "i < length xs" and "\<not> waiting key (xs ! i)" and "pending q key \<noteq> None" and "j < length xs"
  shows "deliver (fst (complete key r q)) (xs[i := y]) ! j =
    (if j = i then y else if waiting key (xs ! j) then (xs ! j)\<lparr>slot_posted := [r]\<rparr> else xs ! j)"
proof -
  have "filter (\<lambda>p. fst p = j) (map (\<lambda>w. (w, r)) (waiters_of q key)) = (if waiting key (xs ! j) then [(j, r)] else [])"
    using filter_eq_distinct [OF flights_okD(2) [OF assms(1)], of j] flights_okD(3) [OF assms(1), of key] assms(5)
    by (simp add: filter_map comp_def)
  then show ?thesis
    using assms(2,3,5) by (auto simp: deliver_nth complete_pending [OF assms(4)] nth_list_update waiting_def)
qed

lemma flights_complete:
  assumes "flights_ok q xs" and "i < length xs" and "slot_phase (xs ! i) = Busy (Complete_flight key r)"
    and "slot_phase y = Busy (Respond r)" and "slot_posted y = []"
  shows "flights_ok (snd (complete key r q)) (deliver (fst (complete key r q)) (xs[i := y]))"
proof -
  have pending: "pending q key \<noteq> None"
    using leader_pending [OF assms(1,2), of key] assms(3) by simp
  note after = complete_pending [OF pending, of r]
  define ys where "ys = deliver (fst (complete key r q)) (xs[i := y])"
  have waiters: "waiters_of (snd (complete key r q)) k = (if k = key then [] else waiters_of q k)" for k
    by (simp add: waiters_of_def after)
  have nth: "ys ! j = (if j = i then y else if waiting key (xs ! j) then (xs ! j)\<lparr>slot_posted := [r]\<rparr> else xs ! j)"
    if "j < length xs" for j
    unfolding ys_def using assms(3) by (intro complete_slots [OF assms(1,2) _ pending that]) (simp add: waiting_def)
  have "flights_ok (snd (complete key r q)) ys"
  proof (rule flights_okI)
    fix k
    show "phase_count (leads k) ys = of_bool (pending (snd (complete key r q)) k \<noteq> None)"
      using phase_count_update [OF assms(2), of "leads k" y] flights_okD(1) [OF assms(1), of k] assms(3,4)
      by (auto simp: ys_def after of_bool_def split: if_splits)
    show "distinct (waiters_of (snd (complete key r q)) k)"
      using flights_okD(2) [OF assms(1), of k] by (simp add: waiters)
    have "waiting k (ys ! j) \<longleftrightarrow> k \<noteq> key \<and> waiting k (xs ! j)" if "j < length xs" for j
      using nth [OF that] assms(3,4) by (auto simp: waiting_def)
    then show "set (waiters_of (snd (complete key r q)) k) = {j. j < length ys \<and> waiting k (ys ! j)}"
      using flights_okD(3) [OF assms(1), of k] by (cases "k = key") (auto simp: waiters ys_def [THEN arg_cong, of length])
  next
    fix j
    assume "j < length ys"
    then show "slot_posted (ys ! j) = [] \<or> (\<exists>k r. slot_phase (ys ! j) = Awaiting k \<and> slot_posted (ys ! j) = [r])"
      using flights_okD(4) [OF assms(1), of j] assms(5) nth [of j] by (auto simp: ys_def [THEN arg_cong, of length] waiting_def)
  qed
  then show ?thesis
    by (simp add: ys_def)
qed

section \<open>Every step keeps the invariant\<close>

lemma stage_pool:
  assumes "session_stage B now self w s g = Inr (cs, s', g', ph)"
  shows "pool_size (edge_pool g') = pool_size (edge_pool g)"
proof -
  have "pool_size pool = pool_size (edge_pool g)" if "select (edge_pool g) = (u, pool)" for u pool
    using select_frame [of "edge_pool g"] that by (simp add: pool_size_def)
  then show ?thesis
    using assms
    by (cases w)
      (auto simp: stage_defs start_proxy_def Let_def rbind_eq_Inr split: if_splits option.splits Role.splits prod.splits)
qed

lemma lend_inv:
  assumes "monitor_inv (lend g m)" and "pool_wf (edge_pool g')" and "pool_size (edge_pool g') = pool_size (edge_pool g)"
  shows "monitor_inv (lend g' m)"
proof -
  have "check_inv (c, edge_pool g, Some (edge_metrics g)) \<longleftrightarrow> check_inv (c, edge_pool g', Some (edge_metrics g'))" for c
    by (rule check_inv_cong) (use assms(3) in \<open>simp add: pool_size_def\<close>)
  then show ?thesis
    using assms(1,2) by (cases "stopped m") (simp_all add: monitor_inv_def lend_def incomplete_def)
qed

text \<open>What a step of one session has to establish.\<close>

lemma inv_advance:
  assumes "sys_inv B x" and "i < length (sys_slots x)"
    and "r = Inr (cs, s, g, ph)" and "edge_ok B g" and "phase_ok B s ph"
    and "pool_size (edge_pool g) = pool_size (edge_pool (sys_edge x))"
    and "booked (edge_metrics (sys_edge x)) (slot_phase (sys_slots x ! i)) (edge_metrics g) ph"
    and "edge_coalescer g = Some q"
    and "flights_ok q (deliver (posts cs) ((sys_slots x)[i := \<lparr>slot_session = s, slot_phase = ph, slot_posted = []\<rparr>]))"
    and "\<forall>p \<in> set (posts cs). framed B (snd p)"
  shows "\<exists>y. advance i [] r x = Inr (cs, y) \<and> sys_inv B y"
proof -
  let ?y = "\<lparr>slot_session = s, slot_phase = ph, slot_posted = []\<rparr>"
  let ?xs = "deliver (posts cs) ((sys_slots x)[i := ?y])"
  have "slot_ok B (?xs ! j)" if "j < length (sys_slots x)" for j
  proof -
    have "slot_ok B ((sys_slots x)[i := ?y] ! j)"
      using assms(1,2,5) that by (cases "j = i") (auto simp: sys_inv_def slot_ok_def)
    then show ?thesis
      using that assms(10) by (auto simp: deliver_nth slot_ok_def)
  qed
  then have "\<forall>z \<in> set ?xs. slot_ok B z"
    by (simp add: all_set_conv_all_nth)
  moreover have "books_ok (edge_metrics g) ((sys_slots x)[i := ?y])"
    using assms(1,2,7) by (intro books_update) (simp_all add: sys_inv_def)
  then have "books_ok (edge_metrics g) ?xs"
    by (simp add: books_ok_def)
  moreover have "monitor_inv (lend g (sys_monitor x))"
  proof (rule lend_inv [OF _ _ assms(6)])
    show "monitor_inv (lend (sys_edge x) (sys_monitor x))"
      using assms(1) unfolding sys_inv_def by blast
    show "pool_wf (edge_pool g)"
      using assms(4) unfolding edge_ok_def by blast
  qed
  moreover have "server_inv (sys_server x)"
    using assms(1) by (simp add: sys_inv_def)
  ultimately show ?thesis
    using assms(4,8,9) unfolding assms(3) advance_def sys_inv_def by simp
qed

lemma inv_quiet:
  assumes "sys_inv B x" and "i < length (sys_slots x)" and "\<And>k. \<not> waiting k (sys_slots x ! i)"
    and "r = Inr (cs, s, g, ph)" and "edge_ok B g" and "phase_ok B s ph"
    and "pool_size (edge_pool g) = pool_size (edge_pool (sys_edge x))"
    and "booked (edge_metrics (sys_edge x)) (slot_phase (sys_slots x ! i)) (edge_metrics g) ph"
    and "quiet (sys_edge x) (slot_phase (sys_slots x ! i)) cs g ph"
  shows "\<exists>y. advance i [] r x = Inr (cs, y) \<and> sys_inv B y"
proof -
  obtain q where q: "edge_coalescer (sys_edge x) = Some q" "flights_ok q (sys_slots x)"
    using assms(1) by (auto simp: sys_inv_def)
  show ?thesis
    by (rule inv_advance [OF assms(1,2,4-8), of q])
      (use assms(9) q flights_quiet [OF q(2) assms(2,3)] in \<open>auto simp: quiet_def\<close>)
qed

lemma slot_facts:
  assumes "sys_inv B x" and "i < length (sys_slots x)"
  shows "phase_ok B (slot_session (sys_slots x ! i)) (slot_phase (sys_slots x ! i))"
    and "(\<And>k. slot_phase (sys_slots x ! i) \<noteq> Awaiting k) \<Longrightarrow> slot_posted (sys_slots x ! i) = []"
    and "r \<in> set (slot_posted (sys_slots x ! i)) \<Longrightarrow> framed B r"
    and "edge_ok B (sys_edge x)"
proof -
  have "slot_ok B (sys_slots x ! i)"
    using assms by (simp add: sys_inv_def)
  then show "phase_ok B (slot_session (sys_slots x ! i)) (slot_phase (sys_slots x ! i))"
    and "r \<in> set (slot_posted (sys_slots x ! i)) \<Longrightarrow> framed B r"
    by (simp_all add: slot_ok_def)
  show "slot_posted (sys_slots x ! i) = []" if "\<And>k. slot_phase (sys_slots x ! i) \<noteq> Awaiting k"
    using assms that flights_okD(4) [of _ "sys_slots x" i] by (auto simp: sys_inv_def)
  show "edge_ok B (sys_edge x)"
    using assms by (simp add: sys_inv_def)
qed

lemma inv_stage:
  assumes "beast_ok B" and "sys_inv B x" and "i < length (sys_slots x)" and "slot_phase (sys_slots x ! i) = Busy w"
    and "\<not> unsendable_stage w (slot_session (sys_slots x ! i)) (sys_edge x)"
  shows "\<exists>cs y. advance i (slot_posted (sys_slots x ! i))
    (session_stage B now i w (slot_session (sys_slots x ! i)) (sys_edge x)) x = Inr (cs, y) \<and> sys_inv B y"
proof -
  let ?s = "slot_session (sys_slots x ! i)" and ?g = "sys_edge x"
  note facts = slot_facts [OF assms(2,3)]
  have work: "work_ok B ?s w" and posted: "slot_posted (sys_slots x ! i) = []"
    using facts(1,2) assms(4) by simp_all
  obtain cs s' g' ph where stage: "session_stage B now i w ?s ?g = Inr (cs, s', g', ph)"
    using stage_total [OF assms(1) facts(4) work assms(5), of now i] by auto
  obtain q where q: "edge_coalescer ?g = Some q" "flights_ok q (sys_slots x)"
    using assms(2) by (auto simp: sys_inv_def)
  have ok: "edge_ok B g'" "phase_ok B s' ph" "booked (edge_metrics ?g) (slot_phase (sys_slots x ! i)) (edge_metrics g') ph"
    using stage_effect [OF assms(1) facts(4) work stage] q(1) assms(4) by simp_all
  note pool = stage_pool [OF stage]
  show ?thesis
  proof (cases "touches_flight w")
    case False
    then have "quiet ?g (slot_phase (sys_slots x ! i)) cs g' ph"
      using stage_quiet [OF assms(1) facts(4) work _ stage] assms(4) by simp
    from inv_quiet [OF assms(2,3) _ stage ok(1,2) pool ok(3) this] posted assms(4) show ?thesis
      by (auto simp: waiting_def)
  next
    case True
    then consider (join) key where "w = Join key" | (complete) key r where "w = Complete_flight key r"
      by (cases w) auto
    then have "\<exists>q'. edge_coalescer g' = Some q' \<and> (\<forall>p \<in> set (posts cs). framed B (snd p)) \<and>
      flights_ok q' (deliver (posts cs) ((sys_slots x)[i := \<lparr>slot_session = s', slot_phase = ph, slot_posted = []\<rparr>]))"
    proof cases
      case join
      then have "stage_join B i key ?s ?g = Inr (cs, s', g', ph)" "fetches B ?s key"
        using stage work by simp_all
      from join_effect [OF facts(4) this(2) q(1) this(1)] show ?thesis
        using flights_join [OF q(2) assms(3), of key "\<lparr>slot_session = s', slot_phase = ph, slot_posted = []\<rparr>"] join assms(4)
        by simp
    next
      case complete
      then have "stage_complete_flight key r ?s ?g = Inr (cs, s', g', ph)" "framed B r"
        using stage work by simp_all
      from complete_flight_effect [OF facts(4) this(2) q(1) this(1)] this(2) show ?thesis
        using flights_complete [OF q(2) assms(3), of key r "\<lparr>slot_session = s', slot_phase = ph, slot_posted = []\<rparr>"] complete assms(4)
        by (auto simp: complete_def split: option.splits)
    qed
    then show ?thesis
      using inv_advance [OF assms(2,3) stage ok(1,2) pool ok(3)] posted by auto
  qed
qed

lemma inv_read:
  assumes "beast_ok B" and "sys_inv B x" and "i < length (sys_slots x)" and "slot_phase (sys_slots x ! i) = Reading"
  shows "\<exists>cs y. advance i (slot_posted (sys_slots x ! i))
    (stage_route B now error ((slot_session (sys_slots x ! i))\<lparr>sess_request := q\<rparr>) (sys_edge x)) x = Inr (cs, y) \<and>
    sys_inv B y"
proof -
  let ?s = "(slot_session (sys_slots x ! i))\<lparr>sess_request := q\<rparr>"
  note facts = slot_facts [OF assms(2,3)]
  have posted: "slot_posted (sys_slots x ! i) = []"
    using facts(2) assms(4) by simp
  obtain cs s' g' ph where route: "stage_route B now error ?s (sys_edge x) = Inr (cs, s', g', ph)"
    using route_total [OF facts(4), of now error ?s] by auto
  have pool: "pool_size (edge_pool g') = pool_size (edge_pool (sys_edge x))"
    using route by (auto simp: stage_route_def session_close_def Let_def rbind_eq_Inr split: if_splits)
  from route_effect [OF assms(1) facts(4) route] show ?thesis
    using inv_quiet [OF assms(2,3) _ route _ _ pool] posted assms(4) by (auto simp: waiting_def)
qed

lemma inv_proxy:
  assumes "beast_ok B" and "sys_inv B x" and "i < length (sys_slots x)" and "slot_phase (sys_slots x ! i) = Proxying p"
    and "stage_proxy B e p (slot_session (sys_slots x ! i)) (sys_edge x) = Some r"
  shows "\<exists>cs y. advance i (slot_posted (sys_slots x ! i)) r x = Inr (cs, y) \<and> sys_inv B y"
proof -
  note facts = slot_facts [OF assms(2,3)]
  have posted: "slot_posted (sys_slots x ! i) = []" and "phase_ok B (slot_session (sys_slots x ! i)) (Proxying p)"
    using facts(1,2) assms(4) by simp_all
  from proxy_effect [OF assms(1) facts(4) this(2) assms(5)] obtain cs g' ph
    where step: "r = Inr (cs, slot_session (sys_slots x ! i), g', ph)" "edge_ok B g'"
      "phase_ok B (slot_session (sys_slots x ! i)) ph"
      "booked (edge_metrics (sys_edge x)) (Proxying p) (edge_metrics g') ph" "quiet (sys_edge x) (Proxying p) cs g' ph" .
  have pool: "pool_size (edge_pool g') = pool_size (edge_pool (sys_edge x))"
    using assms(5) step(1) by (auto simp: stage_proxy_def rbind_eq_Inr split: option.splits)
  show ?thesis
    using inv_quiet [OF assms(2,3) _ step(1-3) pool] step(4,5) posted assms(4) by (auto simp: waiting_def)
qed

lemma inv_posted:
  assumes "beast_ok B" and "sys_inv B x" and "i < length (sys_slots x)" and "slot_posted (sys_slots x ! i) = r # rs"
  shows "\<exists>cs y. advance i rs (session_stage B now i (Respond r) (slot_session (sys_slots x ! i)) (sys_edge x)) x =
    Inr (cs, y) \<and> sys_inv B y"
proof -
  let ?s = "slot_session (sys_slots x ! i)"
  note facts = slot_facts [OF assms(2,3)]
  obtain k where k: "slot_phase (sys_slots x ! i) = Awaiting k" and rs: "rs = []"
    using assms(2-4) flights_okD(4) [of _ "sys_slots x" i] by (auto simp: sys_inv_def)
  have work: "work_ok B ?s (Write (for_current_request B ?s r))"
    using for_current_request_work [OF assms(1)] facts(3) [of r] assms(4) by simp
  obtain cs s' g' ph where written: "write_response B now (for_current_request B ?s r) ?s (sys_edge x) = Inr (cs, s', g', ph)"
    by (simp add: write_response_def Let_def)
  have "serving (slot_phase (sys_slots x ! i))" "\<not> is_proxying (slot_phase (sys_slots x ! i))"
      "\<not> joining (slot_phase (sys_slots x ! i))"
    by (simp_all add: k)
  note effect = write_effect [OF assms(1) facts(4) work written this]
  have stage: "session_stage B now i (Respond r) ?s (sys_edge x) = Inr (cs, s', g', ph)"
    using written by (simp add: write_response_for_current_request_def)
  have "quiet (sys_edge x) (slot_phase (sys_slots x ! i)) cs g' ph"
    using effect k by (auto simp: quiet_def)
  then show ?thesis
    using inv_quiet [OF assms(2,3) _ stage _ _ stage_pool [OF stage]] effect rs assms(4)
    by (auto simp: waiting_def)
qed

lemma on_write_effect:
  assumes "session_on_write B c error s = (cs, s', ph)"
  shows "phase_ok B s' ph \<and> quiet g (Writing c) cs g ph \<and> booked m (Writing c) m ph"
  using assms by (auto simp: session_on_write_def session_close_def do_read_def quiet_def booked_def split: if_splits)

lemma inv_write:
  assumes "sys_inv B x" and "i < length (sys_slots x)" and "slot_phase (sys_slots x ! i) = Writing c"
    and "session_on_write B c error (slot_session (sys_slots x ! i)) = (cs, s', ph)"
  shows "\<exists>y. advance i (slot_posted (sys_slots x ! i)) (Inr (cs, s', sys_edge x, ph)) x = Inr (cs, y) \<and> sys_inv B y"
  using inv_quiet [OF assms(1,2) _ refl, of "sys_edge x" s' ph cs] on_write_effect [OF assms(4)]
    slot_facts(2,4) [OF assms(1,2)] assms(3) by (auto simp: waiting_def)

lemma inv_accept:
  assumes "sys_inv B x"
  shows "sys_inv B (snd (accept_session B x))"
proof -
  let ?y = "\<lparr>slot_session = HttpSession_new B\<lparr>sess_request := empty_request B\<rparr>, slot_phase = Reading, slot_posted = []\<rparr>"
  have "flights_ok q (sys_slots x @ [?y])" if "flights_ok q (sys_slots x)" for q
    by (rule flights_append [OF that]) (simp_all add: waiting_def)
  then show ?thesis
    using assms
    by (auto simp: accept_session_def session_run_def do_read_def Let_def sys_inv_def slot_ok_def books_ok_def)
qed

lemma monitor_step_frame:
  assumes "monitor_inv m" and "monitor_own e" and "monitor_step e m = Some (Inr m')"
  shows "pool_size (mon_pool m') = pool_size (mon_pool m) \<and>
    (mon_metrics m' = mon_metrics m \<or> mon_metrics m' = map_option record_health_transition (mon_metrics m))"
proof (cases e)
  case (Wait_done i error)
  then show ?thesis
    using assms(3) by (auto simp: run_checks_eq Let_def split: if_splits)
next
  case (Check i ev)
  have "monitor_step (Check i ev) m = Some (Inr m')"
    using assms(3) Check by (simp del: monitor_step.simps)
  then have "mon_pool m' = flag_after (mon_checks m ! i) ev (mon_pool m)"
    and "mon_metrics m' = transitions_after (mon_checks m ! i) ev (mon_pool m) (mon_metrics m)"
    by (rule monitor_check_effect [OF assms(1)]; simp)+
  then show ?thesis
    by (simp add: pool_size_def transitions_after_def)
qed (use assms(2) in simp_all)

lemma inv_monitor:
  assumes "sys_inv B x" and "monitor_own e" and "monitor_step e (lend (sys_edge x) (sys_monitor x)) = Some r"
  shows "\<exists>m. r = Inr m \<and> sys_inv B (monitor_returns m x)"
proof -
  let ?m = "lend (sys_edge x) (sys_monitor x)"
  have inv: "monitor_inv ?m"
    using assms(1) by (simp add: sys_inv_def)
  then obtain m where m: "r = Inr m"
    using monitor_step_total [OF inv, of e] assms(3) by (cases r) auto
  have inv': "monitor_inv m"
    using monitor_inv_step [OF inv] assms(3) m by simp
  have size: "pool_size (mon_pool m) = pool_size (edge_pool (sys_edge x))"
    and metrics: "mon_metrics m = Some (edge_metrics (sys_edge x)) \<or>
      mon_metrics m = Some (record_health_transition (edge_metrics (sys_edge x)))"
    using monitor_step_frame [OF inv assms(2)] assms(3) m by (auto simp: lend_def)
  let ?g = "sys_edge (monitor_returns m x)"
  have "lend ?g m = m"
    using metrics by (auto simp: lend_def monitor_returns_def)
  moreover have "edge_ok B ?g"
  proof -
    have "edge_ok B (sys_edge x)" "pool_wf (mon_pool m)"
      using assms(1) inv' by (simp_all add: sys_inv_def monitor_inv_def)
    then show ?thesis
      using size metrics by (elim disjE) (simp_all add: edge_ok_def monitor_returns_def metrics_defs)
  qed
  moreover have "books_ok (edge_metrics ?g) (sys_slots x)"
  proof -
    have "books_ok (edge_metrics (sys_edge x)) (sys_slots x)"
      using assms(1) by (simp add: sys_inv_def)
    then show ?thesis
      using metrics
      by (elim disjE) (simp_all add: books_ok_def monitor_returns_def open_requests_def unjoined_misses_def metrics_defs)
  qed
  ultimately show ?thesis
    using assms(1) m inv' unfolding sys_inv_def by (simp add: monitor_returns_def)
qed

lemma inv_signal:
  assumes "sys_inv B x"
  shows "sys_inv B (on_signal error x)"
proof -
  have "monitor_inv (lend g (monitor_stop m))" if "monitor_inv (lend g m)" for g :: "'a Edge" and m
  proof -
    have "monitor_step Stop (lend g m) = Some (Inr (lend g (monitor_stop m)))"
      by (simp add: lend_def monitor_stop_def)
    then show ?thesis
      by (rule monitor_inv_step [OF that])
  qed
  then show ?thesis
    using assms by (auto simp: on_signal_def sys_inv_def server_inv_def server_stop_def)
qed

lemma inv_begin:
  assumes "beast_ok B" and "sys_inv B x" and "begin_event B e x = Some r"
  shows "\<exists>cs y. r = Inr (cs, y) \<and> sys_inv B y"
proof (cases e)
  case (Accept_event error)
  then obtain cs v where step: "server_step (Accept_done error) (sys_server x) = Some (cs, v)"
    and r: "r = Inr (if New_session \<in> set cs then accept_session B (x\<lparr>sys_server := v\<rparr>) else ([], x\<lparr>sys_server := v\<rparr>))"
    using assms(3) by (auto simp del: server_step.simps)
  have "sys_inv B (x\<lparr>sys_server := v\<rparr>)"
    using assms(2) server_inv_step [OF _ step] by (simp add: sys_inv_def)
  then show ?thesis
    using inv_accept [of B "x\<lparr>sys_server := v\<rparr>"] r by (cases "accept_session B (x\<lparr>sys_server := v\<rparr>)") auto
next
  case (Read_event i now error q)
  with assms(3) inv_read [OF assms(1,2), of i now error q] show ?thesis
    by (auto split: if_splits)
next
  case (Proxy_event i ev)
  with assms(3) inv_proxy [OF assms(1,2), of i _ ev] show ?thesis
    by (auto split: if_splits phase.splits)
next
  case (Posted_event i now)
  with assms(3) inv_posted [OF assms(1,2), of i _ _ now] show ?thesis
    by (auto split: if_splits list.splits simp del: session_stage.simps)
next
  case (Write_event i error)
  with assms(3) obtain c where "i < length (sys_slots x)" "slot_phase (sys_slots x ! i) = Writing c"
    by (auto split: if_splits phase.splits)
  then show ?thesis
    using assms(3) Write_event inv_write [OF assms(2), of i c error]
    by (cases "session_on_write B c error (slot_session (sys_slots x ! i))") auto
next
  case (Monitor_event ev)
  then obtain r' where "monitor_own ev" "monitor_step ev (lend (sys_edge x) (sys_monitor x)) = Some r'"
    and "r = rbind r' (\<lambda>m. Inr ([], monitor_returns m x))"
    using assms(3) by (auto split: if_splits simp del: monitor_step.simps)
  then show ?thesis
    using inv_monitor [OF assms(2)] by fastforce
next
  case (Signal_event error)
  moreover have "sys_inv B (x\<lparr>signal_wait := False\<rparr>)"
    using assms(2) by (simp add: sys_inv_def)
  ultimately show ?thesis
    using assms(3) inv_signal [of B "x\<lparr>signal_wait := False\<rparr>"] by (auto split: if_splits)
qed (use assms(3) in simp)

lemma sys_step_throws:
  assumes "beast_ok B" and "forwards_unsendable e x"
  shows "sys_step B e x = Some (Inl (Invalid_argument ''invalid request body''))"
  using assms(2) stage_throws [OF assms(1)] by (cases e) (auto simp: advance_def simp del: session_stage.simps)

lemma sys_step_safe [totality]:
  assumes "beast_ok B" and "sys_inv B x" and "sys_step B e x = Some r" and "\<not> forwards_unsendable e x"
  shows "\<exists>cs y. r = Inr (cs, y) \<and> sys_inv B y"
proof (cases "\<exists>i now. e = Stage_event i now")
  case True
  then obtain i now w where e: "e = Stage_event i now" "i < length (sys_slots x)" "slot_phase (sys_slots x ! i) = Busy w"
    using assms(3) by (auto split: if_splits phase.splits)
  then have "\<not> unsendable_stage w (slot_session (sys_slots x ! i)) (sys_edge x)"
    using assms(4) by (cases w) (simp_all add: unsendable_stage_def)
  then show ?thesis
    using assms(3) inv_stage [OF assms(1,2) e(2,3)] e by auto
next
  case False
  then have "begin_event B e x = Some r"
    using assms(3) by (cases e) (auto split: if_splits)
  then show ?thesis
    by (rule inv_begin [OF assms(1,2)])
qed

lemma sys_step_inv:
  assumes "beast_ok B" and "sys_inv B x" and "sys_step B e x = Some (Inr (cs, y))"
  shows "sys_inv B y"
proof -
  have "\<not> forwards_unsendable e x"
    using sys_step_throws [OF assms(1), of e x] assms(3) by auto
  from sys_step_safe [OF assms this] show ?thesis by simp
qed

interpretation program: safe_machine "sys_next B" "\<lambda>x. beast_ok B \<and> sys_inv B x" forwards_unsendable
  for B :: "'f beast"
proof
  fix x y :: "'f system" and e and err :: cpp_error
  assume inv: "beast_ok B \<and> sys_inv B x"
  show "beast_ok B \<and> sys_inv B y" if "sys_next B e x = Some (Inr y)"
    using that inv sys_step_inv [of B x e] by (auto simp: sys_next_def rbind_eq_Inr)
  show "forwards_unsendable e x" if "sys_next B e x = Some (Inl err)"
    using that inv sys_step_safe [of B x e] by (cases "forwards_unsendable e x") (auto simp: sys_next_def)
qed

lemma step_io_stopped:
  "sys_step B e x = Some (Inr (cs, y)) \<Longrightarrow> io_stopped y \<longleftrightarrow> io_stopped x \<or> e = Signal_event no_error"
  by (cases e)
    (auto simp: advance_def rbind_eq_Inr accept_session_def session_run_def do_read_def on_signal_def
      monitor_returns_def Let_def
      split: if_splits option.splits phase.splits list.splits prod.splits
      simp del: session_stage.simps monitor_step.simps server_step.simps)

section \<open>Progress of a flight\<close>

text \<open>How many events of its own session a flight is away from its completion.\<close>

fun flight_distance :: "'f phase \<Rightarrow> nat" where
  "flight_distance (Busy (Select_flight key)) = 7"
| "flight_distance (Proxying p) = proxy_outstanding p + 2"
| "flight_distance (Busy (Finish_flight key r c)) = 2"
| "flight_distance (Busy (Complete_flight key r)) = 1"
| "flight_distance _ = 0"

lemma phase_count_card: "phase_count P xs = card {i. i < length xs \<and> P (slot_phase (xs ! i))}"
  by (simp add: phase_count_def length_filter_conv_card conj_commute cong: conj_cong)

lemma flight_leader:
  assumes "flights_ok q xs" and "i < length xs" and "waiting k (xs ! i)"
  obtains j where "j < length xs" and "leads k (slot_phase (xs ! j))"
proof -
  have "i \<in> set (waiters_of q k)"
    using flights_okD(3) [OF assms(1), of k] assms(2,3) by simp
  then have "pending q k \<noteq> None"
    by (cases "pending q k") (simp_all add: waiters_of_def)
  then have "phase_count (leads k) xs \<noteq> 0"
    using flights_okD(1) [OF assms(1), of k] by simp
  then show thesis
    using that by (auto simp: phase_count_card card_eq_0_iff)
qed

lemma stage_distance:
  assumes "session_stage B now i w s g = Inr (cs, s', g', ph)" and "leads k (Busy w)" and "\<not> touches_flight w"
  shows "flight_distance ph < flight_distance (Busy w)"
  using assms
  by (cases w)
    (auto simp: stage_defs start_proxy_def proxy_run_def Let_def rbind_eq_Inr
      split: if_splits option.splits prod.splits)

lemma flight_distance_le: "flight_distance ph \<le> 7"
proof (cases ph rule: flight_distance.cases)
  case (2 p)
  then show ?thesis
    by (cases p rule: proxy_outstanding.cases) simp_all
qed simp_all

lemma proxy_outstanding_pos: "fst p \<noteq> None \<Longrightarrow> 0 < proxy_outstanding p \<and> proxy_outstanding p \<le> 4"
  by (cases p rule: proxy_outstanding.cases) auto

text \<open>A proxy that waits can always go on: to its next operation, or to its report.\<close>

lemma proxy_progress:
  assumes "proxy_inv p" and "fst p \<noteq> None"
  obtains e cs g' ph where "stage_proxy B e p s g = Some (Inr (cs, s, g', ph))"
    and "(\<exists>p'. ph = Proxying p' \<and> proxy_outstanding p = Suc (proxy_outstanding p')) \<or>
      (\<exists>h r. completion_handler (snd p) = Some h \<and> ph = Busy (proxy_reported h r))"
proof -
  have "proxy_outstanding p > 0"
    using proxy_outstanding_pos [OF assms(2)] by simp
  then obtain e :: "('a, unit) proxy_event" where "proxy_step B e p \<noteq> None"
    using proxy.enabled [OF assms(1), of B] by blast
  then obtain cs p' where step: "proxy_step B e p = Some (cs, started cs, p')"
    by (auto simp: proxy_step_def split: option.splits sum.splits)
  then have handle: "proxy_handle B e p = Some (Inr (cs, p'))"
    by (simp add: proxy_handle_step)
  from assms(1) step show thesis
  proof (cases rule: proxy_step_cases)
    case continue
    then have "stage_proxy B e p s g = Some (Inr ([], s, g, Proxying (started cs, p')))"
      using handle by (simp add: stage_proxy_def reported_filter)
    then show thesis
      using continue(2) by (intro that) auto
  next
    case (finish h r)
    then have "stage_proxy B e p s g = Some (Inr ([], s, g\<lparr>edge_metrics := proxy_completed (edge_metrics g)\<rparr>,
        Busy (proxy_reported h r)))"
      using handle by (simp add: stage_proxy_def reported_filter)
    then show thesis
      using finish(3) by (intro that) auto
  qed
qed

definition flight_advanced :: "string \<Rightarrow> nat \<Rightarrow> nat \<Rightarrow> 'f system \<Rightarrow> 'f system \<Rightarrow> bool" where
  "flight_advanced k i j x y \<longleftrightarrow>
     io_stopped y = io_stopped x \<and> length (sys_slots y) = length (sys_slots x) \<and>
     slot_session (sys_slots y ! i) = slot_session (sys_slots x ! i) \<and>
     (slot_posted (sys_slots y ! i) \<noteq> [] \<or>
      waiting k (sys_slots y ! i) \<and> leads k (slot_phase (sys_slots y ! j)) \<and>
      flight_distance (slot_phase (sys_slots y ! j)) < flight_distance (slot_phase (sys_slots x ! j)))"

lemma advance_flight:
  assumes "i < length (sys_slots x)" and "j < length (sys_slots x)" and "waiting k (sys_slots x ! i)"
    and "leads k (slot_phase (sys_slots x ! j))" and "quiet (sys_edge x) (slot_phase (sys_slots x ! j)) cs g ph"
    and "flight_distance ph < flight_distance (slot_phase (sys_slots x ! j))"
  shows "\<exists>y. advance j posted (Inr (cs, s, g, ph)) x = Inr (cs, y) \<and> flight_advanced k i j x y"
proof -
  have "i \<noteq> j"
    using assms(3,4) by (auto simp: waiting_def)
  then show ?thesis
    using assms by (simp add: advance_def flight_advanced_def quiet_def)
qed

lemma leader_completes:
  assumes "sys_inv B x" and "i < length (sys_slots x)" and "j < length (sys_slots x)" and "waiting k (sys_slots x ! i)"
    and "slot_phase (sys_slots x ! j) = Busy (Complete_flight k r)"
  shows "\<exists>cs y. advance j posted (session_stage B now j (Complete_flight k r) s (sys_edge x)) x = Inr (cs, y) \<and>
    flight_advanced k i j x y"
proof -
  obtain q where q: "edge_coalescer (sys_edge x) = Some q" "flights_ok q (sys_slots x)"
    using assms(1) by (auto simp: sys_inv_def)
  have "pending q k \<noteq> None"
    using leader_pending [OF q(2) assms(3), of k] assms(5) by simp
  note after = complete_pending [OF this, of r]
  have "i \<in> set (waiters_of q k)"
    using flights_okD(3) [OF q(2), of k] assms(2,4) by simp
  moreover have "i \<noteq> j"
    using assms(4,5) by (auto simp: waiting_def)
  ultimately show ?thesis
    using assms(2) q(1) after(1)
    by (cases "complete k r q")
      (auto simp: stage_complete_flight_def advance_def flight_advanced_def deliver_nth filter_empty_conv image_iff
        simp del: map_map)
qed

lemma leader_progress:
  assumes "beast_ok B" and "sys_inv B x" and "\<not> io_stopped x"
    and "i < length (sys_slots x)" and "waiting k (sys_slots x ! i)"
    and "j < length (sys_slots x)" and "leads k (slot_phase (sys_slots x ! j))"
  shows "\<exists>e cs y. sys_step B e x = Some (Inr (cs, y)) \<and> flight_advanced k i j x y"
proof (cases "slot_phase (sys_slots x ! j)")
  case (Busy w)
  let ?s = "slot_session (sys_slots x ! j)"
  note facts = slot_facts [OF assms(2,6)]
  have work: "work_ok B ?s w"
    using facts(1) Busy by simp
  have "\<exists>cs y. advance j (slot_posted (sys_slots x ! j)) (session_stage B 0 j w ?s (sys_edge x)) x = Inr (cs, y) \<and>
      flight_advanced k i j x y"
  proof (cases "touches_flight w")
    case True
    then obtain r where w: "w = Complete_flight k r"
      using assms(7) Busy by (cases w) auto
    show ?thesis
      unfolding w using leader_completes [OF assms(2,4,6,5)] Busy w by blast
  next
    case False
    have "\<not> unsendable_stage w ?s (sys_edge x)"
      using assms(7) Busy by (cases w) (simp_all add: unsendable_stage_def)
    then obtain cs s' g' ph where stage: "session_stage B 0 j w ?s (sys_edge x) = Inr (cs, s', g', ph)"
      using stage_total [OF assms(1) facts(4) work, of 0 j] by auto
    show ?thesis
      unfolding stage
      using advance_flight [OF assms(4,6,5,7)] stage_quiet [OF assms(1) facts(4) work False stage]
        stage_distance [OF stage _ False, of k] assms(7) Busy by metis
  qed
  then show ?thesis
    using assms(6) Busy by (intro exI [of _ "Stage_event j 0"]) auto
next
  case (Proxying p)
  let ?s = "slot_session (sys_slots x ! j)"
  note facts = slot_facts [OF assms(2,6)]
  have ok: "phase_ok B ?s (Proxying p)"
    using facts(1) Proxying by simp
  then have p: "proxy_inv p" "fst p \<noteq> None" "completion_handler (snd p) = Some (Flight_handler k)"
    using assms(7) Proxying by simp_all
  obtain e cs g' ph where step: "stage_proxy B e p ?s (sys_edge x) = Some (Inr (cs, ?s, g', ph))"
    and ph: "(\<exists>p'. ph = Proxying p' \<and> proxy_outstanding p = Suc (proxy_outstanding p')) \<or>
      (\<exists>h r. completion_handler (snd p) = Some h \<and> ph = Busy (proxy_reported h r))"
    by (rule proxy_progress [OF p(1,2)])
  have less: "flight_distance ph < flight_distance (Proxying p)"
    using ph p(3) proxy_outstanding_pos [OF p(2)] by auto
  have "quiet (sys_edge x) (Proxying p) cs g' ph"
    using proxy_effect [OF assms(1) facts(4) ok step] by blast
  then have "\<exists>y. advance j (slot_posted (sys_slots x ! j)) (Inr (cs, ?s, g', ph)) x = Inr (cs, y) \<and> flight_advanced k i j x y"
    using advance_flight [OF assms(4,6,5,7), of cs g' ph] less Proxying by simp
  then show ?thesis
    using assms(3,6) Proxying step by (intro exI [of _ "Proxy_event j e"]) auto
qed (use assms(7) in simp_all)

lemma flight_completes:
  assumes "beast_ok B" and "sys_inv B x" and "\<not> io_stopped x"
    and "i < length (sys_slots x)" and "waiting k (sys_slots x ! i)"
    and "j < length (sys_slots x)" and "leads k (slot_phase (sys_slots x ! j))"
  shows "\<exists>es y. length es \<le> flight_distance (slot_phase (sys_slots x ! j)) \<and> sys_run B es x = Some y \<and>
    slot_posted (sys_slots y ! i) \<noteq> [] \<and> io_stopped y = io_stopped x \<and> length (sys_slots y) = length (sys_slots x) \<and>
    slot_session (sys_slots y ! i) = slot_session (sys_slots x ! i)"
  using assms
proof (induction "flight_distance (slot_phase (sys_slots x ! j))" arbitrary: x rule: less_induct)
  case less
  obtain e cs y where step: "sys_step B e x = Some (Inr (cs, y))" and adv: "flight_advanced k i j x y"
    using leader_progress [OF less(2-8)] by blast
  show ?case
  proof (cases "slot_posted (sys_slots y ! i) = []")
    case False
    moreover have "flight_distance (slot_phase (sys_slots x ! j)) \<noteq> 0"
      using less(8) by (cases "slot_phase (sys_slots x ! j)" rule: flight_distance.cases) auto
    ultimately show ?thesis
      using step adv by (intro exI [of _ "[e]"] exI [of _ y]) (auto simp: Suc_le_eq flight_advanced_def)
  next
    case True
    moreover have "sys_inv B y"
      by (rule sys_step_inv [OF less(2,3) step])
    ultimately obtain es z where "length es \<le> flight_distance (slot_phase (sys_slots y ! j))"
        "sys_run B es y = Some z" "slot_posted (sys_slots z ! i) \<noteq> []" "io_stopped z = io_stopped y"
        "length (sys_slots z) = length (sys_slots y)" "slot_session (sys_slots z ! i) = slot_session (sys_slots y ! i)"
      using less(1) [of y] less(2-8) adv by (auto simp: flight_advanced_def)
    then show ?thesis
      using step adv True by (intro exI [of _ "e # es"] exI [of _ z]) (auto simp: flight_advanced_def)
  qed
qed

section \<open>Progress of a request\<close>

text \<open>How many events a session that serves a request is at most away from writing the response.\<close>

fun answer_distance :: "'f phase \<Rightarrow> nat" where
  "answer_distance (Busy (Lookup key)) = 10"
| "answer_distance (Busy (Join key)) = 9"
| "answer_distance (Busy (Select_flight key)) = 8"
| "answer_distance (Busy Select_plain) = 8"
| "answer_distance (Awaiting key) = 8"
| "answer_distance (Proxying p) = proxy_outstanding p + 3"
| "answer_distance (Busy (Finish_flight key r c)) = 3"
| "answer_distance (Busy (Complete_flight key r)) = 2"
| "answer_distance (Busy (Respond r)) = 1"
| "answer_distance (Busy (Write r)) = 1"
| "answer_distance _ = 0"

lemma answer_distance_le: "phase_ok B s ph \<Longrightarrow> answer_distance ph \<le> 10"
proof (cases ph rule: answer_distance.cases)
  case (6 p)
  assume "phase_ok B s ph"
  with 6 show ?thesis
    using proxy_outstanding_pos [of p] by simp
qed simp_all

definition answer_advanced :: "nat \<Rightarrow> 'f system \<Rightarrow> 'f system \<Rightarrow> bool" where
  "answer_advanced i x y \<longleftrightarrow>
     io_stopped y = io_stopped x \<and> length (sys_slots y) = length (sys_slots x) \<and>
     sess_request (slot_session (sys_slots y ! i)) = sess_request (slot_session (sys_slots x ! i)) \<and>
     ((\<exists>c. slot_phase (sys_slots y ! i) = Writing c) \<or>
      serving (slot_phase (sys_slots y ! i)) \<and>
      answer_distance (slot_phase (sys_slots y ! i)) < answer_distance (slot_phase (sys_slots x ! i)))"

lemma stage_answers:
  assumes "session_stage B now i w s g = Inr (cs, s', g', ph)"
  shows "(\<exists>c. ph = Writing c) \<or> serving ph \<and> answer_distance ph < answer_distance (Busy w)"
  using assms
  by (cases w)
    (auto simp: stage_defs start_proxy_def proxy_run_def Let_def rbind_eq_Inr
      split: if_splits option.splits prod.splits Role.splits)

lemma advance_slot:
  assumes "i < length (sys_slots x)"
  shows "\<exists>y. advance i posted (Inr (cs, s, g, ph)) x = Inr (cs, y) \<and> sys_edge y = g \<and>
    length (sys_slots y) = length (sys_slots x) \<and> slot_session (sys_slots y ! i) = s \<and> slot_phase (sys_slots y ! i) = ph \<and>
    io_stopped y = io_stopped x"
  using assms by (simp add: advance_def deliver_nth)

lemma advance_answer:
  assumes "i < length (sys_slots x)" and "sess_request s = sess_request (slot_session (sys_slots x ! i))"
    and "(\<exists>c. ph = Writing c) \<or> serving ph \<and> answer_distance ph < answer_distance (slot_phase (sys_slots x ! i))"
  shows "\<exists>y. advance i posted (Inr (cs, s, g, ph)) x = Inr (cs, y) \<and> answer_advanced i x y"
  using advance_slot [OF assms(1), of posted cs s g ph] assms(2,3) by (auto simp: answer_advanced_def)

lemma own_progress:
  assumes "beast_ok B" and "sys_inv B x" and "\<not> io_stopped x" and "i < length (sys_slots x)"
    and "serving (slot_phase (sys_slots x ! i))" and "\<And>k. slot_phase (sys_slots x ! i) \<noteq> Awaiting k"
    and "sendable (sess_request (slot_session (sys_slots x ! i)))"
  shows "\<exists>e cs y. sys_step B e x = Some (Inr (cs, y)) \<and> answer_advanced i x y"
proof (cases "slot_phase (sys_slots x ! i)")
  case (Busy w)
  let ?s = "slot_session (sys_slots x ! i)"
  note facts = slot_facts [OF assms(2,4)]
  have work: "work_ok B ?s w"
    using facts(1) Busy by simp
  obtain cs s' g' ph where stage: "session_stage B 0 i w ?s (sys_edge x) = Inr (cs, s', g', ph)"
    using stage_total [OF assms(1) facts(4) work sendable_unsendable_stage [OF assms(7)], of 0 i] by auto
  have "sess_request s' = sess_request ?s"
    using stage_effect [OF assms(1) facts(4) work stage] by blast
  then have "\<exists>y. advance i (slot_posted (sys_slots x ! i)) (Inr (cs, s', g', ph)) x = Inr (cs, y) \<and> answer_advanced i x y"
    using advance_answer [OF assms(4)] stage_answers [OF stage] Busy by simp
  then show ?thesis
    using assms(4) Busy stage by (intro exI [of _ "Stage_event i 0"]) (auto simp del: session_stage.simps)
next
  case (Proxying p)
  let ?s = "slot_session (sys_slots x ! i)"
  have p: "proxy_inv p" "fst p \<noteq> None"
    using slot_facts(1) [OF assms(2,4)] Proxying by simp_all
  obtain e cs g' ph where step: "stage_proxy B e p ?s (sys_edge x) = Some (Inr (cs, ?s, g', ph))"
    and ph: "(\<exists>p'. ph = Proxying p' \<and> proxy_outstanding p = Suc (proxy_outstanding p')) \<or>
      (\<exists>h r. completion_handler (snd p) = Some h \<and> ph = Busy (proxy_reported h r))"
    by (rule proxy_progress [OF p])
  from ph have "serving ph \<and> answer_distance ph < answer_distance (Proxying p)"
  proof
    assume "\<exists>h r. completion_handler (snd p) = Some h \<and> ph = Busy (proxy_reported h r)"
    then obtain h r where "ph = Busy (proxy_reported h r)"
      by blast
    then show ?thesis
      using proxy_outstanding_pos [OF p(2)] by (cases h) simp_all
  qed auto
  then have "\<exists>y. advance i (slot_posted (sys_slots x ! i)) (Inr (cs, ?s, g', ph)) x = Inr (cs, y) \<and> answer_advanced i x y"
    using advance_answer [OF assms(4) refl] Proxying by simp
  then show ?thesis
    using assms(3,4) Proxying step by (intro exI [of _ "Proxy_event i e"]) auto
qed (use assms(5,6) in simp_all)

lemma posted_progress:
  assumes "sys_inv B x" and "\<not> io_stopped x" and "i < length (sys_slots x)" and "slot_posted (sys_slots x ! i) \<noteq> []"
  shows "\<exists>cs y. sys_step B (Posted_event i 0) x = Some (Inr (cs, y)) \<and> io_stopped y = io_stopped x \<and>
    sess_request (slot_session (sys_slots y ! i)) = sess_request (slot_session (sys_slots x ! i)) \<and>
    (\<exists>c. slot_phase (sys_slots y ! i) = Writing c)"
proof -
  let ?s = "slot_session (sys_slots x ! i)"
  obtain k r where k: "slot_phase (sys_slots x ! i) = Awaiting k" "slot_posted (sys_slots x ! i) = [r]"
    using assms(1,3,4) flights_okD(4) [OF _ assms(3)] unfolding sys_inv_def by blast
  obtain cs g' c where stage: "session_stage B 0 i (Respond r) ?s (sys_edge x) = Inr (cs, ?s, g', Writing c)"
    by (simp add: write_response_for_current_request_def write_response_def Let_def)
  show ?thesis
    using advance_slot [OF assms(3), of "[]" cs ?s g' "Writing c"] assms(2,3) k stage
    by (auto simp del: session_stage.simps)
qed

lemma waiter_progress:
  assumes "beast_ok B" and "sys_inv B x" and "\<not> io_stopped x" and "i < length (sys_slots x)"
    and "waiting k (sys_slots x ! i)"
  obtains es y where "length es \<le> 7" and "sys_run B es x = Some y" and "slot_posted (sys_slots y ! i) \<noteq> []"
    and "io_stopped y = io_stopped x" and "length (sys_slots y) = length (sys_slots x)"
    and "slot_session (sys_slots y ! i) = slot_session (sys_slots x ! i)"
proof -
  obtain q where "flights_ok q (sys_slots x)"
    using assms(2) by (auto simp: sys_inv_def)
  then obtain j where j: "j < length (sys_slots x)" "leads k (slot_phase (sys_slots x ! j))"
    by (rule flight_leader [OF _ assms(4,5)])
  from flight_completes [OF assms j] flight_distance_le [of "slot_phase (sys_slots x ! j)"] show thesis
    using that le_trans by blast
qed

lemma sys_run_inv: "beast_ok B \<Longrightarrow> sys_inv B x \<Longrightarrow> sys_run B es x = Some y \<Longrightarrow> sys_inv B y"
  by (induction es arbitrary: x) (auto split: option.splits sum.splits dest: sys_step_inv simp del: sys_step.simps)

lemma sys_run_append: "sys_run B es x = Some y \<Longrightarrow> sys_run B (es @ fs) x = sys_run B fs y"
  by (induction es arbitrary: x) (auto split: option.splits sum.splits simp del: sys_step.simps)

lemma waiter_completes:
  assumes "beast_ok B" and "sys_inv B x" and "\<not> io_stopped x" and "i < length (sys_slots x)"
    and "slot_phase (sys_slots x ! i) = Awaiting k"
  shows "\<exists>es y c. length es \<le> 8 \<and> sys_run B es x = Some y \<and> slot_phase (sys_slots y ! i) = Writing c \<and>
    sess_request (slot_session (sys_slots y ! i)) = sess_request (slot_session (sys_slots x ! i))"
proof -
  obtain es y where es: "length es \<le> 7" "sys_run B es x = Some y" "slot_posted (sys_slots y ! i) \<noteq> []"
    "io_stopped y = io_stopped x" "length (sys_slots y) = length (sys_slots x)"
    "slot_session (sys_slots y ! i) = slot_session (sys_slots x ! i)"
  proof (cases "slot_posted (sys_slots x ! i) = []")
    case True
    then have "waiting k (sys_slots x ! i)"
      using assms(5) by (simp add: waiting_def)
    then show thesis
      by (rule waiter_progress [OF assms(1-4)]) (rule that)
  qed (use that [of "[]" x] in simp)
  have inv: "sys_inv B y" "\<not> io_stopped y" "i < length (sys_slots y)"
    using sys_run_inv [OF assms(1,2) es(2)] es assms(3,4) by simp_all
  obtain cs z c where z: "sys_step B (Posted_event i 0) y = Some (Inr (cs, z))"
      "sess_request (slot_session (sys_slots z ! i)) = sess_request (slot_session (sys_slots y ! i))"
      "slot_phase (sys_slots z ! i) = Writing c"
    using posted_progress [OF inv es(3)] by blast
  have "sys_run B (es @ [Posted_event i 0]) x = Some z"
    using sys_run_append [OF es(2)] z(1) by (simp del: sys_step.simps)
  then show ?thesis
    using es(1,6) z(2,3) by (intro exI [of _ "es @ [Posted_event i 0]"] exI [of _ z] exI [of _ c]) simp
qed

lemma request_completes:
  assumes "beast_ok B" and "sys_inv B x" and "\<not> io_stopped x" and "i < length (sys_slots x)"
    and "serving (slot_phase (sys_slots x ! i))" and "sendable (sess_request (slot_session (sys_slots x ! i)))"
  shows "\<exists>es y c. length es \<le> answer_distance (slot_phase (sys_slots x ! i)) \<and> sys_run B es x = Some y \<and>
    slot_phase (sys_slots y ! i) = Writing c \<and>
    sess_request (slot_session (sys_slots y ! i)) = sess_request (slot_session (sys_slots x ! i))"
  using assms
proof (induction "answer_distance (slot_phase (sys_slots x ! i))" arbitrary: x rule: less_induct)
  case less
  show ?case
  proof (cases "\<exists>k. slot_phase (sys_slots x ! i) = Awaiting k")
    case True
    then obtain k where k: "slot_phase (sys_slots x ! i) = Awaiting k" ..
    from waiter_completes [OF less(2-5) k] k show ?thesis by simp
  next
    case False
    then obtain e cs y where step: "sys_step B e x = Some (Inr (cs, y))" and adv: "answer_advanced i x y"
      using own_progress [OF less(2-6) _ less(7)] by blast
    show ?thesis
    proof (cases "\<exists>c. slot_phase (sys_slots y ! i) = Writing c")
      case True
      moreover have "answer_distance (slot_phase (sys_slots x ! i)) \<noteq> 0"
        using less(6) by (cases "slot_phase (sys_slots x ! i)" rule: answer_distance.cases) auto
      ultimately show ?thesis
        using step adv
        by (intro exI [of _ "[e]"] exI [of _ y]) (auto simp: answer_advanced_def Suc_le_eq simp del: sys_step.simps)
    next
      case False
      then have y: "answer_distance (slot_phase (sys_slots y ! i)) < answer_distance (slot_phase (sys_slots x ! i))"
          "serving (slot_phase (sys_slots y ! i))" "\<not> io_stopped y" "i < length (sys_slots y)"
          "sess_request (slot_session (sys_slots y ! i)) = sess_request (slot_session (sys_slots x ! i))"
        using adv less(4,5) by (auto simp: answer_advanced_def)
      then obtain es z c where "length es \<le> answer_distance (slot_phase (sys_slots y ! i))" "sys_run B es y = Some z"
          "slot_phase (sys_slots z ! i) = Writing c"
          "sess_request (slot_session (sys_slots z ! i)) = sess_request (slot_session (sys_slots y ! i))"
        using less(1) [OF y(1) less(2) sys_step_inv [OF less(2,3) step] y(3,4,2)] less(7) by auto
      then show ?thesis
        using step y(1,5) by (intro exI [of _ "e # es"] exI [of _ z] exI [of _ c]) (simp del: sys_step.simps)
    qed
  qed
qed

section \<open>What is written and what is cached\<close>

fun event_session :: "'f sys_event \<Rightarrow> nat option" where
  "event_session (Read_event i now error q) = Some i"
| "event_session (Stage_event i now) = Some i"
| "event_session (Proxy_event i e) = Some i"
| "event_session (Posted_event i now) = Some i"
| "event_session (Write_event i error) = Some i"
| "event_session _ = None"

text \<open>A response written for the current request of a session.\<close>

definition answers_request :: "'f beast \<Rightarrow> 'f slot \<Rightarrow> 'f HttpResponse \<Rightarrow> bool" where
  "answers_request B x r \<longleftrightarrow>
     (let q = sess_request (slot_session x)
      in framed B r \<and> resp_version r = req_version q \<and> resp_keep_alive B r = req_keep_alive B q \<and>
         slot_phase x = Writing (\<not> req_keep_alive B q))"

lemma stage_writes:
  assumes "beast_ok B" and "work_ok B s w" and "session_stage B now i w s g = Inr (cs, s', g', ph)"
    and "Write_response r \<in> set cs"
  shows "cs = [Write_response r] \<and> work_ok B s (Write r) \<and> s' = s \<and> ph = Writing (\<not> req_keep_alive B (sess_request s))"
proof -
  have "Write_response r \<notin> set (map (\<lambda>(w, r). Post_response w r) xs)" for xs :: "(nat \<times> 'a HttpResponse) list"
    by auto
  then consider u where "w = Respond u" | u where "w = Write u"
    using assms(3,4)
    by (cases w)
      (auto simp: stage_lookup_def stage_join_def stage_select_flight_def stage_select_plain_def stage_finish_flight_def
        stage_complete_flight_def start_proxy_def Let_def rbind_eq_Inr
        split: if_splits option.splits Role.splits prod.splits)
  then show ?thesis
  proof cases
    case 1
    then have "work_ok B s (Write (for_current_request B s u))"
      using for_current_request_work [OF assms(1)] assms(2) by simp
    then show ?thesis
      using 1 assms(3,4) need_eof_prepared [OF assms(1), of "for_current_request B s u"]
      by (auto simp: write_response_for_current_request_def write_response_def Let_def framed_def)
  next
    case 2
    then show ?thesis
      using assms(2-4) need_eof_prepared [OF assms(1), of u]
      by (auto simp: write_response_def Let_def framed_def)
  qed
qed

lemma advance_writes:
  assumes "beast_ok B" and "i < length (sys_slots x)" and "work_ok B (slot_session (sys_slots x ! i)) w"
    and "advance i posted (session_stage B now i w (slot_session (sys_slots x ! i)) g) x = Inr (cs, y)"
    and "Write_response r \<in> set cs"
  shows "cs = [Write_response r] \<and> i < length (sys_slots y) \<and> answers_request B (sys_slots y ! i) r"
proof -
  obtain s' g' ph where stage: "session_stage B now i w (slot_session (sys_slots x ! i)) g = Inr (cs, s', g', ph)"
    and y: "y = x\<lparr>sys_edge := g', sys_slots := deliver (posts cs)
      ((sys_slots x)[i := \<lparr>slot_session = s', slot_phase = ph, slot_posted = posted\<rparr>])\<rparr>"
    using assms(4) by (auto simp: advance_def rbind_eq_Inr simp del: session_stage.simps)
  show ?thesis
    using stage_writes [OF assms(1,3) stage assms(5)] assms(2) by (auto simp: y answers_request_def Let_def)
qed

text \<open>The events that run a stage of a session: a further stage of a handler, or a posted response.\<close>

fun runs_stage :: "'f sys_event \<Rightarrow> bool" where
  "runs_stage (Stage_event i now) \<longleftrightarrow> True"
| "runs_stage (Posted_event i now) \<longleftrightarrow> True"
| "runs_stage _ \<longleftrightarrow> False"

lemma runs_stageE:
  assumes "sys_inv B x" and "sys_step B e x = Some (Inr (cs, y))" and "runs_stage e"
  obtains i now w posted where "event_session e = Some i" and "i < length (sys_slots x)"
    and "work_ok B (slot_session (sys_slots x ! i)) w"
    and "advance i posted (session_stage B now i w (slot_session (sys_slots x ! i)) (sys_edge x)) x = Inr (cs, y)"
    and "e = Stage_event i now \<and> slot_phase (sys_slots x ! i) = Busy w \<or> (\<exists>u. w = Respond u)"
proof (cases e)
  case (Stage_event i now)
  then obtain w where w: "i < length (sys_slots x)" "slot_phase (sys_slots x ! i) = Busy w"
    and step: "advance i (slot_posted (sys_slots x ! i))
      (session_stage B now i w (slot_session (sys_slots x ! i)) (sys_edge x)) x = Inr (cs, y)"
    using assms(2) by (auto split: if_splits phase.splits)
  show thesis
    by (rule that [OF _ w(1) _ step]) (use Stage_event w slot_facts(1) [OF assms(1) w(1)] in simp_all)
next
  case (Posted_event i now)
  then obtain u us where u: "i < length (sys_slots x)" "slot_posted (sys_slots x ! i) = u # us"
    and step: "advance i us (session_stage B now i (Respond u) (slot_session (sys_slots x ! i)) (sys_edge x)) x = Inr (cs, y)"
    using assms(2) by (auto split: if_splits list.splits simp del: session_stage.simps)
  show thesis
    by (rule that [OF _ u(1) _ step]) (use Posted_event u slot_facts(3) [OF assms(1) u(1), of u] in simp_all)
qed (use assms(3) in simp_all)

lemma step_writes:
  assumes "beast_ok B" and "sys_inv B x" and "sys_step B e x = Some (Inr (cs, y))" and "Write_response r \<in> set cs"
  shows "\<exists>i. event_session e = Some i \<and> i < length (sys_slots y) \<and> cs = [Write_response r] \<and>
    answers_request B (sys_slots y ! i) r"
proof (cases "runs_stage e")
  case True
  with assms(2,3) obtain i now w posted where "event_session e = Some i" and "i < length (sys_slots x)"
    and "work_ok B (slot_session (sys_slots x ! i)) w"
    and "advance i posted (session_stage B now i w (slot_session (sys_slots x ! i)) (sys_edge x)) x = Inr (cs, y)"
    by (rule runs_stageE)
  with advance_writes [OF assms(1) _ _ _ assms(4)] show ?thesis by blast
next
  case False
  then show ?thesis
    using assms(3,4)
    by (cases e)
      (auto simp: advance_def rbind_eq_Inr stage_route_def stage_proxy_def session_close_def session_on_write_def
        do_read_def accept_session_def session_run_def Let_def split: if_splits option.splits phase.splits prod.splits)
qed

lemma step_caches:
  assumes "beast_ok B" and "sys_inv B x" and "sys_step B e x = Some (Inr (cs, y))"
    and "p \<in> set (contents (edge_cache (sys_edge y)))" and "p \<notin> set (contents (edge_cache (sys_edge x)))"
  shows "\<exists>i now. e = Stage_event i now \<and> i < length (sys_slots x) \<and>
    slot_phase (sys_slots x ! i) = Busy (Finish_flight (fst p) (fst (snd p)) True) \<and>
    fetches B (slot_session (sys_slots x ! i)) (fst p)"
proof (cases "runs_stage e")
  case True
  obtain q where q: "edge_coalescer (sys_edge x) = Some q"
    using assms(2) by (auto simp: sys_inv_def)
  from assms(2,3) True obtain i now w posted where i: "i < length (sys_slots x)"
    and work: "work_ok B (slot_session (sys_slots x ! i)) w"
    and adv: "advance i posted (session_stage B now i w (slot_session (sys_slots x ! i)) (sys_edge x)) x = Inr (cs, y)"
    and kind: "e = Stage_event i now \<and> slot_phase (sys_slots x ! i) = Busy w \<or> (\<exists>u. w = Respond u)"
    by (rule runs_stageE)
  obtain s' ph where "session_stage B now i w (slot_session (sys_slots x ! i)) (sys_edge x) = Inr (cs, s', sys_edge y, ph)"
    using adv by (auto simp: advance_def rbind_eq_Inr simp del: session_stage.simps)
  from stage_cache [OF assms(1) slot_facts(4) [OF assms(2) i] q work this assms(4,5)] kind i show ?thesis
    by auto
next
  case False
  then have "edge_cache (sys_edge y) = edge_cache (sys_edge x)"
    using assms(3)
    by (cases e)
      (auto simp: advance_def rbind_eq_Inr stage_route_def stage_proxy_def session_close_def session_on_write_def
        do_read_def accept_session_def session_run_def on_signal_def monitor_returns_def Let_def
        split: if_splits option.splits phase.splits prod.splits simp del: monitor_step.simps)
  then show ?thesis
    using assms(4,5) by simp
qed

section \<open>Whole handlers as runs of their stages\<close>

text \<open>
  \<open>session_on_read\<close>, the handler as one function, is the run in which no other session interferes between
  its stages.
\<close>

lemma run_stages_events:
  assumes "run_stages B clock i ph s g = Inr (cs, s', g', ph')" and "i < length (sys_slots x)"
    and "slot_session (sys_slots x ! i) = s" and "slot_phase (sys_slots x ! i) = ph" and "sys_edge x = g"
  shows "\<exists>es y. sys_run B es x = Some y \<and> (\<forall>e \<in> set es. \<exists>now. e = Stage_event i now) \<and>
    sys_edge y = g' \<and> slot_session (sys_slots y ! i) = s' \<and> slot_phase (sys_slots y ! i) = ph'"
  using assms
proof (induction B clock i ph s g arbitrary: x cs rule: run_stages.induct)
  case (1 B clock i ph s g)
  show ?case
  proof (cases "\<exists>w. ph = Busy w")
    case False
    then show ?thesis
      using 1(2-6) run_stages_done [of ph B clock i s g] by (intro exI [of _ "[]"]) auto
  next
    case True
    then obtain w where ph: "ph = Busy w" ..
    with 1(2) obtain c1 s1 g1 ph1 c2
      where stage: "session_stage B (clock (work_rank w)) i w s g = Inr (c1, s1, g1, ph1)"
        and run: "run_stages B clock i ph1 s1 g1 = Inr (c2, s', g', ph')"
      by (auto simp: run_stages_Busy rbind_eq_Inr)
    obtain y where y: "advance i (slot_posted (sys_slots x ! i)) (Inr (c1, s1, g1, ph1)) x = Inr (c1, y)"
        "sys_edge y = g1" "length (sys_slots y) = length (sys_slots x)"
        "slot_session (sys_slots y ! i) = s1" "slot_phase (sys_slots y ! i) = ph1"
      using advance_slot [OF 1(3)] by blast
    have step: "sys_step B (Stage_event i (clock (work_rank w))) x = Some (Inr (c1, y))"
      using 1(3-6) ph stage y(1) by simp
    obtain es z where "sys_run B es y = Some z" "\<forall>e \<in> set es. \<exists>now. e = Stage_event i now"
        "sys_edge z = g'" "slot_session (sys_slots z ! i) = s'" "slot_phase (sys_slots z ! i) = ph'"
      using 1(1) [OF ph stage refl refl refl run _ y(4,5,2)] 1(3) y(3) by auto
    with step show ?thesis
      by (intro exI [of _ "Stage_event i (clock (work_rank w)) # es"] exI [of _ z]) (auto simp del: sys_step.simps)
  qed
qed

lemma on_read_events:
  assumes "session_on_read B clock i error q s g = Inr (cs, s', g', ph')" and "\<not> io_stopped x"
    and "i < length (sys_slots x)" and "slot_session (sys_slots x ! i) = s"
    and "slot_phase (sys_slots x ! i) = Reading" and "sys_edge x = g"
  shows "\<exists>es y. sys_run B (Read_event i (clock 6) error q # es) x = Some y \<and>
    (\<forall>e \<in> set es. \<exists>now. e = Stage_event i now) \<and>
    sys_edge y = g' \<and> slot_session (sys_slots y ! i) = s' \<and> slot_phase (sys_slots y ! i) = ph'"
proof -
  obtain c1 s1 g1 ph1 c2 where route: "stage_route B (clock 6) error (s\<lparr>sess_request := q\<rparr>) g = Inr (c1, s1, g1, ph1)"
    and run: "run_stages B clock i ph1 s1 g1 = Inr (c2, s', g', ph')"
    using assms(1) by (auto simp: session_on_read_def rbind_eq_Inr)
  obtain y where y: "advance i (slot_posted (sys_slots x ! i)) (Inr (c1, s1, g1, ph1)) x = Inr (c1, y)"
      "sys_edge y = g1" "length (sys_slots y) = length (sys_slots x)"
      "slot_session (sys_slots y ! i) = s1" "slot_phase (sys_slots y ! i) = ph1"
    using advance_slot [OF assms(3)] by blast
  have "sys_step B (Read_event i (clock 6) error q) x = Some (Inr (c1, y))"
    using assms(2-6) route y(1) by simp
  with run_stages_events [OF run _ y(4,5,2)] assms(3) y(3) show ?thesis
    by (auto simp del: sys_step.simps)
qed

end
