(* ===== verification/Command_Line.thy ===== *)
theory Command_Line
  imports Upstream_Proxy
begin

text \<open>
  The argument parsers of \<^verbatim>\<open>src/main.cpp\<close>. \<^verbatim>\<open>std::from_chars\<close> for \<^verbatim>\<open>unsigned int\<close> reads the longest prefix
  of decimal digits (no sign, no blanks) and reports a value that does not fit 32 bits as out of
  range.
\<close>

section \<open>Operations\<close>

datatype errc = errc_ok | errc_invalid_argument | errc_result_out_of_range

text \<open>The result is the position of the first character not read, the error, and the value stored.\<close>

definition from_chars_u32 :: "string \<Rightarrow> nat \<times> errc \<times> u32" where
  "from_chars_u32 s =
     (let ds = takeWhile is_digit s
      in if ds = [] then (0, errc_invalid_argument, 0)
         else if decimal ds < 2 ^ 32 then (length ds, errc_ok, of_nat (decimal ds))
         else (length ds, errc_result_out_of_range, 0))"

definition parse_port :: "string \<Rightarrow> u16 result" where
  "parse_port val =
     (let (end_pos, error, port) = from_chars_u32 val
      in if error \<noteq> errc_ok \<or> end_pos \<noteq> length val \<or> port = 0 \<or> port > 65535
         then Inl (Runtime_error ''port must be an integer from 1 to 65535'')
         else Inr (ucast port))"

definition parse_worker_count :: "string \<Rightarrow> u32 result" where
  "parse_worker_count val =
     (let (end_pos, error, workers) = from_chars_u32 val
      in if error \<noteq> errc_ok \<or> end_pos \<noteq> length val \<or> workers = 0
         then Inl (Runtime_error ''worker count must be a positive integer'')
         else Inr workers)"

definition default_worker_count :: "u32 \<Rightarrow> u32" where
  "default_worker_count hardware_concurrency = max 1 hardware_concurrency"

definition upstream_syntax_error :: cpp_error where
  "upstream_syntax_error = Runtime_error ''upstream must use host:port or [ipv6-address]:port''"

definition split_upstream :: "string \<Rightarrow> (string \<times> string) result" where
  "split_upstream val =
     (if take 1 val = ''['' then
        case sv_find (CHR '']'') 0 val of
          None \<Rightarrow> Inl upstream_syntax_error
        | Some closing_bracket \<Rightarrow>
            if closing_bracket + 1 \<ge> length val \<or> val ! (closing_bracket + 1) \<noteq> CHR '':''
            then Inl upstream_syntax_error
            else Inr (sv_substr 1 (closing_bracket - 1) val, drop (closing_bracket + 2) val)
      else
        case sv_rfind (CHR '':'') val of
          None \<Rightarrow> Inl upstream_syntax_error
        | Some separator \<Rightarrow>
            if sv_find (CHR '':'') 0 val \<noteq> Some separator then Inl upstream_syntax_error
            else Inr (sv_substr 0 separator val, drop (separator + 1) val))"

definition parse_upstream :: "string \<Rightarrow> UpstreamEndpoint result" where
  "parse_upstream val =
     rbind (split_upstream val)
       (\<lambda>(host_part, port_part).
          if host_part = [] then Inl (Runtime_error ''upstream host must not be empty'')
          else rbind (parse_port port_part) (\<lambda>n. Inr \<lparr>host = host_part, port = n\<rparr>))"

section \<open>Lemmas\<close>

lemma from_chars_whole:
  "from_chars_u32 s = (length s, errc_ok, n) \<longleftrightarrow>
     s \<noteq> [] \<and> list_all is_digit s \<and> decimal s < 2 ^ 32 \<and> n = of_nat (decimal s)"
proof (cases "takeWhile is_digit s = s")
  case True
  then have "list_all is_digit s"
    by (metis list_all_iff set_takeWhileD)
  then show ?thesis
    unfolding from_chars_u32_def Let_def True by auto
next
  case False
  then have "length (takeWhile is_digit s) \<noteq> length s" "\<not> list_all is_digit s"
    by (metis takeWhile_eq_take take_all order_refl, simp add: takeWhile_eq_all_conv list_all_iff)
  then show ?thesis
    by (auto simp: from_chars_u32_def Let_def)
qed

lemma parse_port_cases:
  "parse_port s =
     (if s \<noteq> [] \<and> list_all is_digit s \<and> 1 \<le> decimal s \<and> decimal s \<le> 65535
      then Inr (of_nat (decimal s))
      else Inl (Runtime_error ''port must be an integer from 1 to 65535''))"
proof -
  obtain k err n where r: "from_chars_u32 s = (k, err, n)"
    by (metis prod_cases3)
  show ?thesis
  proof (cases "k = length s \<and> err = errc_ok")
    case False
    then have "\<not> (s \<noteq> [] \<and> list_all is_digit s \<and> decimal s < 2 ^ 32)"
      using from_chars_whole [of s "of_nat (decimal s)"] r by auto
    then have "\<not> (s \<noteq> [] \<and> list_all is_digit s \<and> 1 \<le> decimal s \<and> decimal s \<le> 65535)"
      by auto
    with r False show ?thesis
      by (auto simp: parse_port_def)
  next
    case True
    then have s: "s \<noteq> []" "list_all is_digit s" "decimal s < 2 ^ 32" and n: "n = of_nat (decimal s)"
      using from_chars_whole [of s n] r by auto
    have unat: "unat n = decimal s"
      using s(3) by (simp add: n unat_of_nat)
    have "n = 0 \<longleftrightarrow> decimal s = 0" "n > 65535 \<longleftrightarrow> decimal s > 65535"
      by (simp_all add: unat [symmetric] unat_eq_0 word_less_nat_alt)
    moreover have "(ucast n :: u16) = of_nat (decimal s)"
      by (metis of_nat_unat unat)
    ultimately show ?thesis
      using r True s(1,2) by (auto simp: parse_port_def)
  qed
qed

lemma index_of_char: "c \<notin> set h \<Longrightarrow> index_of (\<lambda>d. d = c) (h @ c # r) = Some (length h)"
  by (induction h) auto

lemma sv_find_char: "sv_find c 0 s = Some i \<longleftrightarrow> (\<exists>h r. s = h @ c # r \<and> c \<notin> set h \<and> i = length h)"
proof
  assume "sv_find c 0 s = Some i"
  then have i: "i < length s" "s ! i = c" "\<forall>j < i. s ! j \<noteq> c"
    by (auto simp: sv_find_def index_of_eq_Some)
  then have "s = take i s @ c # drop (Suc i) s"
    by (metis id_take_nth_drop)
  moreover have "c \<notin> set (take i s)"
    using i by (auto simp: in_set_conv_nth)
  ultimately show "\<exists>h r. s = h @ c # r \<and> c \<notin> set h \<and> i = length h"
    using i(1) by (intro exI [of _ "take i s"] exI [of _ "drop (Suc i) s"]) simp
qed (auto simp: sv_find_def index_of_char)

lemma sv_rfind_char: "sv_rfind c s = Some i \<longleftrightarrow> (\<exists>h r. s = h @ c # r \<and> c \<notin> set r \<and> i = length h)"
proof -
  have rfind: "sv_rfind c s = map_option (\<lambda>j. length s - 1 - j) (sv_find c 0 (rev s))"
    by (simp add: sv_rfind_def last_index_of_def sv_find_def option.map_comp comp_def)
  show ?thesis
  proof
    assume "sv_rfind c s = Some i"
    then obtain h r where "rev s = h @ c # r" "c \<notin> set h" "i = length s - 1 - length h"
      by (auto simp: rfind sv_find_char)
    moreover from this(1) have "s = rev r @ c # rev h"
      by (simp add: rev_swap)
    ultimately show "\<exists>h r. s = h @ c # r \<and> c \<notin> set r \<and> i = length h"
      by (intro exI [of _ "rev r"] exI [of _ "rev h"]) simp
  next
    assume "\<exists>h r. s = h @ c # r \<and> c \<notin> set r \<and> i = length h"
    then obtain h r where s: "s = h @ c # r" "c \<notin> set r" "i = length h"
      by blast
    then have "sv_find c 0 (rev s) = Some (length r)"
      by (simp add: sv_find_def index_of_char)
    then show "sv_rfind c s = Some i"
      unfolding rfind by (simp add: s)
  qed
qed

lemma one_separator:
  "sv_rfind c s = Some i \<and> sv_find c 0 s = Some i \<longleftrightarrow>
     (\<exists>h r. s = h @ c # r \<and> c \<notin> set h \<and> c \<notin> set r \<and> i = length h)"
  unfolding sv_rfind_char sv_find_char by (metis append_eq_append_conv list.inject)

text \<open>The two forms of an upstream argument.\<close>

definition upstream_form :: "string \<Rightarrow> string \<Rightarrow> string \<Rightarrow> bool" where
  "upstream_form s h p \<longleftrightarrow>
     s = ''['' @ h @ '']:'' @ p \<and> CHR '']'' \<notin> set h \<or>
     s = h @ '':'' @ p \<and> take 1 h \<noteq> ''['' \<and> CHR '':'' \<notin> set h \<and> CHR '':'' \<notin> set p"

lemma split_upstream_bracket:
  "split_upstream (CHR ''['' # s) = Inr (h, p) \<longleftrightarrow> s = h @ '']:'' @ p \<and> CHR '']'' \<notin> set h"
proof (cases "sv_find (CHR '']'') 0 s")
  case None
  then have "CHR '']'' \<notin> set s"
    by (auto simp: sv_find_def index_of_None_iff)
  with None show ?thesis
    by (auto simp: split_upstream_def sv_find_def)
next
  case (Some b)
  then obtain a r where s: "s = a @ CHR '']'' # r" "CHR '']'' \<notin> set a"
    by (auto simp: sv_find_char)
  then have find: "sv_find (CHR '']'') 0 (CHR ''['' # s) = Some (Suc (length a))"
    by (simp add: sv_find_def index_of_char)
  have "split_upstream (CHR ''['' # s) =
      (case r of c # p \<Rightarrow> if c = CHR '':'' then Inr (a, p) else Inl upstream_syntax_error | [] \<Rightarrow> Inl upstream_syntax_error)"
    unfolding split_upstream_def find by (cases r) (simp_all add: s sv_substr_def nth_append)
  moreover have "s = h @ '']:'' @ p \<and> CHR '']'' \<notin> set h \<longleftrightarrow> h = a \<and> r = CHR '':'' # p"
    using s by (auto simp: append_eq_append_conv2 Cons_eq_append_conv append_eq_Cons_conv)
  ultimately show ?thesis
    by (auto split: list.splits)
qed

lemma split_upstream_plain:
  assumes "take 1 s \<noteq> ''[''"
  shows "split_upstream s = Inr (h, p) \<longleftrightarrow> s = h @ '':'' @ p \<and> CHR '':'' \<notin> set h \<and> CHR '':'' \<notin> set p"
proof -
  have "split_upstream s = Inr (h, p) \<longleftrightarrow>
      (\<exists>i. (sv_rfind (CHR '':'') s = Some i \<and> sv_find (CHR '':'') 0 s = Some i) \<and> h = take i s \<and> p = drop (i + 1) s)"
    using assms by (auto simp: split_upstream_def sv_substr_def split: option.splits)
  also have "\<dots> \<longleftrightarrow> (\<exists>a r. s = a @ CHR '':'' # r \<and> CHR '':'' \<notin> set a \<and> CHR '':'' \<notin> set r \<and> h = a \<and> p = r)"
    unfolding one_separator by force
  finally show ?thesis
    by auto
qed

lemma split_upstream_form: "split_upstream s = Inr (h, p) \<longleftrightarrow> upstream_form s h p"
proof (cases "take 1 s = ''[''")
  case True
  then obtain t where s: "s = CHR ''['' # t"
    by (cases s) auto
  then show ?thesis
    by (cases h) (auto simp: split_upstream_bracket upstream_form_def)
next
  case False
  then show ?thesis
    by (cases h) (auto simp: split_upstream_plain upstream_form_def)
qed

lemma parse_upstream_Inr:
  "parse_upstream s = Inr e \<longleftrightarrow>
     (\<exists>p. upstream_form s (host e) p \<and> host e \<noteq> [] \<and> parse_port p = Inr (port e))"
proof -
  have "parse_upstream s = Inr e \<longleftrightarrow>
      (\<exists>h p n. split_upstream s = Inr (h, p) \<and> h \<noteq> [] \<and> parse_port p = Inr n \<and> e = \<lparr>host = h, port = n\<rparr>)"
    by (auto simp: parse_upstream_def rbind_eq_Inr)
  then show ?thesis
    by (cases e) (auto simp: split_upstream_form)
qed

lemma parse_port_to_string:
  assumes "parse_port s = Inr n"
  shows "parse_port (to_string (unat n)) = Inr n"
proof -
  have "1 \<le> decimal s" "decimal s \<le> 65535" "n = of_nat (decimal s)"
    using assms by (auto simp: parse_port_cases split: if_splits)
  moreover from this have "unat n = decimal s"
    by (simp add: unat_of_nat)
  ultimately show ?thesis
    by (simp add: parse_port_cases to_string_digits)
qed

lemma upstream_form_header:
  "upstream_form (upstream_host_header e) (host e) p \<longleftrightarrow>
     p = to_string (unat (port e)) \<and>
     (if CHR '':'' \<in> set (host e) then CHR '']'' \<notin> set (host e) else take 1 (host e) \<noteq> ''['')"
proof (cases "CHR '':'' \<in> set (host e)")
  case True
  then show ?thesis
    by (auto simp: upstream_form_def upstream_host_header_def)
next
  case False
  have "host e @ CHR '':'' # q \<noteq> CHR ''['' # host e @ r" for q r
  proof
    assume eq: "host e @ CHR '':'' # q = CHR ''['' # host e @ r"
    have "CHR '':'' = (host e @ CHR '':'' # q) ! length (host e)"
      by simp
    also have "\<dots> = (CHR ''['' # host e) ! length (host e)"
      unfolding eq by (metis append_Cons length_Cons lessI nth_append)
    also have "\<dots> \<in> set (CHR ''['' # host e)"
      by (rule nth_mem) simp
    finally show False
      using False by simp
  qed
  with False show ?thesis
    by (auto simp: upstream_form_def upstream_host_header_def)
qed

section \<open>Properties\<close>

text \<open>C39. \<^verbatim>\<open>parse_port\<close> accepts exactly the non-empty strings of decimal digits whose value is between 1
  and 65535, and returns that value: neither the 32-bit conversion nor the narrowing to 16 bits ever
  changes it.\<close>

theorem parse_port_exact:
  "parse_port s =
     (if s \<noteq> [] \<and> list_all is_digit s \<and> 1 \<le> decimal s \<and> decimal s \<le> 65535
      then Inr (of_nat (decimal s))
      else Inl (Runtime_error ''port must be an integer from 1 to 65535'')) \<and>
   (\<forall>n. parse_port s = Inr n \<longrightarrow> unat n = decimal s)"
proof -
  have "unat (of_nat (decimal s) :: u16) = decimal s" if "decimal s \<le> 65535"
    using that by (simp add: unat_of_nat)
  then show ?thesis
    by (auto simp: parse_port_cases)
qed

theorem parse_port_exact_witness: "parse_port ''8080'' = Inr 8080 \<and> unat (8080 :: u16) = decimal ''8080''"
proof -
  have *: "''8080'' \<noteq> [] \<and> list_all is_digit ''8080'' \<and> 1 \<le> decimal ''8080'' \<and> decimal ''8080'' \<le> 65535"
    and d: "decimal ''8080'' = 8080"
    by (simp_all add: is_digit_def decimal_def digit_value_def)
  show ?thesis
    using parse_port_exact [of "''8080''"] * d by auto
qed

text \<open>C37. \<^verbatim>\<open>parse_upstream\<close> accepts exactly \<open>host:port\<close> with one colon and \<open>[address]:port\<close> with no closing
  bracket in the address, each with a non-empty host and a valid port, and returns those parts; an
  accepted endpoint never has an empty host or port 0.\<close>

theorem parse_upstream_exact:
  "(parse_upstream s = Inr e) =
     (\<exists>p. upstream_form s (host e) p \<and> host e \<noteq> [] \<and> parse_port p = Inr (port e))"
  using parse_upstream_Inr by simp

text \<open>C38. Reading back what \<^verbatim>\<open>upstream_host_header\<close> writes: the Host header sent to an endpoint that was
  configured by some argument parses to that endpoint again, with one exception, which is exact: a
  bracketed address that contains no colon and starts with a further opening bracket, as in
  \<^verbatim>\<open>[[x]:80\<close>. The parser accepts it, and its header \<^verbatim>\<open>[x:80\<close> is malformed.\<close>

theorem parse_upstream_host_header:
  assumes "parse_upstream s = Inr e"
  shows "parse_upstream (upstream_host_header e) = Inr e \<longleftrightarrow> CHR '':'' \<in> set (host e) \<or> take 1 (host e) \<noteq> ''[''"
proof -
  obtain p where form: "upstream_form s (host e) p" and ne: "host e \<noteq> []" and port: "parse_port p = Inr (port e)"
    using assms by (auto simp: parse_upstream_Inr)
  have "CHR '']'' \<notin> set (host e)" if "CHR '':'' \<in> set (host e)"
    using form that by (auto simp: upstream_form_def)
  then show ?thesis
    unfolding parse_upstream_Inr upstream_form_header using ne parse_port_to_string [OF port] by auto
qed

theorem parse_upstream_host_header_witness:
  "parse_upstream ''[::1]:80'' = Inr \<lparr>host = ''::1'', port = 80\<rparr> \<and>
   parse_upstream (upstream_host_header \<lparr>host = ''::1'', port = 80\<rparr>) = Inr \<lparr>host = ''::1'', port = 80\<rparr> \<and>
   parse_upstream ''[[x]:80'' = Inr \<lparr>host = ''[x'', port = 80\<rparr> \<and>
   parse_upstream (upstream_host_header \<lparr>host = ''[x'', port = 80\<rparr>) \<noteq> Inr \<lparr>host = ''[x'', port = 80\<rparr>"
proof -
  have port: "parse_port ''80'' = Inr 80"
    by (simp add: parse_port_cases is_digit_def decimal_def digit_value_def)
  have ok: "parse_upstream ''[::1]:80'' = Inr \<lparr>host = ''::1'', port = 80\<rparr>"
    and bad: "parse_upstream ''[[x]:80'' = Inr \<lparr>host = ''[x'', port = 80\<rparr>"
    unfolding parse_upstream_Inr by (rule exI [of _ "''80''"], simp add: upstream_form_def port)+
  show ?thesis
    using parse_upstream_host_header [OF ok] parse_upstream_host_header [OF bad] ok bad by simp
qed

end
