(* ===== verification/Main_Program.thy ===== *)
theory Main_Program
  imports Edge_System Command_Line
begin

text \<open>
  The rest of \<^verbatim>\<open>src/main.cpp\<close>: the configuration from the arguments and the objects \<^verbatim>\<open>main\<close> constructs, up
  to the start of the worker threads, which then run the steps of \<open>Edge_System\<close>. \<^verbatim>\<open>make_address\<close> of
  Asio and the errors the operating system reports for the listening socket are parameters.
\<close>

section \<open>\<^verbatim>\<open>main\<close>\<close>

record 'a main_config =
  main_address :: 'a
  main_port :: u16
  main_workers :: u32
  main_upstreams :: "UpstreamEndpoint list"

datatype 'f main_outcome = Usage | Start_failed cpp_error | Started u32 "'f system"

definition main_configure :: "(string \<Rightarrow> 'a result) \<Rightarrow> u32 \<Rightarrow> string list \<Rightarrow> 'a main_config result" where
  "main_configure make_address hardware_concurrency argv =
     (let argc = length argv
      in rbind (make_address (if argc = 1 then ''127.0.0.1'' else argv ! 1)) (\<lambda>address.
         rbind (if argc = 1 then Inr 8080 else parse_port (argv ! 2)) (\<lambda>port.
         rbind (if argc = 1 then Inr (default_worker_count hardware_concurrency) else parse_worker_count (argv ! 3)) (\<lambda>worker_count.
         rbind (if argc = 1 then Inr [\<lparr>host = ''127.0.0.1'', port = 9000\<rparr>] else rmap parse_upstream (drop 4 argv)) (\<lambda>upstreams.
           Inr \<lparr>main_address = address, main_port = port, main_workers = worker_count, main_upstreams = upstreams\<rparr>)))))"

definition main_objects :: "('a \<Rightarrow> u16 \<Rightarrow> acceptor_errors) \<Rightarrow> 'a main_config \<Rightarrow> 'f system result" where
  "main_objects listen config =
     rbind (UpstreamPool_new (main_upstreams config)) (\<lambda>upstream_pool.
     rbind (ResponseCache_new CacheOptions_default) (\<lambda>response_cache.
     rbind (MetricsRegistry_new upstream_pool) (\<lambda>metrics.
     rbind (HttpServer_new (listen (main_address config) (main_port config)) upstream_pool (Some metrics)) (\<lambda>(server, metrics).
       let server = server_run server;
           health_monitor = UpstreamHealthMonitor_new upstream_pool HealthCheckOptions_default (Some metrics);
           health_monitor = monitor_start health_monitor
       in Inr \<lparr>sys_edge = \<lparr>edge_pool = upstream_pool, edge_cache = response_cache,
                  edge_coalescer = Some RequestCoalescer_new, edge_metrics = metrics\<rparr>,
               sys_slots = [], sys_server = server, sys_monitor = health_monitor,
               signal_wait = True, io_stopped = False\<rparr>))))"

definition main_program ::
    "(string \<Rightarrow> 'a result) \<Rightarrow> ('a \<Rightarrow> u16 \<Rightarrow> acceptor_errors) \<Rightarrow> u32 \<Rightarrow> string list \<Rightarrow> 'f main_outcome" where
  "main_program make_address listen hardware_concurrency argv =
     (if length argv \<noteq> 1 \<and> length argv < 5 then Usage
      else case rbind (main_configure make_address hardware_concurrency argv) (\<lambda>config.
                  rbind (main_objects listen config) (\<lambda>x. Inr (main_workers config, x))) of
             Inl e \<Rightarrow> Start_failed e
           | Inr (worker_count, x) \<Rightarrow> Started worker_count x)"

section \<open>The initial state\<close>

definition listening :: "acceptor_errors \<Rightarrow> bool" where
  "listening errors \<longleftrightarrow> open_error errors = no_error \<and> set_option_error errors = no_error \<and>
     bind_error errors = no_error \<and> listen_error errors = no_error"

definition fresh_pool :: "UpstreamEndpoint list \<Rightarrow> UpstreamPool" where
  "fresh_pool us = \<lparr>backends = map (\<lambda>e. \<lparr>backend_endpoint = e, backend_healthy = True\<rparr>) us, next_index = 0\<rparr>"

lemma HttpServer_new_eq:
  "HttpServer_new errors pool (Some m) = Inr r \<longleftrightarrow> listening errors \<and> r = (\<lparr>acceptor_open = True, accepts = 0\<rparr>, m)"
  by (auto simp: HttpServer_new_def throw_if_error_def listening_def)

lemma main_objects_eq:
  fixes x :: "'f system"
  assumes "main_objects listen config = Inr x"
  obtains c m where "main_upstreams config \<noteq> []" and "listening (listen (main_address config) (main_port config))"
    and "ResponseCache_new CacheOptions_default = Inr c" and "MetricsRegistry_new (fresh_pool (main_upstreams config)) = Inr m"
    and "x = \<lparr>sys_edge = \<lparr>edge_pool = fresh_pool (main_upstreams config), edge_cache = c,
                edge_coalescer = Some RequestCoalescer_new, edge_metrics = m\<rparr>,
              sys_slots = [], sys_server = \<lparr>acceptor_open = True, accepts = 1\<rparr>,
              sys_monitor = monitor_start (UpstreamHealthMonitor_new (fresh_pool (main_upstreams config))
                HealthCheckOptions_default (Some m)), signal_wait = True, io_stopped = False\<rparr>"
  using assms that
  by (auto simp: main_objects_def UpstreamPool_new_def fresh_pool_def rbind_eq_Inr HttpServer_new_eq server_defs
      split: if_splits)

lemma main_objects_iff:
  "(\<exists>x :: 'f system. main_objects listen config = Inr x) \<longleftrightarrow>
     main_upstreams config \<noteq> [] \<and> listening (listen (main_address config) (main_port config))"
proof
  assume "main_upstreams config \<noteq> [] \<and> listening (listen (main_address config) (main_port config))"
  then show "\<exists>x :: 'f system. main_objects listen config = Inr x"
    by (simp add: main_objects_def UpstreamPool_new_def MetricsRegistry_new_tally ResponseCache_new_def
        CacheOptions_default_def HttpServer_new_eq [THEN iffD2] Let_def)
qed (auto elim: main_objects_eq)

lemma fresh_metrics:
  assumes "MetricsRegistry_new pool = Inr m"
  shows "length (upstreams m) = length (backends pool)" and "requests m = 0" and "duration_count m = 0"
    and "proxy_in_flight m = 0" and "cache_misses m = 0" and "coalescing_leaders m = 0" and "coalescing_waiters m = 0"
  using assms by (auto simp: MetricsRegistry_new_tally tally_def occurrences_def tally_selections_Nil)

lemma main_objects_inv:
  assumes "main_objects listen config = Inr x"
  shows "sys_inv B x"
proof -
  from assms obtain c m where up: "main_upstreams config \<noteq> []"
    and c: "ResponseCache_new CacheOptions_default = Inr c" and m: "MetricsRegistry_new (fresh_pool (main_upstreams config)) = Inr m"
    and x: "x = \<lparr>sys_edge = \<lparr>edge_pool = fresh_pool (main_upstreams config), edge_cache = c,
                edge_coalescer = Some RequestCoalescer_new, edge_metrics = m\<rparr>,
              sys_slots = [], sys_server = \<lparr>acceptor_open = True, accepts = 1\<rparr>,
              sys_monitor = monitor_start (UpstreamHealthMonitor_new (fresh_pool (main_upstreams config))
                HealthCheckOptions_default (Some m)), signal_wait = True, io_stopped = False\<rparr>"
    by (rule main_objects_eq)
  have pool: "pool_wf (fresh_pool (main_upstreams config))"
    using up by (simp add: pool_wf_def fresh_pool_def)
  have "edge_ok B (sys_edge x)"
    using cache_wf_new [OF c] pool fresh_metrics(1) [OF m] by (simp add: x edge_ok_def pool_size_def)
  moreover have "flights_ok RequestCoalescer_new (sys_slots x)"
    by (simp add: x flights_ok_def phase_count_def waiters_of_def)
  moreover have "books_ok (edge_metrics (sys_edge x)) (sys_slots x)"
    using fresh_metrics [OF m] by (simp add: x books_ok_def phase_count_def open_requests_def unjoined_misses_def)
  moreover have "lend (sys_edge x) (sys_monitor x) = sys_monitor x"
    by (simp add: x lend_def monitor_start_def schedule_next_check_def UpstreamHealthMonitor_new_def)
  moreover have "monitor_inv (sys_monitor x)"
    using monitor_inv_start [OF pool] by (simp add: x)
  ultimately show ?thesis
    unfolding sys_inv_def by (simp add: x server_inv_def)
qed

lemma started_inv: "main_program make_address listen hw argv = Started n x \<Longrightarrow> sys_inv B x"
  by (auto simp: main_program_def rbind_eq_Inr split: if_splits sum.splits prod.splits intro: main_objects_inv)

section \<open>Properties\<close>

lemma workers_positive: "parse_worker_count s = Inr n \<Longrightarrow> n > 0"
  by (auto simp: parse_worker_count_def word_gt_0 split: if_splits prod.splits)

lemma default_workers_positive: "default_worker_count h > 0"
  by (cases "h = 0") (auto simp: default_worker_count_def max_def word_gt_0)

lemma main_configure_facts:
  assumes "main_configure make_address hw argv = Inr config" and "length argv = 1 \<or> 5 \<le> length argv"
  shows "main_workers config > 0 \<and> main_upstreams config \<noteq> [] \<and>
    (if length argv = 1 then main_upstreams config = [\<lparr>host = ''127.0.0.1'', port = 9000\<rparr>]
     else rmap parse_upstream (drop 4 argv) = Inr (main_upstreams config))"
  using assms workers_positive default_workers_positive rmap_length [of parse_upstream "drop 4 argv"]
  by (cases "length argv = 1") (auto simp: main_configure_def rbind_eq_Inr Let_def)

text \<open>C25. \<^verbatim>\<open>main\<close> starts the workers exactly when it was called with no argument or with at least four, the
  address and every argument parse, and the socket can be opened, configured, bound and listened on.
  It then has at least one worker, a pool of the given upstreams in their order and all healthy, an
  empty cache, no flight, one accept and one health round outstanding, and a state that satisfies the
  invariant of the running program.\<close>

theorem main_starts:
  fixes make_address :: "string \<Rightarrow> 'a result" and listen :: "'a \<Rightarrow> u16 \<Rightarrow> acceptor_errors" and hw :: u32
    and argv :: "string list" and B :: "'f beast"
  defines "outcome \<equiv> main_program make_address listen hw argv :: 'f main_outcome"
  shows "((\<exists>n x. outcome = Started n x) \<longleftrightarrow>
      (\<exists>config. main_configure make_address hw argv = Inr config \<and>
         listening (listen (main_address config) (main_port config))) \<and> (length argv = 1 \<or> 5 \<le> length argv)) \<and>
    (\<forall>n x. outcome = Started n x \<longrightarrow>
      n > 0 \<and> sys_inv B x \<and> sys_slots x = [] \<and> accepts (sys_server x) = 1 \<and> timer_waits (sys_monitor x) = [False] \<and>
      contents (edge_cache (sys_edge x)) = [] \<and>
      (\<exists>us. edge_pool (sys_edge x) = fresh_pool us \<and>
        (if length argv = 1 then us = [\<lparr>host = ''127.0.0.1'', port = 9000\<rparr>]
         else list_all2 (\<lambda>a u. parse_upstream a = Inr u) (drop 4 argv) us)))"
proof -
  have started: "outcome = Started n x \<longleftrightarrow> (length argv = 1 \<or> 5 \<le> length argv) \<and>
      (\<exists>config. main_configure make_address hw argv = Inr config \<and> main_objects listen config = Inr x \<and>
        n = main_workers config)" for n x
    by (auto simp: outcome_def main_program_def rbind_eq_Inr split: sum.splits prod.splits)
  have "n > 0 \<and> sys_inv B x \<and> sys_slots x = [] \<and> accepts (sys_server x) = 1 \<and> timer_waits (sys_monitor x) = [False] \<and>
      contents (edge_cache (sys_edge x)) = [] \<and>
      (\<exists>us. edge_pool (sys_edge x) = fresh_pool us \<and>
        (if length argv = 1 then us = [\<lparr>host = ''127.0.0.1'', port = 9000\<rparr>]
         else list_all2 (\<lambda>a u. parse_upstream a = Inr u) (drop 4 argv) us))" if start: "outcome = Started n x" for n x
  proof -
    obtain config where config: "main_configure make_address hw argv = Inr config" "main_objects listen config = Inr x"
        "n = main_workers config" "length argv = 1 \<or> 5 \<le> length argv"
      using started [of n x] start by blast
    have "sys_slots x = [] \<and> accepts (sys_server x) = 1 \<and> timer_waits (sys_monitor x) = [False] \<and>
        contents (edge_cache (sys_edge x)) = [] \<and> edge_pool (sys_edge x) = fresh_pool (main_upstreams config)"
      using config(2)
      by (rule main_objects_eq)
        (auto simp: monitor_start_def schedule_next_check_def UpstreamHealthMonitor_new_def dest: cache_wf_new)
    then show ?thesis
      using main_configure_facts [OF config(1,4)] main_objects_inv [OF config(2), of B] config(3)
      by (cases "length argv = 1") (auto simp: rmap_eq_Inr)
  qed
  moreover have "(\<exists>n x. outcome = Started n x) \<longleftrightarrow>
      (\<exists>config. main_configure make_address hw argv = Inr config \<and>
         listening (listen (main_address config) (main_port config))) \<and> (length argv = 1 \<or> 5 \<le> length argv)"
    using started main_objects_iff [of listen] main_configure_facts [of make_address hw argv] by metis
  ultimately show ?thesis
    by blast
qed

theorem main_starts_witness:
  "let make_address = (\<lambda>a. if a = ''127.0.0.1'' then Inr a else Inl (System_error a));
       listen = (\<lambda>a n. \<lparr>open_error = no_error, set_option_error = no_error, bind_error = no_error, listen_error = no_error\<rparr>)
   in \<exists>n (x :: header list system). main_program make_address listen 4 [''eventedge''] = Started n x \<and>
      edge_pool (sys_edge x) = fresh_pool [\<lparr>host = ''127.0.0.1'', port = 9000\<rparr>]"
proof -
  let ?make = "\<lambda>a. if a = ''127.0.0.1'' then Inr a else Inl (System_error a)"
  let ?listen = "\<lambda>a n. \<lparr>open_error = no_error, set_option_error = no_error, bind_error = no_error, listen_error = no_error\<rparr>"
  have "\<exists>config. main_configure ?make 4 [''eventedge''] = Inr config"
    by (simp add: main_configure_def)
  then show ?thesis
    using main_starts [where make_address = ?make and listen = ?listen and hw = 4 and argv = "[''eventedge'']" and B = list_beast]
    by (auto simp: Let_def listening_def)
qed

end
