(* ===== verification/Example_Run.thy ===== *)
theory Example_Run
  imports Main_Program "HOL-Library.Code_Target_Nat"
begin

text \<open>
  One concrete run of the whole program, evaluated: \<^verbatim>\<open>main\<close> without arguments, two clients that ask for
  the same target before either is answered, one fetch, and the two responses. The theorems on the
  running program are applied to its states.
\<close>

definition demo_address :: "string \<Rightarrow> string result" where
  "demo_address a = (if a = ''127.0.0.1'' then Inr a else Inl (System_error a))"

definition demo_listen :: "string \<Rightarrow> u16 \<Rightarrow> acceptor_errors" where
  "demo_listen a p = \<lparr>open_error = no_error, set_option_error = no_error, bind_error = no_error, listen_error = no_error\<rparr>"

definition demo_start :: "header list main_outcome" where
  "demo_start = main_program demo_address demo_listen 1 [''eventedge'']"

definition demo_run :: "header list sys_event list \<Rightarrow> header list system option" where
  "demo_run es = (case demo_start of Started n x \<Rightarrow> sys_run list_beast es x | _ \<Rightarrow> None)"

definition demo_request :: "nat \<Rightarrow> header list HttpRequest" where
  "demo_request version =
     \<lparr>req_method = verb_get, req_target = ''/x'', req_version = version, req_fields = [], req_body = []\<rparr>"

definition demo_response :: "header list HttpResponse" where
  "demo_response = \<lparr>resp_result = 200, resp_version = 11, resp_fields = [], resp_body = ''hi''\<rparr>"

text \<open>An HTTP/1.1 and an HTTP/1.0 client both miss; the first leads the fetch, the second waits.\<close>

definition demo_miss :: "header list sys_event list" where
  "demo_miss =
     [Accept_event no_error, Accept_event no_error,
      Read_event 0 0 no_error (demo_request 11), Read_event 1 0 no_error (demo_request 10),
      Stage_event 0 0, Stage_event 1 0, Stage_event 0 0, Stage_event 1 0]"

text \<open>The fetch, up to the upstream's response.\<close>

definition demo_fetch :: "header list sys_event list" where
  "demo_fetch = demo_miss @
     [Stage_event 0 0, Proxy_event 0 (Resolve_done no_error ()), Proxy_event 0 (Connect_done no_error),
      Proxy_event 0 (Write_done no_error), Proxy_event 0 (Read_done no_error demo_response)]"

text \<open>It is cached, delivered to the waiter and written to the first client.\<close>

definition demo_answer :: "header list sys_event list" where
  "demo_answer = demo_fetch @ [Stage_event 0 0, Stage_event 0 0, Stage_event 0 0]"

text \<open>A client sends a TRACE request with a body; its session is about to forward it.\<close>

definition demo_trace :: "header list sys_event list" where
  "demo_trace =
     [Accept_event no_error, Read_event 0 0 no_error ((demo_request 11)\<lparr>req_method := verb_trace, req_body := ''b''\<rparr>)]"

lemma demo_runE:
  assumes "case demo_run es of None \<Rightarrow> False | Some x \<Rightarrow> P x"
  obtains n x0 x where "main_program demo_address demo_listen 1 [''eventedge''] = Started n x0"
    and "reachable list_beast x0 x" and "P x"
proof -
  obtain n x0 x where x: "demo_start = Started n x0" "sys_run list_beast es x0 = Some x" "P x"
    using assms by (auto simp: demo_run_def split: option.splits main_outcome.splits)
  show thesis
    by (rule that [OF _ sys_run_reachable [OF reach_start x(2)] x(3)]) (use x(1) in \<open>simp add: demo_start_def\<close>)
qed

lemma demo_miss_state:
  "case demo_run demo_miss of None \<Rightarrow> False | Some x \<Rightarrow>
     \<not> io_stopped x \<and> 1 < length (sys_slots x) \<and> waiting ''/x'' (sys_slots x ! 1) \<and>
     leads ''/x'' (slot_phase (sys_slots x ! 0)) \<and> sendable (sess_request (slot_session (sys_slots x ! 1)))"
  by code_simp

lemma demo_fetching_state:
  "case demo_run (demo_miss @ [Stage_event 0 0]) of None \<Rightarrow> False | Some x \<Rightarrow>
     phase_count is_proxying (sys_slots x) = 1 \<and> phase_count serving (sys_slots x) = 2 \<and>
     phase_count joining (sys_slots x) = 0"
  by code_simp

lemma demo_fetch_state:
  "case demo_run demo_fetch of None \<Rightarrow> False | Some x \<Rightarrow>
     (case sys_step list_beast (Stage_event 0 0) x of
        Some (Inr (cs, y)) \<Rightarrow> contents (edge_cache (sys_edge x)) = [] \<and>
          map fst (contents (edge_cache (sys_edge y))) = [''/x'']
      | _ \<Rightarrow> False)"
  by code_simp

lemma demo_answer_state:
  "case demo_run demo_answer of None \<Rightarrow> False | Some x \<Rightarrow>
     (case sys_step list_beast (Posted_event 1 0) x of
        Some (Inr (cs, y)) \<Rightarrow>
          (case cs of Write_response r # ds \<Rightarrow> ds = [] \<and> resp_body r = ''hi'' \<and>
             req_version (sess_request (slot_session (sys_slots y ! 1))) = 10
           | _ \<Rightarrow> False)
      | _ \<Rightarrow> False)"
  by code_simp

lemma demo_trace_state:
  "case demo_run demo_trace of None \<Rightarrow> False | Some x \<Rightarrow> \<not> io_stopped x \<and> forwards_unsendable (Stage_event 0 0) x"
  by code_simp

text \<open>
  The directives of \<^verbatim>\<open>Cache-Control\<close> are looked for in its first field only and in lower case, so these two
  responses, which forbid storing, count as cacheable.
\<close>

lemma no_store_overlooked:
  "cacheable_response list_beast
     (demo_response\<lparr>resp_fields := [(''Cache-Control'', ''No-Store'')]\<rparr>) \<and>
   cacheable_response list_beast
     (demo_response\<lparr>resp_fields := [(''Cache-Control'', ''max-age=1''), (''Cache-Control'', ''no-store'')]\<rparr>)"
  by code_simp

end
