(* ===== verification/Spec2Isabelle.thy ===== *)
theory Spec2Isabelle
  imports Example_Run
begin

text \<open>
  EventEdge is an asynchronous HTTP/1.1 reverse proxy. An acceptor starts one session per client
  connection; a session answers \<^verbatim>\<open>/health\<close> and \<^verbatim>\<open>/metrics\<close> itself, serves cacheable requests from an LRU
  cache, lets one of several simultaneous misses fetch the resource while the others wait, and forwards
  to an upstream chosen by a health-aware round robin; a monitor probes the upstreams; worker threads
  run all handlers. This development models the program from its containers up to the interleaved
  handlers of the running process, and proves each part correct and their composition safe, up to one
  kind of request with which a client can stop the program.

  \<^bold>\<open>Conventions.\<close> Paths are relative to the repository. C++ integers that can wrap are words of their
  width; exceptions and undefined behaviour are values of \<^typ>\<open>cpp_error\<close>, so a handler returns an
  \<open>'a result\<close>; members become fields of a record with the name of the class; methods become functions
  from the state to the calls they make and the new state. Time is an argument wherever the code reads
  the clock. Boost.Beast's operations on messages are a parameter, a record \<open>'f beast\<close> of functions with
  the laws \<open>beast_ok\<close> that its documentation promises; \<open>list_beast\<close> is a container for which they are
  proved, so no theorem with that hypothesis is vacuous. \<^verbatim>\<open>prepare_payload\<close> is fallible. When it
  throws is a hypothesis about Beast, whose source is not part of the repository: it throws for a TRACE request with a body (a request that is not \<open>sendable\<close>) and for a response with
  a body and a status that has none (\<open>bodiless\<close>). The responses EventEdge makes itself are never
  of the second kind, by the lemmas \<open>make_response_prepares\<close> and \<open>metrics_response_prepares\<close>, and a relayed one is
  not because Beast's parser reads no body for such a status (\<open>readable\<close>). Asynchronous operations of Boost.Asio are
  emitted as values, and what they report arrives as the argument of an event.

  \<^bold>\<open>Theories and the code they model.\<close>
  \<^item> \<open>Prelude\<close>: word widths, results, \<^verbatim>\<open>std::unordered_map\<close> (locale \<open>keyed_map\<close>), string searches,
    \<^verbatim>\<open>std::to_string\<close>, generic lemmas.
  \<^item> \<open>Upstream_Pool\<close>: \<^verbatim>\<open>include/eventedge/upstream_config.hpp\<close>. \<open>select\<close> is the first healthy upstream in
    cyclic order, is fair over rounds and starves no upstream; \<open>select64\<close>, the same loop on machine words,
    computes the same.
  \<^item> \<open>Http_Message\<close> and \<open>Http_Handler\<close>: the Beast types and \<^verbatim>\<open>src/http_handler.cpp\<close>. Status, body and
    headers of every response EventEdge makes itself.
  \<^item> \<open>Response_Cache\<close>: \<^verbatim>\<open>src/response_cache.cpp\<close>, with list iterators as node identities. Refines an
    abstract LRU store with expiry; freshness, retention, eviction order.
  \<^item> \<open>Request_Coalescer\<close>: \<^verbatim>\<open>src/request_coalescer.cpp\<close>. Locale \<open>single_flight\<close>; one leader per open
    flight, every waiter called exactly once and in order.
  \<^item> \<open>Metrics\<close>: \<^verbatim>\<open>src/metrics.cpp\<close>. Exact counts modulo \<open>2\<^sup>6\<^sup>4\<close>, also under every interleaving of the
    single atomic updates (\<open>atomic_updates\<close>, \<open>fetch_add\<close>), and a text exposition that parses back to its samples.
  \<^item> \<open>Async_Io\<close>: error codes, runs of events, and the contracts \<open>one_shot\<close> (an object that reports once)
    and \<open>safe_machine\<close> (an invariant that steps keep, and the steps that may throw).
  \<^item> \<open>Upstream_Proxy\<close>: \<^verbatim>\<open>src/upstream_proxy.cpp\<close>. The completion handler is called once within four events;
    \<open>proxy_run\<close> throws exactly when the request is not \<open>sendable\<close>, and the later handlers never do; what is forwarded, what is relayed, which failure becomes which status, which deadline is armed.
  \<^item> \<open>Health_Monitor\<close>: \<^verbatim>\<open>src/upstream_health_monitor.cpp\<close>. Rounds never overlap or end, a check records
    exactly its outcome, a stopped monitor starts nothing.
  \<^item> \<open>Http_Session\<close>: \<^verbatim>\<open>src/http_session.cpp\<close>. \<open>on_read\<close> and \<open>complete_flight\<close> are sequences of stages
    (\<open>stage_route\<close>, \<open>stage_lookup\<close>, \<open>stage_join\<close>, ...), cut before each access to a structure under a
    mutex; \<open>run_stages\<close> runs them to the end and terminates because every stage lowers \<open>work_rank\<close>.
    Each stage has an effect lemma (well-formedness, the books of the metrics, the flights). A failed fetch
    answers its client and the waiting ones, and is not cached.
  \<^item> \<open>Http_Server\<close>: \<^verbatim>\<open>src/http_server.cpp\<close>. Constructor errors and the accept loop.
  \<^item> \<open>Edge_System\<close>: the running program. A state holds the shared structures, all sessions with their
    phase and the responses posted to their strand, the server and the monitor; a step is one event or
    one further stage of a handler in progress. The invariant \<open>sys_inv\<close> consists of \<open>edge_ok\<close>
    (containers), \<open>slot_ok\<close> (each session), \<open>flights_ok\<close> (leaders and waiters), \<open>books_ok\<close> (metrics) and
    the invariants of monitor and server; every step keeps it, and \<open>forwards_unsendable\<close> describes the one
    step that throws. \<open>flight_distance\<close> and \<open>answer_distance\<close> count the events to the end of a flight and to
    the writing of a response. \<open>on_read_events\<close> shows that \<^verbatim>\<open>on_read\<close> as one function is the run of its stages without interference.
  \<^item> \<open>Command_Line\<close> and \<open>Main_Program\<close>: \<^verbatim>\<open>src/main.cpp\<close>. Exact languages of the argument parsers, when
    \<^verbatim>\<open>main\<close> starts, and that what it constructs satisfies \<open>sys_inv\<close>.
  \<^item> \<open>Example_Run\<close>: one run of the whole program, evaluated, to which the theorems below are applied.

  This theory states the properties of the composed program: which handlers throw, single flight and no
  lost waiter, requests are answered, only eligible responses are cached, responses follow the client's
  own request, and the metrics balance.

  \<^bold>\<open>Atomicity, bounds and fuel.\<close> A stage contains at most one access to the cache, the pool or the
  coalescer, which the code makes under that object's mutex, with one exception: the first stage of a
  request for \<^verbatim>\<open>/metrics\<close> renders the text in one step, while \<^verbatim>\<open>render\<close> loads the atomics one by one and locks the
  pool once per upstream. The text served may thus mix values of different instants; the theorems on the
  running program do not speak about it. The relaxed atomic counters a stage touches are updated in the
  same step although the code makes several updates; \<open>Metrics\<close> shows that every interleaving
  of the single updates leaves the same registry, so the balances hold whenever no stage is under way.
  Handlers of one session exclude each other because they run on its strand. No definition uses fuel:
  loops are structural recursions or have a termination measure. The bound of ten events for a request is
  the lookup in the cache, the joining of a flight, one selection, four operations of a proxy, the
  insertion into the cache, the completion of the flight and the response.

  \<^bold>\<open>Not modelled.\<close> The parsing and serialisation of HTTP and the sockets (Boost.Beast, Boost.Asio, the
  operating system): third-party code, present as parameters and events. The number of worker threads:
  any interleaving of steps is considered, whatever their number. Output on the standard streams,
  except that logged errors of a session appear among its calls. \<^verbatim>\<open>HttpServer::port\<close> and
  \<^verbatim>\<open>HttpServer::executor\<close>, which only query Asio objects, and the creation and joining of the threads.
  The shutdown of the process after a handler has thrown: \<open>worker_step\<close> stops the event loop, as the catch
  clause does, and the states after it are not followed (the counters the handler had bumped before it
  threw are not kept).
  Object lifetimes: the shared pointers held by pending handlers keep the objects alive, and the
  coalescer, held by \<^verbatim>\<open>main\<close>, is alive while the workers run (its absence is modelled in the stages).
  Overflow of time points: clock readings and durations are unbounded, where the code adds signed 64-bit
  nanoseconds, which would overflow for a time to live of about 292 years; \<^verbatim>\<open>main\<close> uses two seconds.
  Memory exhaustion. The tests, scripts, container fixture and build files.
\<close>

section \<open>The running program\<close>

lemma running_inv:
  assumes "beast_ok B" and "main_program make_address listen hw argv = Started n x0" and "reachable B x0 x"
  shows "sys_inv B x"
  using program.reach_inv [OF assms(3)] started_inv [OF assms(2)] assms(1) by blast

text \<open>C1. Which handlers throw. In every state that can be reached from the one \<^verbatim>\<open>main\<close> starts, by any
  interleaving of the sessions, their proxies, the accept loop, the health monitor and the signal handler
  and whatever the network reports, a step throws or runs into undefined behaviour in one case only: a
  session forwards a TRACE request with a body, which \<^verbatim>\<open>prepare_payload\<close> of Beast refuses with
  \<^verbatim>\<open>std::invalid_argument\<close>. The worker that runs it catches the exception and stops the event loop of the
  whole program. Every other step returns normally, and apart from that case the event loop is stopped
  by SIGINT or SIGTERM only.\<close>

theorem handler_exceptions:
  assumes "beast_ok B" and "main_program make_address listen hw argv = Started n x0" and "reachable B x0 x"
  shows "(sys_step B e x = Some (Inl err) \<longleftrightarrow>
      forwards_unsendable e x \<and> err = Invalid_argument ''invalid request body'') \<and>
    (\<forall>y. worker_step B e x = Some y \<longrightarrow>
      (if forwards_unsendable e x then io_stopped y
       else reachable B x0 y \<and> (io_stopped y \<longleftrightarrow> io_stopped x \<or> e = Signal_event no_error)))"
proof (cases "forwards_unsendable e x")
  case True
  from sys_step_throws [OF assms(1) this] True show ?thesis
    by (auto simp: worker_step_def)
next
  case False
  have safe: "\<exists>cs y. r = Inr (cs, y)" if "sys_step B e x = Some r" for r
    using sys_step_safe [OF assms(1) running_inv [OF assms] that False] by blast
  have "reachable B x0 y \<and> (io_stopped y \<longleftrightarrow> io_stopped x \<or> e = Signal_event no_error)"
    if y: "worker_step B e x = Some y" for y
  proof -
    obtain r where r: "sys_step B e x = Some r"
      using y unfolding worker_step_def by blast
    with safe y obtain cs where "sys_step B e x = Some (Inr (cs, y))"
      unfolding worker_step_def by fastforce
    then show ?thesis
      using reachable_step [OF assms(3)] step_io_stopped by blast
  qed
  moreover have "sys_step B e x \<noteq> Some (Inl err)"
    using safe [of "Inl err"] by blast
  ultimately show ?thesis
    using False by simp
qed

theorem handler_exceptions_witness:
  "\<exists>n x0 x y. main_program demo_address demo_listen 1 [''eventedge''] = Started n x0 \<and> reachable list_beast x0 x \<and>
    \<not> io_stopped x \<and>
    sys_step list_beast (Stage_event 0 0) x = Some (Inl (Invalid_argument ''invalid request body'')) \<and>
    worker_step list_beast (Stage_event 0 0) x = Some y \<and> io_stopped y \<and>
    (\<forall>error err. sys_step list_beast (Accept_event error) x \<noteq> Some (Inl err))"
proof -
  obtain n x0 x where x: "main_program demo_address demo_listen 1 [''eventedge''] = Started n x0"
      "reachable list_beast x0 x" "\<not> io_stopped x" "forwards_unsendable (Stage_event 0 0) x"
    by (rule demo_runE [OF demo_trace_state]) blast
  note exceptions = handler_exceptions [OF list_beast_ok x(1,2)]
  have throws: "sys_step list_beast (Stage_event 0 0) x = Some (Inl (Invalid_argument ''invalid request body''))"
    using exceptions [of "Stage_event 0 0"] x(4) by blast
  then obtain y where y: "worker_step list_beast (Stage_event 0 0) x = Some y"
    unfolding worker_step_def by simp
  moreover have "io_stopped y"
    using exceptions [of "Stage_event 0 0"] x(4) y by metis
  moreover have "sys_step list_beast (Accept_event error) x \<noteq> Some (Inl err)" for error err
    using exceptions [of "Accept_event error"] forwards_unsendable.simps(2) by blast
  ultimately show ?thesis
    using x(1-3) throws by blast
qed

text \<open>C2. Single flight, and no lost waiter, in every reachable state: at most one session leads the fetch
  of a key, hence at most one proxy fetches it for the cache. A session that waits for a key has either
  been sent exactly one response, and is then registered for no key, or it is registered exactly once,
  for that key, and exactly one session leads the fetch.\<close>

theorem single_flight_reachable:
  assumes "beast_ok B" and "main_program make_address listen hw argv = Started n x0" and "reachable B x0 x"
  shows "card {j. j < length (sys_slots x) \<and> leads k (slot_phase (sys_slots x ! j))} \<le> 1 \<and>
    (\<exists>q. edge_coalescer (sys_edge x) = Some q \<and>
      (\<forall>i < length (sys_slots x). slot_phase (sys_slots x ! i) = Awaiting k \<longrightarrow>
        (if slot_posted (sys_slots x ! i) = []
         then count_list (waiters_of q k) i = 1 \<and> (\<forall>k'. k' \<noteq> k \<longrightarrow> i \<notin> set (waiters_of q k')) \<and>
           card {j. j < length (sys_slots x) \<and> leads k (slot_phase (sys_slots x ! j))} = 1
         else length (slot_posted (sys_slots x ! i)) = 1 \<and> (\<forall>k'. i \<notin> set (waiters_of q k')))))"
proof -
  obtain q where q: "edge_coalescer (sys_edge x) = Some q" and ok: "flights_ok q (sys_slots x)"
    using running_inv [OF assms] by (auto simp: sys_inv_def)
  have one: "card {j. j < length (sys_slots x) \<and> leads k (slot_phase (sys_slots x ! j))} = of_bool (pending q k \<noteq> None)"
    using flights_okD(1) [OF ok, of k] by (simp only: phase_count_card)
  have mem: "i \<in> set (waiters_of q k') \<longleftrightarrow> i < length (sys_slots x) \<and> waiting k' (sys_slots x ! i)" for i k'
    using flights_okD(3) [OF ok, of k'] by simp
  have once: "count_list (waiters_of q k) i = 1" if "i \<in> set (waiters_of q k)" for i
    using flights_okD(2) [OF ok, of k] that by (simp add: count_list_distinct)
  have lead: "pending q k \<noteq> None" if "i \<in> set (waiters_of q k)" for i
    using that by (cases "pending q k") (simp_all add: waiters_of_def)
  have "if slot_posted (sys_slots x ! i) = []
      then count_list (waiters_of q k) i = 1 \<and> (\<forall>k'. k' \<noteq> k \<longrightarrow> i \<notin> set (waiters_of q k')) \<and>
        card {j. j < length (sys_slots x) \<and> leads k (slot_phase (sys_slots x ! j))} = 1
      else length (slot_posted (sys_slots x ! i)) = 1 \<and> (\<forall>k'. i \<notin> set (waiters_of q k'))"
    if i: "i < length (sys_slots x)" "slot_phase (sys_slots x ! i) = Awaiting k" for i
  proof (cases "slot_posted (sys_slots x ! i) = []")
    case True
    have "i \<notin> set (waiters_of q k')" if "k' \<noteq> k" for k'
      using i that by (simp add: mem waiting_def)
    moreover have "i \<in> set (waiters_of q k)"
      using i True by (simp add: mem waiting_def)
    ultimately show ?thesis
      using True once [of i] lead [of i] unfolding one by simp
  next
    case False
    then have "i \<notin> set (waiters_of q k')" for k'
      by (simp add: mem waiting_def)
    then show ?thesis
      using False flights_okD(4) [OF ok i(1)] by auto
  qed
  moreover have "card {j. j < length (sys_slots x) \<and> leads k (slot_phase (sys_slots x ! j))} \<le> 1"
    unfolding one by simp
  ultimately show ?thesis
    using q by blast
qed

theorem single_flight_reachable_witness:
  "\<exists>n x0 x. main_program demo_address demo_listen 1 [''eventedge''] = Started n x0 \<and> reachable list_beast x0 x \<and>
    waiting ''/x'' (sys_slots x ! 1) \<and>
    card {j. j < length (sys_slots x) \<and> leads ''/x'' (slot_phase (sys_slots x ! j))} = 1"
proof -
  obtain n x0 x where x: "main_program demo_address demo_listen 1 [''eventedge''] = Started n x0"
      "reachable list_beast x0 x" "1 < length (sys_slots x)" "waiting ''/x'' (sys_slots x ! 1)"
    by (rule demo_runE [OF demo_miss_state]) blast
  with single_flight_reachable [OF list_beast_ok x(1,2), of "''/x''"] show ?thesis
    unfolding waiting_def by auto
qed

text \<open>C3. A request is answered: as long as the program has not been told to stop, a session that serves a
  request, whether it looks into the cache, fetches, waits for the fetch of another session, is one of
  its proxy's events away or has its response ready, can reach the writing of the response to that very
  request within ten further events (its own, or those of the session that leads the flight it waits
  for), and such events are possible. The one exception is a TRACE request with a body.\<close>

theorem request_answered:
  assumes "beast_ok B" and "main_program make_address listen hw argv = Started n x0" and "reachable B x0 x"
    and "\<not> io_stopped x" and "i < length (sys_slots x)" and "serving (slot_phase (sys_slots x ! i))"
    and "sendable (sess_request (slot_session (sys_slots x ! i)))"
  shows "\<exists>es y c. length es \<le> 10 \<and> sys_run B es x = Some y \<and> reachable B x0 y \<and>
    slot_phase (sys_slots y ! i) = Writing c \<and>
    sess_request (slot_session (sys_slots y ! i)) = sess_request (slot_session (sys_slots x ! i))"
proof -
  have inv: "sys_inv B x"
    by (rule running_inv [OF assms(1-3)])
  obtain es y c where es: "length es \<le> answer_distance (slot_phase (sys_slots x ! i))" "sys_run B es x = Some y"
      "slot_phase (sys_slots y ! i) = Writing c"
      "sess_request (slot_session (sys_slots y ! i)) = sess_request (slot_session (sys_slots x ! i))"
    using request_completes [OF assms(1) inv assms(4-7)] by blast
  moreover have "length es \<le> 10"
    using es(1) answer_distance_le [OF slot_facts(1) [OF inv assms(5)]] by simp
  ultimately show ?thesis
    using sys_run_reachable [OF assms(3) es(2)] by blast
qed

theorem request_answered_witness:
  "\<exists>n x0 x es y c. main_program demo_address demo_listen 1 [''eventedge''] = Started n x0 \<and> reachable list_beast x0 x \<and>
    waiting ''/x'' (sys_slots x ! 1) \<and> length es \<le> 10 \<and> sys_run list_beast es x = Some y \<and>
    slot_phase (sys_slots y ! 1) = Writing c"
proof -
  obtain n x0 x where x: "main_program demo_address demo_listen 1 [''eventedge''] = Started n x0"
      "reachable list_beast x0 x" "\<not> io_stopped x" "1 < length (sys_slots x)" "waiting ''/x'' (sys_slots x ! 1)"
      "sendable (sess_request (slot_session (sys_slots x ! 1)))"
    by (rule demo_runE [OF demo_miss_state]) blast
  then have "serving (slot_phase (sys_slots x ! 1))"
    by (simp add: waiting_def)
  from request_answered [OF list_beast_ok x(1-4) this x(6)] x(1,2,5) show ?thesis by blast
qed

text \<open>C6. The metrics balance in every reachable state, modulo \<open>2\<^sup>6\<^sup>4\<close>: the gauge of running proxies is
  their number, the requests counted are the ones whose duration was observed and the ones being
  served, and every cache miss has become a leader or a waiter or is about to join.\<close>

theorem metrics_balance:
  assumes "beast_ok B" and "main_program make_address listen hw argv = Started n x0" and "reachable B x0 x"
  shows "let m = edge_metrics (sys_edge x) in
    proxy_in_flight m = of_nat (phase_count is_proxying (sys_slots x)) \<and>
    requests m = duration_count m + of_nat (phase_count serving (sys_slots x)) \<and>
    cache_misses m = coalescing_leaders m + coalescing_waiters m + of_nat (phase_count joining (sys_slots x))"
proof -
  have "books_ok (edge_metrics (sys_edge x)) (sys_slots x)"
    using running_inv [OF assms] by (simp add: sys_inv_def)
  then show ?thesis
    by (simp add: books_ok_def open_requests_def unjoined_misses_def algebra_simps)
qed

theorem metrics_balance_witness:
  "\<exists>n x0 x. main_program demo_address demo_listen 1 [''eventedge''] = Started n x0 \<and> reachable list_beast x0 x \<and>
    proxy_in_flight (edge_metrics (sys_edge x)) = 1 \<and>
    requests (edge_metrics (sys_edge x)) = duration_count (edge_metrics (sys_edge x)) + 2"
proof -
  obtain n x0 x where x: "main_program demo_address demo_listen 1 [''eventedge''] = Started n x0"
      "reachable list_beast x0 x" "phase_count is_proxying (sys_slots x) = 1" "phase_count serving (sys_slots x) = 2"
    by (rule demo_runE [OF demo_fetching_state]) blast
  from metrics_balance [OF list_beast_ok x(1,2)] x show ?thesis
    by (intro exI [of _ n] exI [of _ x0] exI [of _ x]) (simp add: Let_def)
qed

text \<open>C5. Every response written to a client, whether made by the session, relayed by its proxy, taken from
  the cache or fetched by another session, has the version of that client's own request and keeps the
  connection alive exactly when that request asked for it; it carries its length, so the connection is
  closed after it only when the client asked for that.\<close>

theorem responses_follow_request:
  assumes "beast_ok B" and "main_program make_address listen hw argv = Started n x0" and "reachable B x0 x"
    and "sys_step B e x = Some (Inr (cs, y))" and "Write_response r \<in> set cs"
  shows "\<exists>i. event_session e = Some i \<and> i < length (sys_slots y) \<and> cs = [Write_response r] \<and>
    answers_request B (sys_slots y ! i) r"
  by (rule step_writes [OF assms(1) running_inv [OF assms(1-3)] assms(4,5)])

theorem responses_follow_request_witness:
  "\<exists>n x0 x y r. main_program demo_address demo_listen 1 [''eventedge''] = Started n x0 \<and> reachable list_beast x0 x \<and>
    sys_step list_beast (Posted_event 1 0) x = Some (Inr ([Write_response r], y)) \<and>
    resp_body r = ''hi'' \<and> resp_version r = 10"
proof -
  let ?P = "\<lambda>x. case sys_step list_beast (Posted_event 1 0) x of
      Some (Inr (cs, y)) \<Rightarrow>
        (case cs of Write_response r # ds \<Rightarrow> ds = [] \<and> resp_body r = ''hi'' \<and>
             req_version (sess_request (slot_session (sys_slots y ! 1))) = 10
         | _ \<Rightarrow> False)
    | _ \<Rightarrow> False"
  obtain n x0 x where x: "main_program demo_address demo_listen 1 [''eventedge''] = Started n x0"
      "reachable list_beast x0 x" "?P x"
    by (rule demo_runE [OF demo_answer_state]) blast
  then obtain r y where y: "sys_step list_beast (Posted_event 1 0) x = Some (Inr ([Write_response r], y))"
      "resp_body r = ''hi''" "req_version (sess_request (slot_session (sys_slots y ! 1))) = 10"
    by (auto split: option.splits sum.splits prod.splits list.splits session_call.splits
        simp del: sys_step.simps begin_event.simps)
  have "resp_version r = 10"
    using responses_follow_request [OF list_beast_ok x(1,2) y(1), of r] y(3) by (auto simp: answers_request_def Let_def)
  with x(1,2) y(1,2) show ?thesis by blast
qed

text \<open>C4. What gets into the cache. Every response in the cache of a reachable state is a 200 with no
  \<^verbatim>\<open>Set-Cookie\<close> header whose first \<^verbatim>\<open>Cache-Control\<close> header, if it has one, contains neither \<^verbatim>\<open>no-store\<close> nor
  \<^verbatim>\<open>private\<close> in lower case (further \<^verbatim>\<open>Cache-Control\<close> headers and other spellings are not looked at, see
  \<open>no_store_overlooked\<close>). An entry appears only in the step in which a session finishes a flight it leads,
  and the request of that session is a GET for the target that is the key of the entry, not \<^verbatim>\<open>/health\<close>,
  with no \<^verbatim>\<open>Authorization\<close> header.\<close>

theorem cache_only_eligible:
  assumes "beast_ok B" and "main_program make_address listen hw argv = Started n x0" and "reachable B x0 x"
    and "sys_step B e x = Some (Inr (cs, y))" and "(key, r, t) \<in> set (contents (edge_cache (sys_edge y)))"
  shows "resp_result r = 200 \<and> (\<forall>h \<in> set (fields_list B (resp_fields r)). \<not> is_field F_set_cookie h) \<and>
    (case List.find (is_field F_cache_control) (fields_list B (resp_fields r)) of
       None \<Rightarrow> True
     | Some h \<Rightarrow> \<not> sublist ''no-store'' (snd h) \<and> \<not> sublist ''private'' (snd h)) \<and>
    ((key, r, t) \<in> set (contents (edge_cache (sys_edge x))) \<or>
     (\<exists>i now. e = Stage_event i now \<and> i < length (sys_slots x) \<and>
       slot_phase (sys_slots x ! i) = Busy (Finish_flight key r True) \<and>
       (let q = sess_request (slot_session (sys_slots x ! i))
        in req_method q = verb_get \<and> req_target q = key \<and> key \<noteq> ''/health'' \<and>
           (\<forall>h \<in> set (fields_list B (req_fields q)). \<not> is_field F_authorization h))))"
proof -
  have inv: "sys_inv B x"
    by (rule running_inv [OF assms(1-3)])
  have "sys_inv B y"
    by (rule sys_step_inv [OF assms(1) inv assms(4)])
  then have "\<forall>p \<in> set (contents (edge_cache (sys_edge y))). storable B (fst (snd p))"
    unfolding sys_inv_def edge_ok_def by blast
  then have "cacheable_response B r"
    using assms(5) by (auto simp: storable_def)
  moreover have "(key, r, t) \<in> set (contents (edge_cache (sys_edge x))) \<or>
      (\<exists>i now. e = Stage_event i now \<and> i < length (sys_slots x) \<and>
        slot_phase (sys_slots x ! i) = Busy (Finish_flight key r True) \<and> fetches B (slot_session (sys_slots x ! i)) key)"
    using step_caches [OF assms(1) inv assms(4,5)] by auto
  ultimately show ?thesis
    unfolding fetches_def cacheable_request_headers [OF assms(1)] cacheable_response_headers [OF assms(1)]
      no_field_def Let_def
    by blast
qed

theorem cache_only_eligible_witness:
  "\<exists>n x0 x y cs r t. main_program demo_address demo_listen 1 [''eventedge''] = Started n x0 \<and> reachable list_beast x0 x \<and>
    sys_step list_beast (Stage_event 0 0) x = Some (Inr (cs, y)) \<and>
    (''/x'', r, t) \<in> set (contents (edge_cache (sys_edge y))) \<and> resp_result r = 200 \<and>
    slot_phase (sys_slots x ! 0) = Busy (Finish_flight ''/x'' r True)"
proof -
  let ?P = "\<lambda>x. case sys_step list_beast (Stage_event 0 0) x of
      Some (Inr (cs, y)) \<Rightarrow> contents (edge_cache (sys_edge x)) = [] \<and>
        map fst (contents (edge_cache (sys_edge y))) = [''/x'']
    | _ \<Rightarrow> False"
  obtain n x0 x where x: "main_program demo_address demo_listen 1 [''eventedge''] = Started n x0"
      "reachable list_beast x0 x" "?P x"
    by (rule demo_runE [OF demo_fetch_state]) blast
  then obtain cs y where y: "sys_step list_beast (Stage_event 0 0) x = Some (Inr (cs, y))"
      "contents (edge_cache (sys_edge x)) = []" "map fst (contents (edge_cache (sys_edge y))) = [''/x'']"
    by (auto split: option.splits sum.splits prod.splits simp del: sys_step.simps)
  then obtain r t where rt: "contents (edge_cache (sys_edge y)) = [(''/x'', r, t)]"
    by auto
  then have entry: "(''/x'', r, t) \<in> set (contents (edge_cache (sys_edge y)))"
    by simp
  have "resp_result r = 200 \<and> slot_phase (sys_slots x ! 0) = Busy (Finish_flight ''/x'' r True)"
    using cache_only_eligible [OF list_beast_ok x(1,2) y(1) entry] y(2) by auto
  with x(1,2) y(1) entry show ?thesis by blast
qed

end
